(* ===== verification/Go_Runtime.thy ===== *)
theory Go_Runtime
  imports Complex_Main "HOL-Library.Word"
begin

text \<open>
  The prelude of the development: what the modelled Go code uses of the language and of its
  standard library, and the generic lemmas the components share.
  \<^item> Strings are byte strings (\<open>string\<close>, a list of 8-bit characters), as Go's are.
  \<^item> \<open>strings.TrimSpace\<close>, \<open>strings.TrimRight\<close> and \<open>strings.Trim\<close> work on these bytes;
    the white space outside ASCII is given by its UTF-8 encodings.
  \<^item> An instant (\<open>time.Time\<close>) is the number of nanoseconds since the zero time of Go, so that
    \<open>IsZero\<close> is equality with 0; a \<open>time.Duration\<close> is a number of nanoseconds, and \<open>Time.Sub\<close>
    saturates at the limits of a 64-bit integer.
  \<^item> A buffered channel is a queue with a capacity; the contract of a bounded queue is a locale,
    and the channel operations interpret it.
\<close>

unbundle bit_operations_syntax

section \<open>Collections of rules\<close>

named_theorems wf_intros \<open>introduction rules: an operation keeps a component's invariant\<close>
named_theorems op_simps \<open>what an operation returns, branch by branch\<close>

section \<open>Lists\<close>

lemma find_SomeD: "find P xs = Some x \<Longrightarrow> x \<in> set xs \<and> P x"
  by (metis find_Some_iff nth_mem)

lemma remove1_filter: "distinct xs \<Longrightarrow> remove1 x xs = filter (\<lambda>y. y \<noteq> x) xs"
  by (induction xs) (auto intro!: filter_True [symmetric])

lemma card_distinct_keys: "distinct (map fst xs) \<Longrightarrow> card (set xs) = length xs"
  by (metis distinct_card distinct_map)

section \<open>Integers, instants and durations\<close>

type_synonym uint64 = "64 word"
type_synonym int64 = "64 word"
type_synonym uint8 = "8 word"
type_synonym time = int
type_synonym duration = int

definition zero_time :: time where
  "zero_time = 0"

definition max_duration :: duration where
  "max_duration = 2 ^ 63 - 1"

definition min_duration :: duration where
  "min_duration = - (2 ^ 63)"

definition time_is_zero :: "time \<Rightarrow> bool" where
  "time_is_zero t \<longleftrightarrow> t = zero_time"

definition time_after :: "time \<Rightarrow> time \<Rightarrow> bool" where
  "time_after t u \<longleftrightarrow> u < t"

definition time_add :: "time \<Rightarrow> duration \<Rightarrow> time" where
  "time_add t d = t + d"

definition time_sub :: "time \<Rightarrow> time \<Rightarrow> duration" where
  "time_sub t u = max min_duration (min max_duration (t - u))"

text \<open>The Unix epoch, counted from Go's zero time (1 January of the year 1), in nanoseconds.\<close>

definition unix_epoch :: time where
  "unix_epoch = 62135596800 * 10 ^ 9"

text \<open>\<open>Time.UnixMilli\<close>: the milliseconds since the Unix epoch, rounded down, as an \<open>int64\<close>.\<close>

definition unix_milli :: "time \<Rightarrow> int64" where
  "unix_milli t = word_of_int ((t - unix_epoch) div 10 ^ 6)"

definition of_unix_milli :: "int64 \<Rightarrow> time" where
  "of_unix_milli ms = unix_epoch + sint ms * 10 ^ 6"

definition millisecond :: duration where "millisecond = 10 ^ 6"
definition second :: duration where "second = 10 ^ 9"
definition minute :: duration where "minute = 60 * second"
definition hour :: duration where "hour = 60 * minute"

lemmas time_defs = zero_time_def time_is_zero_def time_after_def time_add_def
lemmas duration_defs = millisecond_def second_def minute_def hour_def max_duration_def min_duration_def

lemma time_sub_exact:
  "min_duration \<le> t - u \<Longrightarrow> t - u \<le> max_duration \<Longrightarrow> time_sub t u = t - u"
  by (simp add: time_sub_def)

lemma time_sub_nonpos_iff: "time_sub t u \<le> 0 \<longleftrightarrow> t \<le> u"
  by (auto simp: time_sub_def min_duration_def max_duration_def min_def max_def)

lemma time_sub_le: "u \<le> t \<Longrightarrow> time_sub t u \<le> t - u"
  by (auto simp: time_sub_def min_duration_def)

text \<open>
  What a clock function (\<open>time.Now\<close>) returns, reading by reading: \<open>c k\<close> is the \<open>k\<close>-th reading,
  and code that reads the clock passes the number of the next reading on.
\<close>

type_synonym clock = "nat \<Rightarrow> time"

text \<open>\<open>Time.UnixNano\<close>: nanoseconds since the Unix epoch, as an \<open>int64\<close>.\<close>

definition unix_nano :: "time \<Rightarrow> int64" where
  "unix_nano t = word_of_int (t - unix_epoch)"

section \<open>Signed 64-bit values\<close>

text \<open>A value that is not negative as an \<open>int64\<close> reads the same as an unsigned one.\<close>

lemma sint_nonneg_unat:
  fixes w :: int64
  assumes "0 \<le> sint w"
  shows "int (unat w) = sint w"
proof -
  have "uint w = sint w mod 2 ^ 64"
    by (simp add: uint_sint take_bit_eq_mod)
  also have "\<dots> = sint w"
    using assms sint_lt [of w] by (intro mod_pos_pos_trivial) auto
  finally show ?thesis by simp
qed

lemma sint_of_unat:
  fixes w :: int64
  assumes "unat w < 2 ^ 63"
  shows "sint w = int (unat w)"
proof -
  have "int (unat w) < int (2 ^ 63)" using assms by (simp only: of_nat_less_iff)
  then have "uint w < 2 ^ 63" by simp
  moreover have "- (2 ^ 63) \<le> uint w" using uint_ge_0 [of w] by (rule order.trans [rotated]) simp
  ultimately have "signed_take_bit 63 (uint w) = uint w"
    by (simp only: signed_take_bit_int_eq_self)
  then have "sint w = uint w" by (simp add: sint_uint)
  then show ?thesis by simp
qed

section \<open>Floats\<close>

text \<open>A \<open>float64\<close> is a real number, an infinity or NaN, with which every comparison is false.\<close>

datatype float64 = Finite real | Infinite bool | NaN

text \<open>\<open>float_le x y\<close> is \<open>x <= y\<close>; \<open>Infinite True\<close> is the positive infinity.\<close>

fun float_le :: "float64 \<Rightarrow> float64 \<Rightarrow> bool" where
  "float_le NaN y = False"
| "float_le x NaN = False"
| "float_le (Finite x) (Finite y) = (x \<le> y)"
| "float_le (Infinite p) y = (p \<longrightarrow> y = Infinite True)"
| "float_le (Finite x) (Infinite p) = p"

section \<open>Strings\<close>

text \<open>
  The white space \<open>unicode.IsSpace\<close> knows, as UTF-8: the six ASCII characters, then U+0085,
  U+00A0, U+1680, U+2000 to U+200A, U+2028, U+2029, U+202F, U+205F and U+3000.
\<close>

definition byte_string :: "nat list \<Rightarrow> string" where
  "byte_string bs = map (\<lambda>b. char_of b) bs"

definition space_encodings :: "string list" where
  "space_encodings = map byte_string
     ([[9], [10], [11], [12], [13], [32], [0xC2, 0x85], [0xC2, 0xA0], [0xE1, 0x9A, 0x80]]
      @ map (\<lambda>k. [0xE2, 0x80, k]) [0x80..<0x8B]
      @ [[0xE2, 0x80, 0xA8], [0xE2, 0x80, 0xA9], [0xE2, 0x80, 0xAF], [0xE2, 0x81, 0x9F],
         [0xE3, 0x80, 0x80]])"

definition starts_with :: "string \<Rightarrow> string \<Rightarrow> bool" where
  "starts_with p s \<longleftrightarrow> take (length p) s = p"

lemma starts_with_length: "starts_with p s \<Longrightarrow> length p \<le> length s"
  unfolding starts_with_def by (drule arg_cong [where f = length]) simp

function strip_front :: "string list \<Rightarrow> string \<Rightarrow> string" where
  "strip_front encs s =
     (case find (\<lambda>e. e \<noteq> [] \<and> starts_with e s) encs of
        None \<Rightarrow> s
      | Some e \<Rightarrow> strip_front encs (drop (length e) s))"
  by pat_completeness auto
termination
proof (relation "measure (\<lambda>(encs, s). length s)", goal_cases)
  case 1
  show ?case by simp
next
  case (2 encs s e)
  then have "e \<noteq> []" and "starts_with e s"
    by (auto simp: find_Some_iff)
  then have "0 < length e" and "length e \<le> length s"
    using starts_with_length by auto
  then show ?case by (cases e) auto
qed

declare strip_front.simps [simp del]

definition TrimSpace :: "string \<Rightarrow> string" where
  "TrimSpace s = rev (strip_front (map rev space_encodings) (rev (strip_front space_encodings s)))"

definition TrimRightByte :: "char \<Rightarrow> string \<Rightarrow> string" where
  "TrimRightByte c s = rev (dropWhile (\<lambda>x. x = c) (rev s))"

definition TrimByte :: "char \<Rightarrow> string \<Rightarrow> string" where
  "TrimByte c s = TrimRightByte c (dropWhile (\<lambda>x. x = c) s)"

lemma strip_front_noop:
  "(\<And>e. e \<in> set encs \<Longrightarrow> e = [] \<or> \<not> starts_with e s) \<Longrightarrow> strip_front encs s = s"
  by (subst strip_front.simps) (auto simp: find_None_iff split: option.splits dest!: find_Some_iff [THEN iffD1] intro: nth_mem)

lemma strip_front_suffix: "\<exists>p. s = p @ strip_front encs s"
proof (induction encs s rule: strip_front.induct)
  case (1 encs s)
  show ?case
  proof (cases "find (\<lambda>e. e \<noteq> [] \<and> starts_with e s) encs")
    case None
    then show ?thesis by (subst strip_front.simps) simp
  next
    case (Some e)
    then have "starts_with e s" by (auto simp: find_Some_iff)
    then have "s = e @ drop (length e) s"
      by (metis append_take_drop_id starts_with_def)
    moreover obtain p where "drop (length e) s = p @ strip_front encs (drop (length e) s)"
      using "1.IH" [OF Some] by blast
    ultimately have "s = (e @ p) @ strip_front encs s"
      using Some by (subst strip_front.simps) (metis append.assoc option.case(2))
    then show ?thesis by blast
  qed
qed

lemma set_strip_front: "set (strip_front encs s) \<subseteq> set s"
  using strip_front_suffix [of s encs] by (metis Un_iff set_append subsetI)

lemma set_TrimSpace: "set (TrimSpace s) \<subseteq> set s"
  using set_strip_front [of space_encodings s]
    set_strip_front [of "map rev space_encodings" "rev (strip_front space_encodings s)"]
  by (auto simp: TrimSpace_def)

text \<open>No encoding of a space starts or ends with a graphic ASCII byte.\<close>

definition graphic :: "char \<Rightarrow> bool" where
  "graphic c \<longleftrightarrow> 33 \<le> (of_char c :: nat) \<and> (of_char c :: nat) \<le> 126"

lemma space_encodings_front: "e \<in> set space_encodings \<Longrightarrow> e \<noteq> [] \<and> \<not> graphic (hd e) \<and> \<not> graphic (last e)"
proof -
  have "list_all (\<lambda>e. e \<noteq> [] \<and> \<not> graphic (hd e) \<and> \<not> graphic (last e)) space_encodings"
    by code_simp
  then show "e \<in> set space_encodings \<Longrightarrow> e \<noteq> [] \<and> \<not> graphic (hd e) \<and> \<not> graphic (last e)"
    by (auto simp: list_all_iff)
qed

lemma starts_with_hd: "e \<noteq> [] \<Longrightarrow> starts_with e s \<Longrightarrow> s \<noteq> [] \<and> hd s = hd e"
  unfolding starts_with_def by (cases e; cases s) auto

lemma TrimSpace_graphic:
  assumes "list_all graphic s"
  shows "TrimSpace s = s"
proof -
  have hd_graphic: "s \<noteq> [] \<Longrightarrow> graphic (hd s)" and last_graphic: "s \<noteq> [] \<Longrightarrow> graphic (hd (rev s))"
    using assms by (auto simp: list_all_iff hd_rev)
  have "\<not> starts_with e s" if "e \<in> set space_encodings" for e
    using that hd_graphic space_encodings_front starts_with_hd by metis
  then have front: "strip_front space_encodings s = s"
    by (intro strip_front_noop) blast
  have "\<not> starts_with e (rev s)" if e_in: "e \<in> set (map rev space_encodings)" for e
  proof -
    obtain e' where "e' \<in> set space_encodings" and "e = rev e'"
      using e_in unfolding set_map by blast
    then have "e \<noteq> []" and "\<not> graphic (hd e)"
      using space_encodings_front by (auto simp: hd_rev)
    then show ?thesis using last_graphic starts_with_hd [of e "rev s"] by auto
  qed
  then have "strip_front (map rev space_encodings) (rev s) = rev s"
    by (intro strip_front_noop) blast
  with front show ?thesis by (simp add: TrimSpace_def)
qed

lemma TrimRightByte_snoc [simp]: "TrimRightByte c (s @ [c]) = TrimRightByte c s"
  by (simp add: TrimRightByte_def)

lemma TrimRightByte_last: "TrimRightByte c s \<noteq> [] \<Longrightarrow> last (TrimRightByte c s) \<noteq> c"
  unfolding TrimRightByte_def by (metis (mono_tags) hd_dropWhile last_rev rev_is_Nil_conv)

section \<open>UTF-8\<close>

text \<open>\<open>utf8.ValidString\<close>: shortest forms only, no surrogates, nothing beyond U+10FFFF.\<close>

definition byte_in :: "nat \<Rightarrow> nat \<Rightarrow> char \<Rightarrow> bool" where
  "byte_in lo hi c \<longleftrightarrow> lo \<le> (of_char c :: nat) \<and> (of_char c :: nat) \<le> hi"

fun utf8_valid :: "string \<Rightarrow> bool" where
  "utf8_valid [] = True"
| "utf8_valid (a # s) =
     (if byte_in 0 127 a then utf8_valid s
      else (case s of [] \<Rightarrow> False | b # s1 \<Rightarrow>
        if byte_in 194 223 a then byte_in 128 191 b \<and> utf8_valid s1
        else (case s1 of [] \<Rightarrow> False | c # s2 \<Rightarrow>
          if byte_in 224 239 a
          then byte_in (if byte_in 224 224 a then 160 else 128) (if byte_in 237 237 a then 159 else 191) b \<and>
            byte_in 128 191 c \<and> utf8_valid s2
          else (case s2 of [] \<Rightarrow> False | d # s3 \<Rightarrow>
            byte_in 240 244 a \<and>
            byte_in (if byte_in 240 240 a then 144 else 128) (if byte_in 244 244 a then 143 else 191) b \<and>
            byte_in 128 191 c \<and> byte_in 128 191 d \<and> utf8_valid s3))))"

lemma utf8_valid_ascii: "(\<And>c. c \<in> set s \<Longrightarrow> (of_char c :: nat) < 128) \<Longrightarrow> utf8_valid s"
proof (induction s)
  case (Cons c s)
  from Cons.prems [of c] have "byte_in 0 127 c" by (simp add: byte_in_def)
  with Cons show ?case by simp
qed simp

section \<open>Decimal numbers\<close>

text \<open>\<open>strconv.Itoa\<close> and the verb \<open>%d\<close>.\<close>

fun decimal :: "nat \<Rightarrow> string" where
  "decimal n =
     (if n < 10 then [char_of (48 + n)] else decimal (n div 10) @ [char_of (48 + n mod 10)])"

declare decimal.simps [simp del]

definition FormatInt :: "int \<Rightarrow> string" where
  "FormatInt i = (if i < 0 then CHR ''-'' # decimal (nat (- i)) else decimal (nat i))"

lemma decimal_nonempty [simp]: "decimal n \<noteq> []"
  by (subst decimal.simps) simp

lemma decimal_digits: "c \<in> set (decimal n) \<Longrightarrow> 48 \<le> (of_char c :: nat) \<and> (of_char c :: nat) \<le> 57"
proof (induction n rule: decimal.induct)
  case (1 n)
  show ?case
  proof (cases "n < 10")
    case True
    with "1.prems" have "c = char_of (48 + n)" by (simp add: decimal.simps)
    with True show ?thesis by (simp add: of_char_of)
  next
    case False
    with "1.prems" have "c \<in> set (decimal (n div 10)) \<or> c = char_of (48 + n mod 10)"
      by (subst (asm) decimal.simps) auto
    with "1.IH" False show ?thesis by (auto simp: of_char_of)
  qed
qed

section \<open>Buffered channels\<close>

text \<open>
  A Go channel with a buffer. \<open>chan_send\<close> is the send case of a \<open>select\<close>: it is ready when the
  buffer has room (\<open>None\<close>: not ready); \<open>chan_recv\<close> is the receive case.
\<close>

record 'a chan =
  buffered :: "'a list"
  capacity :: nat

definition chan_make :: "nat \<Rightarrow> 'a chan" where
  "chan_make n = \<lparr>buffered = [], capacity = n\<rparr>"

definition chan_send :: "'a \<Rightarrow> 'a chan \<Rightarrow> 'a chan option" where
  "chan_send x c =
     (if length (buffered c) < capacity c then Some (c\<lparr>buffered := buffered c @ [x]\<rparr>) else None)"

definition chan_recv :: "'a chan \<Rightarrow> ('a \<times> 'a chan) option" where
  "chan_recv c =
     (case buffered c of [] \<Rightarrow> None | x # xs \<Rightarrow> Some (x, c\<lparr>buffered := xs\<rparr>))"

definition chan_wf :: "'a chan \<Rightarrow> bool" where
  "chan_wf c \<longleftrightarrow> length (buffered c) \<le> capacity c"

text \<open>
  The contract of a bounded first-in first-out queue, as the writers, the recorder and the lazy
  cleaner rely on it: what is sent is received in the order of sending, nothing is lost or
  duplicated, and a send is refused exactly when the queue is full.
\<close>

locale bounded_queue =
  fixes send :: "'a \<Rightarrow> 'q \<Rightarrow> 'q option"
    and recv :: "'q \<Rightarrow> ('a \<times> 'q) option"
    and contents :: "'q \<Rightarrow> 'a list"
    and room :: "'q \<Rightarrow> nat"
    and ok :: "'q \<Rightarrow> bool"
  assumes send_contents: "ok q \<Longrightarrow> send x q = Some q' \<Longrightarrow> contents q' = contents q @ [x]"
    and send_ok: "ok q \<Longrightarrow> send x q = Some q' \<Longrightarrow> ok q'"
    and send_room: "ok q \<Longrightarrow> send x q = Some q' \<Longrightarrow> room q = Suc (room q')"
    and send_full: "ok q \<Longrightarrow> send x q = None \<longleftrightarrow> room q = 0"
    and recv_contents: "ok q \<Longrightarrow> recv q = Some (x, q') \<Longrightarrow> contents q = x # contents q'"
    and recv_ok: "ok q \<Longrightarrow> recv q = Some (x, q') \<Longrightarrow> ok q'"
    and recv_empty: "ok q \<Longrightarrow> recv q = None \<longleftrightarrow> contents q = []"
begin

text \<open>Sending a whole list, stopping at the first refusal; the queue and what was refused.\<close>

primrec send_all :: "'a list \<Rightarrow> 'q \<Rightarrow> 'q \<times> 'a list" where
  "send_all [] q = (q, [])"
| "send_all (x # xs) q =
     (case send x q of None \<Rightarrow> (q, x # xs) | Some q' \<Rightarrow> send_all xs q')"

lemma send_all_contents:
  "ok q \<Longrightarrow> send_all xs q = (q', rest) \<Longrightarrow> contents q' @ rest = contents q @ xs"
proof (induction xs arbitrary: q)
  case Nil
  then show ?case by simp
next
  case (Cons x xs)
  show ?case
  proof (cases "send x q")
    case None
    with Cons.prems show ?thesis by auto
  next
    case (Some q1)
    with Cons.prems have "contents q' @ rest = contents q1 @ xs"
      using Cons.IH send_ok by fastforce
    with Some Cons.prems(1) show ?thesis using send_contents by fastforce
  qed
qed

lemma send_all_enough_room:
  "ok q \<Longrightarrow> length xs \<le> room q \<Longrightarrow> snd (send_all xs q) = []"
proof (induction xs arbitrary: q)
  case Nil
  then show ?case by simp
next
  case (Cons x xs)
  then obtain q' where q': "send x q = Some q'"
    using send_full [of q x] by (cases "send x q") auto
  with Cons have "ok q'" "length xs \<le> room q'"
    using send_ok send_room by fastforce+
  with q' Cons.IH show ?case by simp
qed

lemma recv_first_sent:
  assumes "ok q" and "contents q = []" and "send x q = Some q'"
  shows "\<exists>q''. recv q' = Some (x, q'') \<and> contents q'' = []"
proof -
  have ok': "ok q'" and "contents q' = [x]"
    using assms send_ok send_contents by auto
  then obtain y q'' where "recv q' = Some (y, q'')"
    using recv_empty [OF ok'] by (cases "recv q'") auto
  with ok' \<open>contents q' = [x]\<close> recv_contents show ?thesis by fastforce
qed

end

interpretation channel: bounded_queue chan_send chan_recv buffered
    "\<lambda>c. capacity c - length (buffered c)" chan_wf
  by unfold_locales
    (auto simp: chan_send_def chan_recv_def chan_wf_def split: if_splits list.splits)

lemma chan_wf_make [simp, wf_intros]: "chan_wf (chan_make n)"
  by (simp add: chan_wf_def chan_make_def)

lemma chan_send_capacity: "chan_send x c = Some c' \<Longrightarrow> capacity c' = capacity c"
  by (auto simp: chan_send_def split: if_splits)

lemma chan_recv_capacity: "chan_recv c = Some (x, c') \<Longrightarrow> capacity c' = capacity c"
  by (auto simp: chan_recv_def split: list.splits)

lemma buffered_make [simp]: "buffered (chan_make n) = []" and capacity_make [simp]: "capacity (chan_make n) = n"
  by (simp_all add: chan_make_def)

end
