(* ===== verification/Domain.thy ===== *)
theory Domain
  imports Go_Runtime
begin

text \<open>
  The domain types of \<open>internal/domain/link\<close>: the error values of \<open>errors.go\<close> and the
  structs of \<open>model.go\<close> with their two predicates. An optional pointer to a time is a
  \<open>time option\<close>, and the status stays the unsigned byte it is in the code, so that a value other
  than the two constants is representable.
\<close>

section \<open>Errors (errors.go)\<close>

text \<open>
  The sentinel errors of the domain, the sentinels of the libraries that the code compares with
  (\<open>gorm.ErrRecordNotFound\<close>, \<open>redis.Nil\<close>, the two errors of a context), an error made by
  \<open>fmt.Errorf\<close> with \<open>%w\<close> (the text before it and the wrapped error), and any other error, of which only the message is seen.
\<close>

datatype go_error =
    ErrInvalidCode | ErrInvalidURL | ErrExpired | ErrNotFound | ErrQueueFull
  | ErrRecordNotFound | RedisNil | ContextCanceled | DeadlineExceeded
  | Wrapped string go_error
  | Errorf string

text \<open>\<open>errors.Is\<close>: the error itself or one it wraps is the target.\<close>

fun errors_Is :: "go_error \<Rightarrow> go_error \<Rightarrow> bool" where
  "errors_Is (Wrapped m e) target = (Wrapped m e = target \<or> errors_Is e target)"
| "errors_Is e target = (e = target)"

text \<open>\<open>Error()\<close> of the sentinels of \<open>errors.go\<close> and of those of the libraries.\<close>

fun error_text :: "go_error \<Rightarrow> string" where
  "error_text ErrInvalidCode = ''invalid short code''"
| "error_text ErrInvalidURL = ''invalid long url''"
| "error_text ErrExpired = ''short link expired''"
| "error_text ErrNotFound = ''short link not found''"
| "error_text ErrQueueFull = ''visit log queue is full''"
| "error_text ErrRecordNotFound = ''record not found''"
| "error_text RedisNil = ''redis: nil''"
| "error_text ContextCanceled = ''context canceled''"
| "error_text DeadlineExceeded = ''context deadline exceeded''"
| "error_text (Wrapped m e) = m @ error_text e"
| "error_text (Errorf m) = m"

lemma errors_Is_refl [simp]: "errors_Is e e"
  by (cases e) auto

section \<open>Structs (model.go)\<close>

definition ShortLinkStatusActive :: uint8 where "ShortLinkStatusActive = 1"
definition ShortLinkStatusBanned :: uint8 where "ShortLinkStatusBanned = 2"

record ShortLink =
  sl_ID :: uint64
  sl_Code :: string
  sl_LongURL :: string
  sl_Domain :: string
  sl_ExpireAt :: "time option"
  sl_Status :: uint8
  sl_CreatedAt :: time
  sl_UpdatedAt :: time

text \<open>The zero value \<open>link.ShortLink{}\<close>, which the code returns beside an error.\<close>

definition zero_ShortLink :: ShortLink where
  "zero_ShortLink = \<lparr>sl_ID = 0, sl_Code = [], sl_LongURL = [], sl_Domain = [], sl_ExpireAt = None,
     sl_Status = 0, sl_CreatedAt = zero_time, sl_UpdatedAt = zero_time\<rparr>"

definition IsExpired :: "ShortLink \<Rightarrow> time \<Rightarrow> bool" where
  "IsExpired l now = (case sl_ExpireAt l of None \<Rightarrow> False | Some t \<Rightarrow> \<not> time_after t now)"

definition IsActive :: "ShortLink \<Rightarrow> time \<Rightarrow> bool" where
  "IsActive l now \<longleftrightarrow> sl_Status l = ShortLinkStatusActive \<and> \<not> IsExpired l now"

record VisitLog =
  vl_ID :: uint64
  vl_Code :: string
  vl_VisitedAt :: time
  vl_IP :: string
  vl_UserAgent :: string
  vl_Referer :: string

record RefererStat =
  rs_Referer :: string
  rs_PV :: uint64

record LinkStats =
  ls_Code :: string
  ls_PV :: uint64
  ls_UV :: uint64
  ls_TodayPV :: uint64
  ls_Referers :: "RefererStat list"
  ls_UpdatedAt :: time

text \<open>The strings of a link are valid UTF-8, so that \<open>encoding/json\<close> and a \<open>utf8mb4\<close> column keep them.\<close>

definition utf8_link :: "ShortLink \<Rightarrow> bool" where
  "utf8_link l \<longleftrightarrow> utf8_valid (sl_Code l) \<and> utf8_valid (sl_LongURL l) \<and> utf8_valid (sl_Domain l)"

lemma IsExpired_iff: "IsExpired l now \<longleftrightarrow> (\<exists>t. sl_ExpireAt l = Some t \<and> t \<le> now)"
  by (auto simp: IsExpired_def time_defs split: option.splits)

lemma IsExpired_mono: "IsExpired l now \<Longrightarrow> now \<le> now' \<Longrightarrow> IsExpired l now'"
  by (auto simp: IsExpired_iff)

lemma IsActive_antimono: "IsActive l now' \<Longrightarrow> now \<le> now' \<Longrightarrow> IsActive l now"
  using IsExpired_mono by (auto simp: IsActive_def)

lemma zero_ShortLink_inactive [simp]: "\<not> IsActive zero_ShortLink now"
  by (simp add: IsActive_def zero_ShortLink_def ShortLinkStatusActive_def)

end
