(* ===== verification/Base62.thy ===== *)
theory Base62
  imports Domain
begin

text \<open>
  \<open>internal/domain/link/base62.go\<close> and \<open>code.go\<close>: the short code of a link is its 64-bit id
  in base 62. \<open>EncodeBase62\<close> builds the digits from the least significant one;
  \<open>EncodeBase62_buf\<close> is the same loop over the code's 11-byte array, where a write below index 0
  would panic. \<open>DecodeBase62\<close> runs over the bytes: a rune outside ASCII is no character of the
  alphabet, and its first byte is none either, so both report the same error.
\<close>

section \<open>Encoding and decoding (base62.go)\<close>

definition base62Alphabet :: string where
  "base62Alphabet = ''0123456789ABCDEFGHIJKLMNOPQRSTUVWXYZabcdefghijklmnopqrstuvwxyz''"

text \<open>\<open>acc\<close> is \<open>buf[i:]\<close>: what the loop has written so far.\<close>

function encode_loop :: "uint64 \<Rightarrow> string \<Rightarrow> string" where
  "encode_loop n acc =
     (if 0 < n then encode_loop (n div 62) (base62Alphabet ! unat (n mod 62) # acc) else acc)"
  by pat_completeness auto
termination
  by (relation "measure (\<lambda>(n, acc). unat n)") (auto simp: unat_div word_less_nat_alt)

declare encode_loop.simps [simp del]

definition EncodeBase62 :: "uint64 \<Rightarrow> string" where
  "EncodeBase62 n = (if n = 0 then ''0'' else encode_loop n [])"

text \<open>The loop over the array itself; \<open>None\<close> is the panic of an index out of range.\<close>

function encode_buf_loop :: "uint64 \<Rightarrow> string \<Rightarrow> nat \<Rightarrow> (string \<times> nat) option" where
  "encode_buf_loop n buf i =
     (if 0 < n
      then (if i = 0 then None
            else encode_buf_loop (n div 62) (buf[i - 1 := base62Alphabet ! unat (n mod 62)]) (i - 1))
      else Some (buf, i))"
  by pat_completeness auto
termination
  by (relation "measure (\<lambda>(n, buf, i). unat n)") (auto simp: unat_div word_less_nat_alt)

declare encode_buf_loop.simps [simp del]

definition EncodeBase62_buf :: "uint64 \<Rightarrow> string option" where
  "EncodeBase62_buf n =
     (if n = 0 then Some ''0''
      else (case encode_buf_loop n (replicate 11 (CHR 0x00)) 11 of
              None \<Rightarrow> None
            | Some (buf, i) \<Rightarrow> Some (drop i buf)))"

text \<open>\<open>strings.IndexRune\<close>: the index of the first occurrence.\<close>

fun IndexRune :: "string \<Rightarrow> char \<Rightarrow> nat option" where
  "IndexRune [] c = None"
| "IndexRune (x # xs) c = (if x = c then Some 0 else map_option Suc (IndexRune xs c))"

fun decode_loop :: "string \<Rightarrow> uint64 \<Rightarrow> unit + uint64" where
  "decode_loop [] n = Inr n"
| "decode_loop (r # rs) n =
     (case IndexRune base62Alphabet r of
        None \<Rightarrow> Inl ()
      | Some idx \<Rightarrow> decode_loop rs (n * 62 + of_nat idx))"

text \<open>The error of \<open>DecodeBase62\<close> is the package's own \<open>errInvalidBase62\<close>.\<close>

definition DecodeBase62 :: "string \<Rightarrow> unit + uint64" where
  "DecodeBase62 s = (if s = [] then Inl () else decode_loop s 0)"

section \<open>Short codes (code.go)\<close>

definition NewShortCode :: "uint64 \<Rightarrow> string" where
  "NewShortCode n = EncodeBase62 n"

definition IDFromShortCode :: "string \<Rightarrow> go_error + uint64" where
  "IDFromShortCode code =
     (case DecodeBase62 (TrimSpace code) of Inl _ \<Rightarrow> Inl ErrInvalidCode | Inr n \<Rightarrow> Inr n)"

definition ValidateShortCode :: "string \<Rightarrow> go_error option" where
  "ValidateShortCode code = (case IDFromShortCode code of Inl e \<Rightarrow> Some e | Inr _ \<Rightarrow> None)"

section \<open>Digits and values\<close>

definition is_digit62 :: "char \<Rightarrow> bool" where
  "is_digit62 c \<longleftrightarrow> IndexRune base62Alphabet c \<noteq> None"

definition digit62 :: "char \<Rightarrow> nat" where
  "digit62 c = (case IndexRune base62Alphabet c of None \<Rightarrow> 0 | Some i \<Rightarrow> i)"

text \<open>The number a digit string denotes, without any bound.\<close>

definition value62 :: "string \<Rightarrow> nat" where
  "value62 s = foldl (\<lambda>a c. a * 62 + digit62 c) 0 s"

text \<open>The characters of the alphabet are the digits, the capitals and the small letters, ascending.\<close>

lemma alphabet_codes:
  "map of_char base62Alphabet = [48..<58] @ [65..<91] @ [97..<(123::nat)]"
  by (simp add: base62Alphabet_def upt_rec)

lemma distinct_alphabet: "distinct base62Alphabet"
proof -
  have "distinct (map (of_char :: char \<Rightarrow> nat) base62Alphabet)"
    unfolding alphabet_codes by auto
  then show ?thesis by (simp add: distinct_map)
qed

lemma length_alphabet: "length base62Alphabet = 62"
  using arg_cong [OF alphabet_codes, of length] by simp

lemma IndexRune_nth: "distinct s \<Longrightarrow> i < length s \<Longrightarrow> IndexRune s (s ! i) = Some i"
  by (induction s arbitrary: i) (auto simp: nth_Cons' split: if_splits)

lemma alphabet_index: "i < 62 \<Longrightarrow> IndexRune base62Alphabet (base62Alphabet ! i) = Some i"
  by (simp add: IndexRune_nth distinct_alphabet length_alphabet)

lemma IndexRune_Some: "IndexRune s c = Some i \<Longrightarrow> i < length s \<and> s ! i = c"
  by (induction s arbitrary: i) (auto split: if_splits)

lemma digit62_nth [simp]: "i < 62 \<Longrightarrow> digit62 (base62Alphabet ! i) = i"
  and is_digit62_nth [simp]: "i < 62 \<Longrightarrow> is_digit62 (base62Alphabet ! i)"
  by (simp_all add: digit62_def is_digit62_def alphabet_index)

lemma digit62_less: "is_digit62 c \<Longrightarrow> digit62 c < 62"
  using IndexRune_Some [of base62Alphabet c]
  by (auto simp: is_digit62_def digit62_def length_alphabet)

lemma nth_digit62: "is_digit62 c \<Longrightarrow> base62Alphabet ! digit62 c = c"
  using IndexRune_Some [of base62Alphabet c] by (auto simp: is_digit62_def digit62_def)

lemma digit62_inj: "is_digit62 c \<Longrightarrow> is_digit62 d \<Longrightarrow> digit62 c = digit62 d \<Longrightarrow> c = d"
  using nth_digit62 by metis

lemma is_digit62_graphic: "is_digit62 c \<Longrightarrow> graphic c"
proof -
  assume c: "is_digit62 c"
  then have "c \<in> set base62Alphabet"
    using digit62_less [OF c] nth_digit62 [OF c] by (metis length_alphabet nth_mem)
  then have "of_char c \<in> set (map (of_char :: char \<Rightarrow> nat) base62Alphabet)"
    unfolding set_map by (rule imageI)
  then show "graphic c" unfolding alphabet_codes graphic_def by auto
qed

lemma value62_Nil [simp]: "value62 [] = 0"
  by (simp add: value62_def)

lemma value62_snoc [simp]: "value62 (s @ [c]) = value62 s * 62 + digit62 c"
  by (simp add: value62_def)

lemma value62_append: "value62 (s @ t) = value62 s * 62 ^ length t + value62 t"
  by (induction t rule: rev_induct) (auto simp: algebra_simps simp flip: append_assoc)

lemma value62_Cons: "value62 (c # s) = digit62 c * 62 ^ length s + value62 s"
  using value62_append [of "[c]" s] by (simp add: value62_def)

lemma value62_less: "list_all is_digit62 s \<Longrightarrow> value62 s < 62 ^ length s"
proof (induction s rule: rev_induct)
  case Nil
  then show ?case by simp
next
  case (snoc c s)
  then have "value62 s < 62 ^ length s" and "digit62 c < 62"
    using digit62_less by auto
  then have "value62 s * 62 + digit62 c < 62 ^ length s * 62" by linarith
  then show ?case by simp
qed

text \<open>Strings of the same length denote different numbers.\<close>

lemma value62_inj:
  "length s = length t \<Longrightarrow> list_all is_digit62 s \<Longrightarrow> list_all is_digit62 t \<Longrightarrow>
   value62 s = value62 t \<Longrightarrow> s = t"
proof (induction s arbitrary: t rule: rev_induct)
  case Nil
  then show ?case by simp
next
  case (snoc c s)
  from snoc.prems(1) obtain t' d where t: "t = t' @ [d]"
    by (metis append_Nil2 append_eq_append_conv length_0_conv neq_Nil_conv rev_exhaust)
  with snoc.prems have dig: "is_digit62 c" "is_digit62 d" by auto
  from snoc.prems t have eq: "value62 s * 62 + digit62 c = value62 t' * 62 + digit62 d" by simp
  have "digit62 c = digit62 d" and "value62 s = value62 t'"
    using arg_cong [OF eq, of "\<lambda>x. x mod 62"] arg_cong [OF eq, of "\<lambda>x. x div 62"]
      digit62_less [OF dig(1)] digit62_less [OF dig(2)] by auto
  with snoc.IH [of t'] snoc.prems t dig digit62_inj show ?case by auto
qed

section \<open>The encoder\<close>

lemma unat_div62: "unat (n div 62 :: uint64) = unat n div 62"
  and unat_mod62: "unat (n mod 62 :: uint64) = unat n mod 62"
  by (simp_all add: unat_div unat_mod)

lemma encode_loop_append: "encode_loop n acc = encode_loop n [] @ acc"
proof (induction "unat n" arbitrary: n acc rule: less_induct)
  case less
  show ?case
  proof (cases "0 < n")
    case True
    let ?d = "base62Alphabet ! unat (n mod 62)"
    have unfold: "encode_loop n xs = encode_loop (n div 62) (?d # xs)" for xs
      using True by (subst encode_loop.simps) simp
    have "unat (n div 62) < unat n"
      using True by (simp add: unat_div62 word_less_nat_alt)
    then have IH: "encode_loop (n div 62) xs = encode_loop (n div 62) [] @ xs" for xs
      using less by blast
    show ?thesis
      by (simp add: unfold IH [of "[?d]"] IH [of "?d # acc"])
  next
    case False
    then show ?thesis by (subst (1 2) encode_loop.simps) simp
  qed
qed

lemma encode_loop_step:
  "0 < n \<Longrightarrow> encode_loop n [] = encode_loop (n div 62) [] @ [base62Alphabet ! (unat n mod 62)]"
  by (subst encode_loop.simps) (simp add: encode_loop_append [of _ "[_]"] unat_mod62)

lemma encode_loop_0 [simp]: "encode_loop 0 acc = acc"
  by (subst encode_loop.simps) simp

text \<open>Induction over the quotients, the shape of every proof about the encoder.\<close>

lemma quotient_induct [case_names zero step]:
  fixes n :: uint64
  assumes "P 0" and "\<And>n. 0 < n \<Longrightarrow> P (n div 62) \<Longrightarrow> P n"
  shows "P n"
proof (induction "unat n" arbitrary: n rule: less_induct)
  case less
  show ?case
  proof (cases "n = 0")
    case True
    with assms(1) show ?thesis by simp
  next
    case False
    then have "0 < n" by (simp add: word_neq_0_conv)
    moreover from this have "unat (n div 62) < unat n"
      by (simp add: unat_div62 word_less_nat_alt)
    ultimately show ?thesis using less assms(2) by blast
  qed
qed

lemma encode_loop_digits: "list_all is_digit62 (encode_loop n [])"
  by (induction n rule: quotient_induct) (simp_all add: encode_loop_step)

lemma encode_loop_value: "value62 (encode_loop n []) = unat n"
  by (induction n rule: quotient_induct) (simp_all add: encode_loop_step unat_div62)

lemma encode_loop_length: "unat n < 62 ^ k \<Longrightarrow> length (encode_loop n []) \<le> k"
proof (induction n arbitrary: k rule: quotient_induct)
  case zero
  then show ?case by simp
next
  case (step n)
  then obtain k' where k: "k = Suc k'" by (cases k) (auto simp: word_less_nat_alt)
  with step.prems have "unat (n div 62) < 62 ^ k'"
    by (simp add: unat_div62 less_mult_imp_div_less mult.commute)
  with step.IH step.hyps k show ?case by (simp add: encode_loop_step)
qed

lemma encode_loop_nonempty: "0 < n \<Longrightarrow> encode_loop n [] \<noteq> []"
  by (simp add: encode_loop_step)

lemma encode_loop_hd: "0 < n \<Longrightarrow> hd (encode_loop n []) \<noteq> CHR ''0''"
proof (induction n rule: quotient_induct)
  case zero
  then show ?case by simp
next
  case (step n)
  show ?case
  proof (cases "0 < n div 62")
    case True
    with step encode_loop_nonempty show ?thesis
      by (simp add: encode_loop_step [OF step.hyps])
  next
    case False
    then have "n div 62 = 0" by (simp add: word_gt_0)
    moreover from this have "unat n div 62 = 0" using unat_div62 [of n] by simp
    with step.hyps have "0 < unat n mod 62" by (simp add: word_less_nat_alt)
    then have "base62Alphabet ! (unat n mod 62) \<noteq> base62Alphabet ! 0"
      using digit62_nth [of "unat n mod 62"] digit62_nth [of 0] by fastforce
    ultimately show ?thesis
      by (simp add: encode_loop_step [OF step.hyps] base62Alphabet_def)
  qed
qed

lemma EncodeBase62_digits: "list_all is_digit62 (EncodeBase62 n)"
proof (cases "n = 0")
  case True
  moreover have "is_digit62 (CHR ''0'')" by code_simp
  ultimately show ?thesis by (simp add: EncodeBase62_def)
qed (simp add: EncodeBase62_def encode_loop_digits)

lemma EncodeBase62_value: "value62 (EncodeBase62 n) = unat n"
proof (cases "n = 0")
  case True
  moreover have "value62 ''0'' = 0" by code_simp
  ultimately show ?thesis by (simp add: EncodeBase62_def)
qed (simp add: EncodeBase62_def encode_loop_value)

lemma EncodeBase62_nonempty: "EncodeBase62 n \<noteq> []"
  by (simp add: EncodeBase62_def encode_loop_nonempty word_neq_0_conv)

lemma EncodeBase62_length: "length (EncodeBase62 n) \<le> 11"
  using encode_loop_length [of n 11] unsigned_less [of n, where ?'a = nat]
  by (simp add: EncodeBase62_def)

lemma EncodeBase62_inj: "EncodeBase62 m = EncodeBase62 n \<longleftrightarrow> m = n"
  using EncodeBase62_value by (metis word_unat_eq_iff)

text \<open>The array version is the list version, and it never indexes below 0.\<close>

lemma encode_buf_loop_refines:
  "length buf = 11 \<Longrightarrow> i \<le> 11 \<Longrightarrow> length (encode_loop n []) \<le> i \<Longrightarrow>
   \<exists>buf' i'. encode_buf_loop n buf i = Some (buf', i') \<and>
             drop i' buf' = encode_loop n [] @ drop i buf"
proof (induction n arbitrary: buf i rule: quotient_induct)
  case zero
  then show ?case by (subst encode_buf_loop.simps) simp
next
  case (step n)
  let ?d = "base62Alphabet ! (unat n mod 62)"
  from step.prems step.hyps have "0 < i" and len: "length (encode_loop (n div 62) []) \<le> i - 1"
    by (auto simp: encode_loop_step)
  with step.prems have "drop (i - 1) (buf[i - 1 := ?d]) = ?d # drop i buf"
    by (metis Cons_nth_drop_Suc Suc_pred' diff_Suc_less drop_update_cancel dual_order.strict_trans1
        length_list_update lessI nth_list_update_eq)
  with step.IH [of "buf[i - 1 := ?d]" "i - 1"] step.prems len \<open>0 < i\<close> step.hyps show ?case
    by (subst encode_buf_loop.simps) (auto simp: encode_loop_step unat_mod62)
qed

lemma EncodeBase62_buf_eq: "EncodeBase62_buf n = Some (EncodeBase62 n)"
  using encode_buf_loop_refines [of "replicate 11 (CHR 0x00)" 11 n] EncodeBase62_length [of n]
  by (auto simp: EncodeBase62_buf_def EncodeBase62_def)

section \<open>The decoder\<close>

lemma decode_loop_digits:
  "list_all is_digit62 s \<Longrightarrow> decode_loop s n = Inr (n * 62 ^ length s + of_nat (value62 s))"
proof (induction s arbitrary: n)
  case Nil
  then show ?case by simp
next
  case (Cons c s)
  then obtain i where "IndexRune base62Alphabet c = Some i" by (auto simp: is_digit62_def)
  with Cons show ?case by (simp add: value62_Cons digit62_def algebra_simps)
qed

lemma decode_loop_invalid: "\<not> list_all is_digit62 s \<Longrightarrow> decode_loop s n = Inl ()"
  by (induction s arbitrary: n) (auto simp: is_digit62_def split: option.splits)

lemma DecodeBase62_eq:
  "DecodeBase62 s =
     (if s \<noteq> [] \<and> list_all is_digit62 s then Inr (of_nat (value62 s)) else Inl ())"
  by (auto simp: DecodeBase62_def decode_loop_digits decode_loop_invalid)

lemma TrimSpace_digits: "list_all is_digit62 s \<Longrightarrow> TrimSpace s = s"
  by (rule TrimSpace_graphic) (auto simp: list_all_iff is_digit62_graphic)

lemma IDFromShortCode_eq:
  "IDFromShortCode code =
     (if TrimSpace code \<noteq> [] \<and> list_all is_digit62 (TrimSpace code)
      then Inr (of_nat (value62 (TrimSpace code))) else Inl ErrInvalidCode)"
  by (simp add: IDFromShortCode_def DecodeBase62_eq)

lemma IDFromShortCode_NewShortCode [simp]: "IDFromShortCode (NewShortCode n) = Inr n"
  by (simp add: IDFromShortCode_eq NewShortCode_def EncodeBase62_digits EncodeBase62_nonempty
      EncodeBase62_value TrimSpace_digits)

lemma ValidateShortCode_None_iff: "ValidateShortCode code = None \<longleftrightarrow> (\<exists>n. IDFromShortCode code = Inr n)"
  by (auto simp: ValidateShortCode_def split: sum.splits)

lemma ValidateShortCode_error: "ValidateShortCode code = Some e \<Longrightarrow> e = ErrInvalidCode"
  by (auto simp: ValidateShortCode_def IDFromShortCode_eq split: if_splits)

lemma ValidateShortCode_NewShortCode [simp]: "ValidateShortCode (NewShortCode n) = None"
  by (simp add: ValidateShortCode_def)

section \<open>Canonical codes\<close>

text \<open>A digit string without a leading zero is the encoding of its value, when that fits in 64 bits.\<close>

lemma encode_loop_of_value:
  "list_all is_digit62 s \<Longrightarrow> value62 s < 2 ^ 64 \<Longrightarrow> (s \<noteq> [] \<Longrightarrow> hd s \<noteq> CHR ''0'') \<Longrightarrow>
   encode_loop (of_nat (value62 s)) [] = s"
proof (induction s rule: rev_induct)
  case Nil
  then show ?case by simp
next
  case (snoc c s)
  let ?n = "of_nat (value62 (s @ [c])) :: uint64"
  have c: "is_digit62 c" and s: "list_all is_digit62 s" using snoc.prems(1) by auto
  have n: "unat ?n = value62 s * 62 + digit62 c"
    using snoc.prems(2) by (subst unat_of_nat) simp
  then have div: "unat (?n div 62) = value62 s" and mod: "unat ?n mod 62 = digit62 c"
    using digit62_less [OF c] by (simp_all add: unat_div62)
  have "0 < value62 s * 62 + digit62 c"
  proof (cases "s = []")
    case True
    have zero: "is_digit62 (CHR ''0'')" "digit62 (CHR ''0'') = 0"
      by (simp_all add: is_digit62_def digit62_def base62Alphabet_def)
    from True snoc.prems(3) have "c \<noteq> CHR ''0''" by simp
    with zero digit62_inj [OF c, of "CHR ''0''"] show ?thesis by auto
  next
    case False
    with snoc.prems(3) have hd: "hd s \<noteq> CHR ''0''" by simp
    have "0 < value62 s"
    proof (rule ccontr)
      assume "\<not> 0 < value62 s"
      with snoc.IH [OF s] False hd show False by simp
    qed
    then show ?thesis by simp
  qed
  then have "0 < unat ?n" unfolding n .
  then have pos: "0 < ?n" by (simp only: word_less_nat_alt unat_0)
  have "?n div 62 = of_nat (value62 s)" using arg_cong [OF div, of "of_nat :: nat \<Rightarrow> uint64"] by simp
  moreover have "encode_loop (of_nat (value62 s)) [] = s"
    using snoc.prems snoc.IH [OF s] by (cases "s = []") (auto split: if_splits)
  ultimately show ?case
    unfolding encode_loop_step [OF pos] mod by (simp add: nth_digit62 [OF c])
qed

lemma EncodeBase62_of_value:
  assumes "list_all is_digit62 s" and "value62 s < 2 ^ 64" and "s \<noteq> []" and "s = ''0'' \<or> hd s \<noteq> CHR ''0''"
  shows "EncodeBase62 (of_nat (value62 s)) = s"
proof (cases "s = ''0''")
  case True
  moreover have "value62 ''0'' = 0" by (simp add: value62_def digit62_def base62Alphabet_def)
  then have "EncodeBase62 (of_nat (value62 ''0'')) = ''0''" by (simp add: EncodeBase62_def)
  ultimately show ?thesis by simp
next
  case False
  with assms have loop: "encode_loop (of_nat (value62 s)) [] = s"
    by (intro encode_loop_of_value) auto
  then have "(of_nat (value62 s) :: uint64) \<noteq> 0" using assms(3) by auto
  with loop show ?thesis by (simp add: EncodeBase62_def)
qed

section \<open>Properties\<close>

text \<open>
  A code made from an id reads back as that id, both by the code's decoder and
  after the trimming of \<open>IDFromShortCode\<close>.
\<close>

lemma short_code_roundtrip:
  "IDFromShortCode (NewShortCode n) = Inr n \<and> DecodeBase62 (EncodeBase62 n) = Inr n \<and>
   (NewShortCode m = NewShortCode n \<longleftrightarrow> m = n) \<and> ValidateShortCode (NewShortCode n) = None"
proof -
  have "DecodeBase62 (EncodeBase62 n) = Inr n"
    by (simp add: DecodeBase62_eq EncodeBase62_digits EncodeBase62_nonempty EncodeBase62_value)
  moreover have "NewShortCode m = NewShortCode n \<longleftrightarrow> m = n"
    by (simp add: NewShortCode_def EncodeBase62_inj)
  ultimately show ?thesis by simp
qed

text \<open>
  C11 (bounds, equivalence). The encoder's loop over its 11-byte array never writes outside the
  array, for any 64-bit id, and computes the base-62 digits of the id: one to eleven characters of
  the alphabet, with no leading zero unless the id is 0.
\<close>

theorem encode_in_bounds:
  "EncodeBase62_buf n = Some (EncodeBase62 n) \<and>
   1 \<le> length (EncodeBase62 n) \<and> length (EncodeBase62 n) \<le> 11 \<and>
   list_all is_digit62 (EncodeBase62 n) \<and> value62 (EncodeBase62 n) = unat n \<and>
   (hd (EncodeBase62 n) = CHR ''0'' \<longleftrightarrow> n = 0)"
proof -
  have "1 \<le> length (EncodeBase62 n)" using EncodeBase62_nonempty [of n] by (cases "EncodeBase62 n") auto
  moreover have "hd (EncodeBase62 n) = CHR ''0'' \<longleftrightarrow> n = 0"
    using encode_loop_hd [of n] by (simp add: EncodeBase62_def word_neq_0_conv)
  ultimately show ?thesis
    using EncodeBase62_buf_eq EncodeBase62_length EncodeBase62_digits EncodeBase62_value by blast
qed

text \<open>
  C12 (round trip). A code made from an id reads back as that id, so two ids never share a code, and
  passes the validation. Conversely, what the parser of codes accepts and returns: exactly the
  non-empty strings of alphabet characters after trimming, with their base-62 value modulo 2 ^ 64;
  everything else is \<open>ErrInvalidCode\<close>. A canonical code (no leading zero, a value below
  2 ^ 64) is the code of the id it parses to.
\<close>

theorem parse_code_spec:
  "IDFromShortCode (NewShortCode n) = Inr n \<and> DecodeBase62 (EncodeBase62 n) = Inr n \<and>
   (NewShortCode m = NewShortCode n \<longleftrightarrow> m = n) \<and> ValidateShortCode (NewShortCode n) = None \<and>
   IDFromShortCode code =
     (if TrimSpace code \<noteq> [] \<and> list_all is_digit62 (TrimSpace code)
      then Inr (of_nat (value62 (TrimSpace code))) else Inl ErrInvalidCode) \<and>
   (list_all is_digit62 s \<and> s \<noteq> [] \<and> value62 s < 2 ^ 64 \<and> (s = ''0'' \<or> hd s \<noteq> CHR ''0'') \<longrightarrow>
    (\<exists>i. IDFromShortCode s = Inr i \<and> NewShortCode i = s))"
proof -
  have "list_all is_digit62 s \<and> s \<noteq> [] \<and> value62 s < 2 ^ 64 \<and> (s = ''0'' \<or> hd s \<noteq> CHR ''0'') \<longrightarrow>
      (\<exists>i. IDFromShortCode s = Inr i \<and> NewShortCode i = s)"
    using EncodeBase62_of_value [of s] by (auto simp: IDFromShortCode_eq NewShortCode_def TrimSpace_digits)
  then show ?thesis by (simp only: short_code_roundtrip IDFromShortCode_eq [of code] simp_thms)
qed

theorem parse_code_spec_witness:
  "\<exists>n. IDFromShortCode ''1Z'' = Inr n \<and> NewShortCode n = ''1Z''"
proof -
  have "list_all is_digit62 ''1Z'' \<and> ''1Z'' \<noteq> [] \<and> value62 ''1Z'' < 2 ^ 64 \<and>
      (''1Z'' = ''0'' \<or> hd ''1Z'' \<noteq> CHR ''0'')"
    by (simp add: value62_def digit62_def is_digit62_def base62Alphabet_def)
  from parse_code_spec [where s = "''1Z''" and n = 0 and m = 0 and code = "[]",
      THEN conjunct2, THEN conjunct2, THEN conjunct2, THEN conjunct2, THEN conjunct2, THEN mp, OF this]
  show ?thesis .
qed

end
