(* ===== verification/Shard.thy ===== *)
theory Shard
  imports Base62
begin

text \<open>
  \<open>internal/domain/link/shard.go\<close>: a link lives in one of 16 tables, chosen by its id. The
  index is a Go \<open>int\<close>; \<open>ShardTableName\<close> checks it and formats it with two decimal digits.
\<close>

definition ShardCount :: nat where "ShardCount = 16"

definition ShardIndexFromID :: "uint64 \<Rightarrow> int" where
  "ShardIndexFromID n = int (unat (n mod 16))"

definition ShardIndexFromCode :: "string \<Rightarrow> go_error + int" where
  "ShardIndexFromCode code =
     (case IDFromShortCode code of Inl e \<Rightarrow> Inl e | Inr n \<Rightarrow> Inr (ShardIndexFromID n))"

text \<open>\<open>fmt.Sprintf("%02d", i)\<close> for an index that passed the range check.\<close>

definition decimal2 :: "int \<Rightarrow> string" where
  "decimal2 i = [char_of (48 + nat i div 10), char_of (48 + nat i mod 10)]"

definition ShardTableName :: "int \<Rightarrow> go_error + string" where
  "ShardTableName index =
     (if index < 0 \<or> index \<ge> int ShardCount then Inl (Errorf (''shard index '' @ FormatInt index @ '' out of range''))
      else Inr (''short_link_'' @ decimal2 index))"

definition ShardTableNameForCode :: "string \<Rightarrow> go_error + string" where
  "ShardTableNameForCode code =
     (case ShardIndexFromCode code of Inl e \<Rightarrow> Inl e | Inr idx \<Rightarrow> ShardTableName idx)"

text \<open>The sixteen tables of \<open>migrations/001_init_short_link.sql\<close>, in the order of their index.\<close>

definition shard_tables :: "string list" where
  "shard_tables = map (\<lambda>i. ''short_link_'' @ decimal2 (int i)) [0..<ShardCount]"

lemma ShardIndexFromID_range: "0 \<le> ShardIndexFromID n" "ShardIndexFromID n < 16"
  by (simp_all add: ShardIndexFromID_def unat_mod)

lemma ShardIndexFromID_eq: "ShardIndexFromID n = int (unat n mod 16)"
  by (simp add: ShardIndexFromID_def unat_mod)

lemma ShardTableName_in_range:
  "0 \<le> i \<Longrightarrow> i < 16 \<Longrightarrow> ShardTableName i = Inr (shard_tables ! nat i)"
  using nth_upt [of 0 "nat i" 16] by (simp add: ShardTableName_def shard_tables_def ShardCount_def)

lemma ShardTableName_error_iff:
  "(\<exists>e. ShardTableName i = Inl e) \<longleftrightarrow> i < 0 \<or> 16 \<le> i"
  by (auto simp: ShardTableName_def ShardCount_def)

lemma ShardTableName_ID: "ShardTableName (ShardIndexFromID n) = Inr (shard_tables ! (unat n mod 16))"
  using ShardTableName_in_range [OF ShardIndexFromID_range] by (simp add: ShardIndexFromID_eq)

lemma length_shard_tables [simp]: "length shard_tables = 16"
  by (simp add: shard_tables_def ShardCount_def)

lemma distinct_shard_tables: "distinct shard_tables"
  by code_simp

lemma ShardTableNameForCode_NewShortCode:
  "ShardTableNameForCode (NewShortCode n) = Inr (shard_tables ! (unat n mod 16))"
  by (simp add: ShardTableNameForCode_def ShardIndexFromCode_def ShardTableName_ID)

lemma ShardTableNameForCode_valid:
  "IDFromShortCode code = Inr n \<Longrightarrow> ShardTableNameForCode code = Inr (shard_tables ! (unat n mod 16))"
  by (simp add: ShardTableNameForCode_def ShardIndexFromCode_def ShardTableName_ID)

lemma ShardTableNameForCode_table:
  "ShardTableNameForCode code = Inr t \<Longrightarrow> t \<in> set shard_tables"
  by (auto simp: ShardTableNameForCode_def ShardIndexFromCode_def ShardTableName_ID split: sum.splits)

text \<open>\<open>Create\<close> validates a code and then routes it: the second step cannot fail after the first.\<close>

lemma ShardTableNameForCode_after_validation:
  "ValidateShortCode code = None \<Longrightarrow> \<exists>t. ShardTableNameForCode code = Inr t \<and> t \<in> set shard_tables"
  using ValidateShortCode_None_iff ShardTableNameForCode_valid ShardTableNameForCode_table by metis

lemma ShardTableNameForCode_error:
  "ValidateShortCode code = Some e \<Longrightarrow> ShardTableNameForCode code = Inl e"
  by (auto simp: ValidateShortCode_def ShardTableNameForCode_def ShardIndexFromCode_def split: sum.splits)

section \<open>Properties\<close>

text \<open>
  C13 (functional). Routing by id and routing by code agree: the table of an id's code is the table
  of the id, one of the sixteen; two ids share a table exactly when they agree modulo 16; a table
  name is refused exactly for an index outside 0 to 15.
\<close>

theorem shard_routing:
  "ShardTableNameForCode (NewShortCode n) = ShardTableName (ShardIndexFromID n) \<and>
   ShardTableName (ShardIndexFromID n) = Inr (shard_tables ! (unat n mod 16)) \<and>
   (ShardTableName (ShardIndexFromID m) = ShardTableName (ShardIndexFromID n) \<longleftrightarrow>
    unat m mod 16 = unat n mod 16) \<and>
   ((\<exists>e. ShardTableName i = Inl e) \<longleftrightarrow> i < 0 \<or> 16 \<le> i)"
  using distinct_shard_tables
  by (auto simp: ShardTableName_ID ShardTableNameForCode_NewShortCode ShardTableName_error_iff
      nth_eq_iff_index_eq)

end
