(* ===== verification/Ports.thy ===== *)
theory Ports
  imports Shard
begin

text \<open>
  The interfaces between the components, as locales: the Go interfaces of
  \<open>internal/app/linkapp/ports.go\<close> and the laws their users rely on. A component that provides an
  interface interprets its locale on its own operations; a component that uses it is verified
  against the laws.
  \<^item> \<open>id_generator\<close>: \<open>IDGenerator\<close>, provided by \<open>Snowflake\<close>;
  \<^item> \<open>link_cache\<close>: \<open>LinkCache\<close> with \<open>LinkCacheInvalidator\<close>, provided by the local LRU cache
    and by the Redis cache;
  \<^item> \<open>existence_filter\<close>: \<open>ExistenceFilter\<close>, provided by the in-memory set, the Redis set and the
    Bloom filter.
  An operation is a function on the provider's state; its result carries the error it returns.
\<close>

section \<open>Generators of ids\<close>

text \<open>Several ids in a row; \<open>None\<close> when one of the calls does not return.\<close>

fun take_ids :: "('s \<Rightarrow> ('i \<times> 's) option) \<Rightarrow> nat \<Rightarrow> 's \<Rightarrow> ('i list \<times> 's) option" where
  "take_ids gen 0 s = Some ([], s)"
| "take_ids gen (Suc n) s =
     (case gen s of
        None \<Rightarrow> None
      | Some (i, s') \<Rightarrow>
          (case take_ids gen n s' of None \<Rightarrow> None | Some (is, s'') \<Rightarrow> Some (i # is, s'')))"

locale id_generator =
  fixes next_id :: "'s \<Rightarrow> (uint64 \<times> 's) option"
    and gen_ok :: "'s \<Rightarrow> bool"
    and last_id :: "'s \<Rightarrow> uint64"
  assumes next_ok: "gen_ok s \<Longrightarrow> next_id s = Some (i, s') \<Longrightarrow> gen_ok s'"
    and next_last: "gen_ok s \<Longrightarrow> next_id s = Some (i, s') \<Longrightarrow> last_id s' = i"
    and next_increases: "gen_ok s \<Longrightarrow> next_id s = Some (i, s') \<Longrightarrow> last_id s < i"
begin

lemma ids_increase:
  "gen_ok s \<Longrightarrow> take_ids next_id n s = Some (is, s') \<Longrightarrow>
   sorted_wrt (<) (last_id s # is) \<and> gen_ok s' \<and> length is = n"
proof (induction n arbitrary: s "is")
  case 0
  then show ?case by simp
next
  case (Suc n)
  from Suc.prems obtain i s1 is1 where step: "next_id s = Some (i, s1)"
    and rest: "take_ids next_id n s1 = Some (is1, s')" and "is": "is = i # is1"
    by (auto split: option.splits)
  from Suc.prems(1) step have ok: "gen_ok s1" and last: "last_id s1 = i" and less: "last_id s < i"
    using next_ok next_last next_increases by auto
  from Suc.IH [OF ok rest] last less "is" show ?case by auto
qed

lemma ids_distinct: "gen_ok s \<Longrightarrow> take_ids next_id n s = Some (is, s') \<Longrightarrow> distinct is"
  using ids_increase by (fastforce simp: strict_sorted_iff)

end

section \<open>Caches of links\<close>

text \<open>
  \<open>holds s c\<close> is the link stored under the code \<open>c\<close>, whether or not its entry has expired. A
  \<open>Get\<close> invents nothing, a \<open>Set\<close> stores at most its link under the link's own code, and a
  \<open>Delete\<close> that reports no error has removed its codes. \<open>fits\<close> are the links the cache can give
  back unchanged (all, or those its encoding preserves).
\<close>

locale link_cache =
  fixes get :: "string \<Rightarrow> 's \<Rightarrow> (ShortLink \<times> bool \<times> go_error option) \<times> 's"
    and set_item :: "ShortLink \<Rightarrow> duration \<Rightarrow> 's \<Rightarrow> go_error option \<times> 's"
    and delete :: "string list \<Rightarrow> 's \<Rightarrow> go_error option \<times> 's"
    and ok :: "'s \<Rightarrow> bool"
    and holds :: "'s \<Rightarrow> string \<Rightarrow> ShortLink option"
    and fits :: "ShortLink \<Rightarrow> bool"
  assumes get_ok: "ok s \<Longrightarrow> get c s = (r, s') \<Longrightarrow> ok s'"
    and get_hit: "ok s \<Longrightarrow> get c s = ((it, True, None), s') \<Longrightarrow> holds s c = Some it"
    and get_frame: "ok s \<Longrightarrow> get c s = (r, s') \<Longrightarrow> holds s' \<subseteq>\<^sub>m holds s"
    and set_ok: "ok s \<Longrightarrow> fits it \<Longrightarrow> set_item it ttl s = (e, s') \<Longrightarrow> ok s'"
    and set_stores: "ok s \<Longrightarrow> fits it \<Longrightarrow> set_item it ttl s = (e, s') \<Longrightarrow> holds s' c = Some x \<Longrightarrow>
      holds s c = Some x \<or> c = sl_Code it \<and> x = it"
    and delete_ok: "ok s \<Longrightarrow> delete cs s = (e, s') \<Longrightarrow> ok s'"
    and delete_frame: "ok s \<Longrightarrow> delete cs s = (e, s') \<Longrightarrow> holds s' \<subseteq>\<^sub>m holds s"
    and delete_removes: "ok s \<Longrightarrow> delete cs s = (None, s') \<Longrightarrow> c \<in> set cs \<Longrightarrow> holds s' c = None"
    and keyed: "ok s \<Longrightarrow> holds s c = Some it \<Longrightarrow> sl_Code it = c"
begin

lemma get_code: "ok s \<Longrightarrow> get c s = ((it, True, None), s') \<Longrightarrow> sl_Code it = c"
  using get_hit keyed by blast

text \<open>Whatever holds of all stored links is kept by every operation that stores only such links.\<close>

definition all_stored :: "(ShortLink \<Rightarrow> bool) \<Rightarrow> 's \<Rightarrow> bool" where
  "all_stored P s \<longleftrightarrow> (\<forall>c it. holds s c = Some it \<longrightarrow> P it)"

lemma all_stored_mono: "all_stored P s \<Longrightarrow> holds s' \<subseteq>\<^sub>m holds s \<Longrightarrow> all_stored P s'"
  unfolding all_stored_def map_le_def by (metis domI)

lemma get_all_stored: "ok s \<Longrightarrow> all_stored P s \<Longrightarrow> get c s = (r, s') \<Longrightarrow> all_stored P s'"
  using all_stored_mono get_frame by blast

lemma delete_all_stored: "ok s \<Longrightarrow> all_stored P s \<Longrightarrow> delete cs s = (e, s') \<Longrightarrow> all_stored P s'"
  using all_stored_mono delete_frame by blast

lemma set_all_stored:
  assumes "ok s" and "all_stored P s" and "set_item it ttl s = (e, s')" and "P it" and "fits it"
  shows "all_stored P s'"
  using assms(2,4) set_stores [OF assms(1,5,3)] unfolding all_stored_def by blast

lemma get_satisfies: "ok s \<Longrightarrow> all_stored P s \<Longrightarrow> get c s = ((it, True, None), s') \<Longrightarrow> P it"
  unfolding all_stored_def by (metis get_hit)

end

section \<open>Existence filters\<close>

text \<open>
  \<open>members s\<close> are the codes the filter is bound to answer for; it may answer \<open>True\<close> for others.
\<close>

locale existence_filter =
  fixes add :: "string \<Rightarrow> 's \<Rightarrow> go_error option \<times> 's"
    and might_contain :: "string \<Rightarrow> 's \<Rightarrow> (go_error + bool) \<times> 's"
    and ok :: "'s \<Rightarrow> bool"
    and members :: "'s \<Rightarrow> string set"
  assumes add_ok: "ok s \<Longrightarrow> add c s = (e, s') \<Longrightarrow> ok s'"
    and add_member: "ok s \<Longrightarrow> add c s = (None, s') \<Longrightarrow> c \<in> members s'"
    and add_keeps: "ok s \<Longrightarrow> add c s = (e, s') \<Longrightarrow> members s \<subseteq> members s'"
    and might_ok: "ok s \<Longrightarrow> might_contain c s = (r, s') \<Longrightarrow> ok s'"
    and might_keeps: "ok s \<Longrightarrow> might_contain c s = (r, s') \<Longrightarrow> members s' = members s"
    and might_complete: "ok s \<Longrightarrow> might_contain c s = (Inr b, s') \<Longrightarrow> c \<in> members s \<Longrightarrow> b"
begin

text \<open>The operations a filter sees between an \<open>Add\<close> and a question about its code.\<close>

inductive used :: "'s \<Rightarrow> 's \<Rightarrow> bool" where
  used_refl: "used s s"
| used_add: "used s s1 \<Longrightarrow> add c s1 = (e, s2) \<Longrightarrow> used s s2"
| used_might: "used s s1 \<Longrightarrow> might_contain c s1 = (r, s2) \<Longrightarrow> used s s2"

lemma used_keeps: "used s s' \<Longrightarrow> ok s \<Longrightarrow> ok s' \<and> members s \<subseteq> members s'"
proof (induction rule: used.induct)
  case (used_refl s)
  then show ?case by simp
next
  case (used_add s s1 c e s2)
  then show ?case using add_ok add_keeps by blast
next
  case (used_might s s1 c r s2)
  then show ?case using might_ok might_keeps by blast
qed

lemma no_false_negative:
  assumes "ok s" and "add c s = (None, s1)" and "used s1 s2" and "might_contain c s2 = (Inr b, s3)"
  shows b
proof -
  have "ok s1" and "c \<in> members s1" using assms(1,2) add_ok add_member by auto
  with used_keeps [OF assms(3)] have "ok s2" and "c \<in> members s2" by auto
  with might_complete assms(4) show b by blast
qed

end

section \<open>Sources of active codes\<close>

text \<open>
  \<open>ActiveCodeRepository\<close>: the codes are handed over in batches to a callback that works on a
  state of its own, and the first error of the callback ends the listing. Beside the error, the
  result carries the states of the source and of the callback; \<open>None\<close>: the call does not return.
\<close>

type_synonym 'h code_handler = "string list \<Rightarrow> 'h \<Rightarrow> go_error option \<times> 'h"

type_synonym ('d, 'h) code_lister =
  "int \<Rightarrow> 'h code_handler \<Rightarrow> 'd \<times> 'h \<Rightarrow> (go_error option \<times> 'd \<times> 'h) option"

fun run_batches :: "'h code_handler \<Rightarrow> string list list \<Rightarrow> 'h \<Rightarrow> go_error option \<times> 'h" where
  "run_batches h [] s = (None, s)"
| "run_batches h (b # bs) s =
     (case h b s of (Some e, s') \<Rightarrow> (Some e, s') | (None, s') \<Rightarrow> run_batches h bs s')"

locale code_source =
  fixes list :: "('d, 'h) code_lister"
    and ok :: "'d \<Rightarrow> bool"
    and active :: "'d \<Rightarrow> string set"
  assumes list_batches: "ok d \<Longrightarrow> list b h (d, s) = Some (e, d', s') \<Longrightarrow>
      \<exists>bs e'. run_batches h bs s = (e', s') \<and> (e = None \<longrightarrow> e' = None \<and> set (concat bs) = active d)"
begin

text \<open>What the callback keeps in one batch holds after the listing.\<close>

lemma list_invariant:
  assumes "ok d" and "list b h (d, s) = Some (e, d', s')" and "I s"
    and step: "\<And>codes s e s'. I s \<Longrightarrow> h codes s = (e, s') \<Longrightarrow> I s'"
  shows "I s'"
proof -
  obtain bs e' where "run_batches h bs s = (e', s')" using list_batches [OF assms(1,2)] by blast
  with \<open>I s\<close> show ?thesis
  proof (induction bs arbitrary: s)
    case Nil
    then show ?case by simp
  next
    case (Cons b bs)
    obtain e1 s1 where hd: "h b s = (e1, s1)" by fastforce
    with step Cons.prems(1) have "I s1" by blast
    with hd Cons show ?case by (cases e1) auto
  qed
qed

text \<open>After a listing without error the callback has seen every active code.\<close>

lemma list_complete:
  assumes "ok d" and "list b h (d, s) = Some (None, d', s')" and "I {} s"
    and step: "\<And>codes C s s'. I C s \<Longrightarrow> h codes s = (None, s') \<Longrightarrow> I (C \<union> set codes) s'"
  shows "I (active d) s'"
proof -
  have "run_batches h bs s = (None, s') \<Longrightarrow> I C s \<Longrightarrow> I (C \<union> set (concat bs)) s'" for bs C s
  proof (induction bs arbitrary: s C)
    case Nil
    then show ?case by simp
  next
    case (Cons b bs)
    from Cons.prems(1) obtain s1 where "h b s = (None, s1)" "run_batches h bs s1 = (None, s')"
      by (auto split: prod.splits option.splits)
    with Cons.IH [OF _ step [OF Cons.prems(2)]] show ?case by (simp add: Un_assoc)
  qed
  with list_batches [OF assms(1,2)] assms(3) show ?thesis by fastforce
qed

end

end
