(* ===== verification/Link_Service.thy ===== *)
theory Link_Service
  imports Ports
begin

text \<open>
  \<open>internal/app/linkapp/service.go\<close>: creating and resolving short links. The service calls its
  ports (repository, generator, caches, filter, cleaner, clock, single-flight group) on one state
  \<open>'w\<close>, the world of the process; a port that may be nil is an \<open>option\<close>. The parser of
  \<open>net/url\<close> and the single-flight group of \<open>golang.org/x/sync\<close> are parameters.
  \<^item> \<open>link_service\<close> is the contract between the service and its ports. A law speaks of the
    state before and after a call and leaves room for what other goroutines do meanwhile.
  \<^item> Its lemmas say what \<open>CreateShortLink\<close> and \<open>Resolve\<close> guarantee over any such ports;
    \<open>Link_World\<close> interprets it on the program's own components.
\<close>

section \<open>Ports (ports.go, repository.go)\<close>

record 'w LinkCache =
  ca_Get :: "string \<Rightarrow> 'w \<Rightarrow> (ShortLink \<times> bool \<times> go_error option) \<times> 'w"
  ca_Set :: "ShortLink \<Rightarrow> duration \<Rightarrow> 'w \<Rightarrow> go_error option \<times> 'w"
  ca_Delete :: "(string list \<Rightarrow> 'w \<Rightarrow> go_error option \<times> 'w) option"

text \<open>\<open>ca_Delete\<close> is present when the cache also is a \<open>LinkCacheInvalidator\<close>.\<close>

record 'w ExistenceFilter =
  ef_Add :: "string \<Rightarrow> 'w \<Rightarrow> go_error option \<times> 'w"
  ef_MightContain :: "string \<Rightarrow> 'w \<Rightarrow> (go_error + bool) \<times> 'w"

record 'w ShortLinkRepository =
  re_Create :: "ShortLink \<Rightarrow> 'w \<Rightarrow> go_error option \<times> 'w"
  re_FindByCode :: "string \<Rightarrow> 'w \<Rightarrow> (go_error + ShortLink) \<times> 'w"
  re_FindActiveByCode :: "string \<Rightarrow> 'w \<Rightarrow> (go_error + ShortLink) \<times> 'w"

type_synonym 'w id_source = "'w \<Rightarrow> (uint64 \<times> 'w) option"

type_synonym 'w enqueuer = "string \<Rightarrow> time \<Rightarrow> 'w \<Rightarrow> bool \<times> 'w"

text \<open>What is used of the libraries: \<open>url.ParseRequestURI\<close> and \<open>singleflight.Group.Do\<close>.\<close>

record url =
  url_Scheme :: string
  url_Host :: string

type_synonym url_parser = "string \<Rightarrow> go_error + url"

type_synonym 'w flight_group =
  "string \<Rightarrow> ('w \<Rightarrow> (go_error + ShortLink) \<times> 'w) \<Rightarrow> 'w \<Rightarrow> (go_error + ShortLink) \<times> 'w"

section \<open>The service\<close>

definition defaultCacheTTL :: duration where
  "defaultCacheTTL = 30 * minute"

record 'w Service =
  sv_repo :: "'w ShortLinkRepository"
  sv_ids :: "'w id_source option"
  sv_local :: "'w LinkCache option"
  sv_remote :: "'w LinkCache option"
  sv_filter :: "'w ExistenceFilter option"
  sv_cleaner :: "'w enqueuer option"
  sv_domain :: string
  sv_cacheTTL :: duration
  sv_now :: "'w \<Rightarrow> time \<times> 'w"
  sv_loadGroup :: "'w flight_group"
  sv_ParseRequestURI :: url_parser

record 'w Options =
  op_Repository :: "'w ShortLinkRepository"
  op_IDs :: "'w id_source option"
  op_LocalCache :: "'w LinkCache option"
  op_RedisCache :: "'w LinkCache option"
  op_Filter :: "'w ExistenceFilter option"
  op_Cleaner :: "'w enqueuer option"
  op_Domain :: string
  op_CacheTTL :: duration

record CreateRequest =
  cr_LongURL :: string
  cr_Domain :: string
  cr_ExpireAt :: "time option"

record CreateResponse =
  rs_Code :: string
  rs_ShortURL :: string
  rs_LongURL :: string
  rs_ExpireAt :: "time option"

definition New ::
  "('w \<Rightarrow> time \<times> 'w) \<Rightarrow> 'w flight_group \<Rightarrow> url_parser \<Rightarrow> 'w Options \<Rightarrow> 'w Service" where
  "New time_Now flights parser options =
     \<lparr>sv_repo = op_Repository options, sv_ids = op_IDs options, sv_local = op_LocalCache options,
      sv_remote = op_RedisCache options, sv_filter = op_Filter options, sv_cleaner = op_Cleaner options,
      sv_domain = TrimRightByte CHR ''/'' (op_Domain options),
      sv_cacheTTL = (if op_CacheTTL options \<le> 0 then defaultCacheTTL else op_CacheTTL options),
      sv_now = time_Now, sv_loadGroup = flights, sv_ParseRequestURI = parser\<rparr>"

definition isValidLongURL :: "url_parser \<Rightarrow> string \<Rightarrow> bool" where
  "isValidLongURL parser raw =
     (case parser raw of
        Inl e \<Rightarrow> False
      | Inr u \<Rightarrow> (url_Scheme u = ''http'' \<or> url_Scheme u = ''https'') \<and> url_Host u \<noteq> [])"

text \<open>The second result of \<open>cacheTTLFor\<close> is false exactly for \<open>None\<close>.\<close>

definition cacheTTLFor :: "'w Service \<Rightarrow> ShortLink \<Rightarrow> 'w \<Rightarrow> duration option \<times> 'w" where
  "cacheTTLFor s item w =
     (case sl_ExpireAt item of
        None \<Rightarrow> (Some (sv_cacheTTL s), w)
      | Some expireAt \<Rightarrow>
          (case sv_now s w of (now, w1) \<Rightarrow>
             (let untilExpire = time_sub expireAt now
              in if untilExpire \<le> 0 then (None, w1)
                 else (Some (if untilExpire < sv_cacheTTL s then untilExpire else sv_cacheTTL s), w1))))"

definition setCache :: "'w Service \<Rightarrow> 'w LinkCache option \<Rightarrow> ShortLink \<Rightarrow> 'w \<Rightarrow> 'w" where
  "setCache s cache item w =
     (case cache of
        None \<Rightarrow> w
      | Some c \<Rightarrow>
          (case cacheTTLFor s item w of
             (None, w1) \<Rightarrow> w1
           | (Some ttl, w1) \<Rightarrow> snd (ca_Set c item ttl w1)))"

definition setCaches :: "'w Service \<Rightarrow> ShortLink \<Rightarrow> 'w \<Rightarrow> 'w" where
  "setCaches s item w = setCache s (sv_remote s) item (setCache s (sv_local s) item w)"

definition deleteCache :: "'w LinkCache option \<Rightarrow> string list \<Rightarrow> 'w \<Rightarrow> 'w" where
  "deleteCache cache codes w =
     (case cache of
        None \<Rightarrow> w
      | Some c \<Rightarrow>
          (if codes = [] then w
           else (case ca_Delete c of None \<Rightarrow> w | Some delete \<Rightarrow> snd (delete codes w))))"

definition deleteCaches :: "'w Service \<Rightarrow> string list \<Rightarrow> 'w \<Rightarrow> 'w" where
  "deleteCaches s codes w = deleteCache (sv_remote s) codes (deleteCache (sv_local s) codes w)"

definition handleExpiredCode :: "'w Service \<Rightarrow> string \<Rightarrow> time \<Rightarrow> 'w \<Rightarrow> 'w" where
  "handleExpiredCode s code before w =
     (let w1 = deleteCaches s [code] w
      in case sv_cleaner s of None \<Rightarrow> w1 | Some enqueue \<Rightarrow> snd (enqueue code before w1))"

definition getCache ::
  "'w Service \<Rightarrow> 'w LinkCache option \<Rightarrow> string \<Rightarrow> 'w \<Rightarrow> (ShortLink \<times> bool \<times> go_error option) \<times> 'w" where
  "getCache s cache code w =
     (case cache of
        None \<Rightarrow> ((zero_ShortLink, False, None), w)
      | Some c \<Rightarrow>
          (case ca_Get c code w of ((item, ok, err), w1) \<Rightarrow>
             (if err \<noteq> None \<or> \<not> ok then ((zero_ShortLink, ok, err), w1)
              else (case sv_now s w1 of (now, w2) \<Rightarrow>
                (if IsActive item now then ((item, True, None), w2)
                 else ((zero_ShortLink, False, None),
                       (if sl_Code item \<noteq> [] then deleteCaches s [sl_Code item] w2 else w2)))))))"

text \<open>The second half of \<open>CreateShortLink\<close>, from the call of \<open>Create\<close> on.\<close>

definition store_link :: "'w Service \<Rightarrow> ShortLink \<Rightarrow> 'w \<Rightarrow> (go_error + CreateResponse) \<times> 'w" where
  "store_link s item w =
     (case re_Create (sv_repo s) item w of
        (Some err, w1) \<Rightarrow> (Inl err, w1)
      | (None, w1) \<Rightarrow>
          (case (case sv_filter s of None \<Rightarrow> (None, w1) | Some f \<Rightarrow> ef_Add f (sl_Code item) w1) of
             (Some err, w2) \<Rightarrow> (Inl err, w2)
           | (None, w2) \<Rightarrow>
               (Inr \<lparr>rs_Code = sl_Code item, rs_ShortURL = sl_Domain item @ ''/'' @ sl_Code item,
                     rs_LongURL = sl_LongURL item, rs_ExpireAt = sl_ExpireAt item\<rparr>,
                setCache s (sv_remote s) item w2)))"

text \<open>\<open>None\<close>: the call does not return (no generator, or the generator waits for its clock).\<close>

definition CreateShortLink ::
  "'w Service \<Rightarrow> CreateRequest \<Rightarrow> 'w \<Rightarrow> ((go_error + CreateResponse) \<times> 'w) option" where
  "CreateShortLink s req w =
     (let longURL = TrimSpace (cr_LongURL req)
      in if \<not> isValidLongURL (sv_ParseRequestURI s) longURL then Some (Inl ErrInvalidURL, w)
         else
           (let domain1 = TrimRightByte CHR ''/'' (TrimSpace (cr_Domain req));
                domain = (if domain1 = [] then sv_domain s else domain1)
            in case sv_now s w of (now, w1) \<Rightarrow>
              (case sv_ids s of
                 None \<Rightarrow> None
               | Some NextID \<Rightarrow>
                   (case NextID w1 of
                      None \<Rightarrow> None
                    | Some (n, w2) \<Rightarrow>
                        Some (store_link s
                          \<lparr>sl_ID = n, sl_Code = NewShortCode n, sl_LongURL = longURL, sl_Domain = domain,
                           sl_ExpireAt = cr_ExpireAt req, sl_Status = ShortLinkStatusActive,
                           sl_CreatedAt = now, sl_UpdatedAt = now\<rparr> w2)))))"

text \<open>The function that \<open>Resolve\<close> hands to the single-flight group.\<close>

definition load_link :: "'w Service \<Rightarrow> string \<Rightarrow> 'w \<Rightarrow> (go_error + ShortLink) \<times> 'w" where
  "load_link s code w =
     (case getCache s (sv_remote s) code w of ((item, ok, err), w1) \<Rightarrow>
        (if err = None \<and> ok then (Inr item, setCache s (sv_local s) item w1)
         else
           (case re_FindActiveByCode (sv_repo s) code w1 of
              (Inl err, w2) \<Rightarrow>
                (Inl err, (if errors_Is err ErrExpired
                           then (case sv_now s w2 of (now, w3) \<Rightarrow> handleExpiredCode s code now w3)
                           else w2))
            | (Inr item, w2) \<Rightarrow> (Inr item, setCaches s item w2))))"

text \<open>\<open>Resolve\<close> after the question to the filter.\<close>

definition resolve_cached :: "'w Service \<Rightarrow> string \<Rightarrow> 'w \<Rightarrow> (go_error + ShortLink) \<times> 'w" where
  "resolve_cached s code w =
     (case getCache s (sv_local s) code w of ((item, ok, err), w1) \<Rightarrow>
        (if err = None \<and> ok then (Inr item, w1)
         else sv_loadGroup s code (load_link s code) w1))"

definition Resolve :: "'w Service \<Rightarrow> string \<Rightarrow> 'w \<Rightarrow> (go_error + ShortLink) \<times> 'w" where
  "Resolve s code w =
     (case ValidateShortCode code of
        Some err \<Rightarrow> (Inl err, w)
      | None \<Rightarrow>
          (case (case sv_filter s of None \<Rightarrow> (Inr True, w) | Some f \<Rightarrow> ef_MightContain f code w) of
             (Inr False, w1) \<Rightarrow> (Inl ErrNotFound, w1)
           | (_, w1) \<Rightarrow> resolve_cached s code w1))"

section \<open>What single calls return\<close>

lemma New_ttl_pos: "0 < sv_cacheTTL (New time_Now flights parser options)"
  by (simp add: New_def defaultCacheTTL_def minute_def second_def)

lemma cacheTTLFor_result:
  assumes "0 < sv_cacheTTL s" and "cacheTTLFor s item w = (Some ttl, w')"
  shows "0 < ttl" and "ttl \<le> sv_cacheTTL s"
    and "sl_ExpireAt item = Some t \<Longrightarrow> sv_now s w = (now, w1) \<Longrightarrow> now + ttl \<le> t"
proof -
  show "0 < ttl" and "ttl \<le> sv_cacheTTL s"
    using assms by (auto simp: cacheTTLFor_def Let_def split: option.splits prod.splits if_splits)
  assume "sl_ExpireAt item = Some t" and "sv_now s w = (now, w1)"
  with assms(2) have "ttl \<le> time_sub t now" and "0 < time_sub t now"
    by (auto simp: cacheTTLFor_def Let_def split: if_splits)
  with time_sub_le [of now t] time_sub_nonpos_iff [of t now] show "now + ttl \<le> t" by auto
qed

text \<open>A creation with a valid URL reads the clock, draws an id and stores the link of that id.\<close>

lemma CreateShortLink_stores:
  assumes "CreateShortLink s req w = Some (v, w')"
    and "isValidLongURL (sv_ParseRequestURI s) (TrimSpace (cr_LongURL req))" and "sv_now s w = (t, w1)"
  obtains gen n w2 item where "sv_ids s = Some gen" "gen w1 = Some (n, w2)" "store_link s item w2 = (v, w')"
    "sl_Code item = NewShortCode n" "sl_ID item = n" "sl_LongURL item = TrimSpace (cr_LongURL req)"
    "sl_ExpireAt item = cr_ExpireAt req" "sl_Status item = ShortLinkStatusActive"
proof -
  from assms obtain gen n w2 where gen: "sv_ids s = Some gen" and n: "gen w1 = Some (n, w2)"
    by (auto simp: CreateShortLink_def Let_def split: option.splits)
  with assms that [OF gen n] show thesis by (simp add: CreateShortLink_def Let_def)
qed

lemma CreateShortLink_valid:
  "CreateShortLink s req w = Some (Inr resp, w') \<Longrightarrow> isValidLongURL (sv_ParseRequestURI s) (TrimSpace (cr_LongURL req))"
  by (rule ccontr) (simp add: CreateShortLink_def Let_def)

section \<open>The contract with the ports\<close>

text \<open>
  \<open>I w\<close>: a legal state. \<open>since w\<close>: a time not later than any reading of the clock by a call that
  is running or to come; \<open>latest w\<close>: one not earlier than any reading so far. \<open>Q w it\<close>: the link \<open>it\<close> may be served in the state \<open>w\<close>; it stays so.
  \<open>same\<close>: the repository takes the codes for equal. \<open>adv w w'\<close>: what every call guarantees of
  the states before and after it.
\<close>

definition caches :: "'w Service \<Rightarrow> 'w LinkCache set" where
  "caches s = set_option (sv_local s) \<union> set_option (sv_remote s)"

definition advances ::
  "('w \<Rightarrow> bool) \<Rightarrow> ('w \<Rightarrow> time) \<Rightarrow> ('w \<Rightarrow> time) \<Rightarrow> ('w \<Rightarrow> ShortLink \<Rightarrow> bool) \<Rightarrow> 'w \<Rightarrow> 'w \<Rightarrow> bool" where
  "advances I since latest Q w w' \<longleftrightarrow>
     I w' \<and> since w \<le> since w' \<and> latest w \<le> latest w' \<and> (\<forall>it. Q w it \<longrightarrow> Q w' it)"

lemma advances_refl: "I w \<Longrightarrow> advances I since latest Q w w"
  by (simp add: advances_def)

lemma advances_trans: "advances I since latest Q w w' \<Longrightarrow> advances I since latest Q w' w'' \<Longrightarrow> advances I since latest Q w w''"
  by (auto simp: advances_def)

locale link_service =
  fixes S :: "'w Service"
    and I :: "'w \<Rightarrow> bool"
    and since :: "'w \<Rightarrow> time"
    and latest :: "'w \<Rightarrow> time"
    and Q :: "'w \<Rightarrow> ShortLink \<Rightarrow> bool"
    and same :: "string \<Rightarrow> string \<Rightarrow> bool"
  assumes same_refl: "same c c"
    and now_law: "I w \<Longrightarrow> sv_now S w = (t, w') \<Longrightarrow> 
      advances I since latest Q w w' \<and> since w \<le> t \<and> t \<le> latest w'"
    and get_law: "C \<in> caches S \<Longrightarrow> I w \<Longrightarrow> ca_Get C c w = ((it, hit, e), w') \<Longrightarrow>
      advances I since latest Q w w' \<and> (hit \<and> e = None \<longrightarrow> sl_Code it = c \<and> Q w' it)"
    and set_law: "C \<in> caches S \<Longrightarrow> I w \<Longrightarrow> Q w it \<Longrightarrow> ca_Set C it ttl w = (e, w') \<Longrightarrow> advances I since latest Q w w'"
    and del_law: "C \<in> caches S \<Longrightarrow> ca_Delete C = Some delete \<Longrightarrow> I w \<Longrightarrow> delete cs w = (e, w') \<Longrightarrow>
      advances I since latest Q w w'"
    and add_law: "sv_filter S = Some F \<Longrightarrow> I w \<Longrightarrow> ef_Add F c w = (e, w') \<Longrightarrow> advances I since latest Q w w'"
    and might_law: "sv_filter S = Some F \<Longrightarrow> I w \<Longrightarrow> ef_MightContain F c w = (m, w') \<Longrightarrow> advances I since latest Q w w'"
    and enqueue_law: "sv_cleaner S = Some enqueue \<Longrightarrow> I w \<Longrightarrow> t \<le> latest w \<Longrightarrow> enqueue c t w = (b, w') \<Longrightarrow> advances I since latest Q w w'"
    and id_law: "sv_ids S = Some gen \<Longrightarrow> I w \<Longrightarrow> gen w = Some (n, w') \<Longrightarrow> advances I since latest Q w w'"
    and create_law: "I w \<Longrightarrow> re_Create (sv_repo S) it w = (e, w') \<Longrightarrow>
      advances I since latest Q w w' \<and> (e = None \<longrightarrow> Q w' it)"
    and find_law: "I w \<Longrightarrow> re_FindActiveByCode (sv_repo S) c w = (v, w') \<Longrightarrow>
      advances I since latest Q w w' \<and>
      (\<forall>it. v = Inr it \<longrightarrow> Q w' it \<and> same (sl_Code it) c \<and> IsActive it (since w))"
    and flight_law: "(\<And>x v x'. I x \<Longrightarrow> fn x = (v, x') \<Longrightarrow> advances I since latest Q x x') \<Longrightarrow> I w \<Longrightarrow>
      sv_loadGroup S c fn w = (v, w') \<Longrightarrow>
      advances I since latest Q w w' \<and>
      (\<exists>w0 w1. I w0 \<and> since w \<le> since w0 \<and> fn w0 = (v, w1) \<and> (\<forall>it. Q w1 it \<longrightarrow> Q w' it))"
begin

text \<open>A served link: legal in the state, of the code, and active at or after the beginning.\<close>

lemma advI: "advances I since latest Q w w' \<Longrightarrow> I w'"
  by (simp add: advances_def)

lemma active_since: "advances I since latest Q w w' \<Longrightarrow> IsActive it (since w') \<Longrightarrow> IsActive it (since w)"
  using IsActive_antimono by (auto simp: advances_def)

lemma deleteCache_adv:
  assumes "set_option cache \<subseteq> caches S" and "I w"
  shows "advances I since latest Q w (deleteCache cache cs w)"
proof (cases cache)
  case None
  with assms(2) show ?thesis by (simp add: deleteCache_def advances_refl)
next
  case (Some C)
  show ?thesis
  proof (cases "ca_Delete C")
    case None
    with Some assms(2) show ?thesis by (simp add: deleteCache_def advances_refl)
  next
    case del: (Some delete)
    obtain e w' where "delete cs w = (e, w')" by fastforce
    with Some del assms del_law [of C delete] show ?thesis by (simp add: deleteCache_def advances_refl)
  qed
qed

lemma local_in: "set_option (sv_local S) \<subseteq> caches S" and remote_in: "set_option (sv_remote S) \<subseteq> caches S"
  by (simp_all add: caches_def)

lemma deleteCaches_adv:
  assumes "I w" shows "advances I since latest Q w (deleteCaches S cs w)"
proof -
  note first = deleteCache_adv [OF local_in assms, of cs]
  from advances_trans [OF first deleteCache_adv [OF remote_in advI [OF first]]]
  show ?thesis by (simp add: deleteCaches_def)
qed

lemma ttl_adv:
  assumes "I w" and "cacheTTLFor S it w = (ttl, w')"
  shows "advances I since latest Q w w'"
proof (cases "sl_ExpireAt it")
  case None
  with assms show ?thesis by (auto simp: cacheTTLFor_def advances_refl)
next
  case (Some t)
  obtain now w1 where "sv_now S w = (now, w1)" by fastforce
  with now_law [OF assms(1) this] Some assms(2) show ?thesis
    by (auto simp: cacheTTLFor_def Let_def split: if_splits)
qed

lemma setCache_adv:
  assumes "set_option cache \<subseteq> caches S" and "I w" and "Q w it"
  shows "advances I since latest Q w (setCache S cache it w)"
proof (cases cache)
  case None
  with assms(2) show ?thesis by (simp add: setCache_def advances_refl)
next
  case (Some C)
  obtain ttl w1 where ttl: "cacheTTLFor S it w = (ttl, w1)" by fastforce
  note first = ttl_adv [OF assms(2) ttl]
  show ?thesis
  proof (cases ttl)
    case None
    with ttl first Some show ?thesis by (simp add: setCache_def)
  next
    case t: (Some d)
    obtain e w2 where set: "ca_Set C it d w1 = (e, w2)" by fastforce
    have "Q w1 it" using first assms(3) by (simp add: advances_def)
    with set_law [OF _ advI [OF first] _ set] assms(1) Some first advances_trans
    have "advances I since latest Q w w2" by (metis (no_types, lifting) option.set_intros subsetD)
    with ttl t set Some show ?thesis by (simp add: setCache_def)
  qed
qed

lemma setCaches_adv: "I w \<Longrightarrow> Q w it \<Longrightarrow> advances I since latest Q w (setCaches S it w)"
proof -
  assume "I w" and "Q w it"
  note first = setCache_adv [OF local_in this]
  then have "Q (setCache S (sv_local S) it w) it" using \<open>Q w it\<close> by (simp add: advances_def)
  from advances_trans [OF first setCache_adv [OF remote_in advI [OF first] this]]
  show ?thesis by (simp add: setCaches_def)
qed

lemma handleExpired_adv:
  assumes "I w" and "t \<le> latest w"
  shows "advances I since latest Q w (handleExpiredCode S c t w)"
proof (cases "sv_cleaner S")
  case None
  with deleteCaches_adv [OF assms(1)] show ?thesis by (simp add: handleExpiredCode_def)
next
  case (Some enqueue)
  note first = deleteCaches_adv [OF assms(1), of "[c]"]
  have t: "t \<le> latest (deleteCaches S [c] w)" using first assms(2) by (simp add: advances_def)
  obtain b w' where e: "enqueue c t (deleteCaches S [c] w) = (b, w')" by fastforce
  from advances_trans [OF first enqueue_law [OF Some advI [OF first] t e]] Some e show ?thesis
    by (simp add: handleExpiredCode_def)
qed

text \<open>A hit of \<open>getCache\<close> has been checked against the clock.\<close>

lemma getCache_result:
  assumes "set_option cache \<subseteq> caches S" and "I w" and "getCache S cache c w = ((it, ok, err), w')"
  shows "advances I since latest Q w w'"
    and "err = None \<Longrightarrow> ok \<Longrightarrow> sl_Code it = c \<and> Q w' it \<and> IsActive it (since w)"
proof -
  have "advances I since latest Q w w' \<and> (err = None \<and> ok \<longrightarrow> sl_Code it = c \<and> Q w' it \<and> IsActive it (since w))"
  proof (cases cache)
    case None
    with assms show ?thesis by (auto simp: getCache_def advances_refl)
  next
    case (Some C)
    then have C: "C \<in> caches S" using assms(1) by simp
    obtain x hit e w1 where get: "ca_Get C c w = ((x, hit, e), w1)" by (metis prod.collapse)
    note got = get_law [OF C assms(2) get]
    obtain now w2 where now: "sv_now S w1 = (now, w2)" by fastforce
    note read = now_law [OF advI [OF conjunct1 [OF got]] now]
    note both = advances_trans [OF conjunct1 [OF got] conjunct1 [OF read]]
    have active: "IsActive x now \<Longrightarrow> IsActive x (since w)"
      using got read by (meson IsActive_antimono advances_def order.trans)
    have keeps: "Q w1 x \<Longrightarrow> Q w2 x" using read by (simp add: advances_def)
    show ?thesis
    proof (cases "hit \<and> e = None")
      case False
      with assms(3) Some get got show ?thesis by (auto simp: getCache_def)
    next
      case True
      show ?thesis
      proof (cases "IsActive x now")
        case act: True
        with True assms(3) Some get now have "it = x" "w' = w2" by (simp_all add: getCache_def)
        with got True both active [OF act] keeps show ?thesis by blast
      next
        case stale: False
        with True assms(3) Some get now have "\<not> ok"
          and w': "w' = (if sl_Code x \<noteq> [] then deleteCaches S [sl_Code x] w2 else w2)"
          by (simp_all add: getCache_def)
        moreover have "advances I since latest Q w w'"
          unfolding w' using advances_trans [OF both deleteCaches_adv [OF advI [OF both]]] both by simp
        ultimately show ?thesis by blast
      qed
    qed
  qed
  then show "advances I since latest Q w w'"
    and "err = None \<Longrightarrow> ok \<Longrightarrow> sl_Code it = c \<and> Q w' it \<and> IsActive it (since w)" by blast+
qed

lemma load_link_result:
  assumes "I w" and "load_link S c w = (v, w')"
  shows "advances I since latest Q w w'"
    and "v = Inr it \<Longrightarrow> Q w' it \<and> same (sl_Code it) c \<and> IsActive it (since w)"
proof -
  have "advances I since latest Q w w' \<and> (v = Inr it \<longrightarrow> Q w' it \<and> same (sl_Code it) c \<and> IsActive it (since w))"
  proof -
    obtain x ok err w1 where get: "getCache S (sv_remote S) c w = ((x, ok, err), w1)" by (metis prod.collapse)
    note first = getCache_result(1) [OF remote_in assms(1) get]
    show ?thesis
    proof (cases "err = None \<and> ok")
      case True
      note hit = getCache_result(2) [OF remote_in assms(1) get conjunct1 [OF True] conjunct2 [OF True]]
      have w': "v = Inr x" "w' = setCache S (sv_local S) x w1"
        using assms(2) get True by (simp_all add: load_link_def)
      have "advances I since latest Q w1 w'"
        unfolding w' using setCache_adv [OF local_in advI [OF first]] hit by blast
      with first hit w'(1) advances_trans same_refl show ?thesis
        by (metis (no_types, lifting) advances_def sum.inject(2))
    next
      case False
      obtain u w2 where find: "re_FindActiveByCode (sv_repo S) c w1 = (u, w2)" by fastforce
      note found = find_law [OF advI [OF first] find]
      note two = advances_trans [OF first conjunct1 [OF found]]
      show ?thesis
      proof (cases u)
        case (Inl e)
        obtain now w3 where now: "sv_now S w2 = (now, w3)" by fastforce
        note read = now_law [OF advI [OF two] now]
        note three = advances_trans [OF two conjunct1 [OF read]]
        have t: "now \<le> latest w3" using read by blast
        have "v = Inl e" "w' = (if errors_Is e ErrExpired then handleExpiredCode S c now w3 else w2)"
          using assms(2) get False find Inl now by (auto simp: load_link_def)
        with two advances_trans [OF three handleExpired_adv [OF advI [OF three] t]] show ?thesis by simp
      next
        case (Inr x)
        have w': "v = Inr x" "w' = setCaches S x w2"
          using assms(2) get False find Inr by (simp_all add: load_link_def)
        have x: "Q w2 x" "same (sl_Code x) c" "IsActive x (since w1)" using found Inr by simp_all
        have "advances I since latest Q w2 w'" unfolding w' by (rule setCaches_adv [OF advI [OF two] x(1)])
        with x w'(1) advances_trans [OF two] active_since [OF first x(3)] show ?thesis
          by (auto simp: advances_def)
      qed
    qed
  qed
  then show "advances I since latest Q w w'"
    and "v = Inr it \<Longrightarrow> Q w' it \<and> same (sl_Code it) c \<and> IsActive it (since w)" by blast+
qed

lemma resolve_cached_result:
  assumes "I w" and "resolve_cached S c w = (v, w')"
  shows "advances I since latest Q w w' \<and> (v = Inr it \<longrightarrow> Q w' it \<and> same (sl_Code it) c \<and> IsActive it (since w))"
proof -
  obtain x ok err w1 where get: "getCache S (sv_local S) c w = ((x, ok, err), w1)" by (metis prod.collapse)
  note first = getCache_result(1) [OF local_in assms(1) get]
  show ?thesis
  proof (cases "err = None \<and> ok")
    case True
    note hit = getCache_result(2) [OF local_in assms(1) get conjunct1 [OF True] conjunct2 [OF True]]
    have "v = Inr x" "w' = w1" using assms(2) get True by (simp_all add: resolve_cached_def)
    with hit first same_refl show ?thesis by auto
  next
    case False
    then have flight: "sv_loadGroup S c (load_link S c) w1 = (v, w')"
      using assms(2) get by (auto simp: resolve_cached_def)
    have "advances I since latest Q w1 w' \<and> (\<exists>w0 w3. I w0 \<and> since w1 \<le> since w0 \<and> load_link S c w0 = (v, w3) \<and>
        (\<forall>it. Q w3 it \<longrightarrow> Q w' it))"
      by (rule flight_law [OF _ advI [OF first] flight]) (rule load_link_result(1))
    then obtain w0 w3 where
      adv: "advances I since latest Q w1 w'" and "I w0" and le: "since w1 \<le> since w0"
      and load: "load_link S c w0 = (v, w3)" and keep: "\<forall>it. Q w3 it \<longrightarrow> Q w' it" by blast
    have "v = Inr it \<longrightarrow> Q w' it \<and> same (sl_Code it) c \<and> IsActive it (since w)"
    proof
      assume "v = Inr it"
      note it = load_link_result(2) [OF \<open>I w0\<close> load this]
      have "since w \<le> since w0" using first le by (auto simp: advances_def)
      with it keep IsActive_antimono show "Q w' it \<and> same (sl_Code it) c \<and> IsActive it (since w)" by blast
    qed
    with advances_trans [OF first adv] show ?thesis by blast
  qed
qed

lemma Resolve_result:
  assumes "I w" and "Resolve S c w = (v, w')"
  shows "advances I since latest Q w w' \<and> (v = Inr it \<longrightarrow> Q w' it \<and> same (sl_Code it) c \<and> IsActive it (since w))"
proof (cases "ValidateShortCode c")
  case (Some e)
  with assms show ?thesis by (auto simp: Resolve_def advances_refl)
next
  case None
  obtain b w1 where might: "(case sv_filter S of None \<Rightarrow> (Inr True, w)
      | Some f \<Rightarrow> ef_MightContain f c w) = (b, w1)" by fastforce
  then have first: "advances I since latest Q w w1"
    using might_law assms(1) advances_refl by (fastforce split: option.splits)
  show ?thesis
  proof (cases "b = Inr False")
    case True
    with assms(2) None might first show ?thesis by (auto simp: Resolve_def)
  next
    case False
    then have "resolve_cached S c w1 = (v, w')"
      using assms(2) None might by (auto simp: Resolve_def split: sum.splits bool.splits)
    from resolve_cached_result [OF advI [OF first] this, of it] advances_trans [OF first] active_since [OF first]
    show ?thesis by blast
  qed
qed

text \<open>A creation that reports no error has stored the link it answers with.\<close>

lemma store_link_result:
  assumes "I w" and "store_link S item w = (v, w')"
  shows "advances I since latest Q w w' \<and> (v = Inr resp \<longrightarrow> Q w' item \<and> rs_Code resp = sl_Code item \<and>
    rs_LongURL resp = sl_LongURL item \<and> rs_ExpireAt resp = sl_ExpireAt item)"
proof -
  obtain e w1 where create: "re_Create (sv_repo S) item w = (e, w1)" by fastforce
  note created = create_law [OF assms(1) create]
  note one = conjunct1 [OF created]
  show ?thesis
  proof (cases e)
    case (Some err)
    with assms(2) create one show ?thesis by (auto simp: store_link_def)
  next
    case None
    obtain f w2 where add: "(case sv_filter S of None \<Rightarrow> (None, w1) | Some f \<Rightarrow> ef_Add f (sl_Code item) w1) = (f, w2)"
      by fastforce
    have next_adv: "advances I since latest Q w1 w2"
    proof (cases "sv_filter S")
      case None
      with add one show ?thesis by (simp add: advances_def)
    next
      case (Some F)
      with add have "ef_Add F (sl_Code item) w1 = (f, w2)" by simp
      from add_law [OF Some advI [OF one] this] show ?thesis .
    qed
    note two = advances_trans [OF one next_adv]
    have "Q w2 item" using created None next_adv by (simp add: advances_def)
    note three = setCache_adv [OF remote_in advI [OF two] this]
    have "Q (setCache S (sv_remote S) item w2) item" using three \<open>Q w2 item\<close> by (simp add: advances_def)
    with assms(2) create None add two advances_trans [OF two three] show ?thesis
      by (cases f) (auto simp: store_link_def)
  qed
qed

lemma CreateShortLink_result:
  assumes "I w" and "CreateShortLink S req w = Some (v, w')"
  shows "advances I since latest Q w w' \<and>
    (v = Inr resp \<longrightarrow> (\<exists>it. Q w' it \<and> sl_Code it = rs_Code resp \<and> sl_Code it = NewShortCode (sl_ID it) \<and>
      sl_LongURL it = TrimSpace (cr_LongURL req) \<and> rs_LongURL resp = sl_LongURL it \<and>
      sl_ExpireAt it = cr_ExpireAt req \<and> sl_Status it = ShortLinkStatusActive))"
proof (cases "isValidLongURL (sv_ParseRequestURI S) (TrimSpace (cr_LongURL req))")
  case False
  with assms show ?thesis by (auto simp: CreateShortLink_def Let_def advances_refl)
next
  case valid: True
  obtain now w1 where now: "sv_now S w = (now, w1)" by fastforce
  note one = conjunct1 [OF now_law [OF assms(1) now]]
  from assms(2) valid now obtain gen n w2 item where gen: "sv_ids S = Some gen" and n: "gen w1 = Some (n, w2)"
    and run: "store_link S item w2 = (v, w')" and item: "sl_Code item = NewShortCode n" "sl_ID item = n"
      "sl_LongURL item = TrimSpace (cr_LongURL req)" "sl_ExpireAt item = cr_ExpireAt req"
      "sl_Status item = ShortLinkStatusActive"
    by (rule CreateShortLink_stores)
  note two = advances_trans [OF one id_law [OF gen advI [OF one] n]]
  from store_link_result [OF advI [OF two] run, of resp] advances_trans [OF two] item show ?thesis by metis
qed

end

section \<open>Properties\<close>

text \<open>
  What a resolution does before it looks anything up: an invalid code is refused with
  \<open>ErrInvalidCode\<close> and nothing is touched; a code the filter rules out is \<open>ErrNotFound\<close>, and
  neither the caches nor the database are asked; a filter that fails is passed over. A creation
  with an invalid URL is refused before an id is drawn.
\<close>

lemma service_refuses_early:
  "(ValidateShortCode code \<noteq> None \<longrightarrow> Resolve s code w = (Inl ErrInvalidCode, w)) \<and>
   (ValidateShortCode code = None \<and> sv_filter s = Some f \<and> ef_MightContain f code w = (Inr False, w1) \<longrightarrow>
     Resolve s code w = (Inl ErrNotFound, w1)) \<and>
   (ValidateShortCode code = None \<and> sv_filter s = Some f \<and> ef_MightContain f code w = (Inl e, w1) \<longrightarrow>
     Resolve s code w = resolve_cached s code w1) \<and>
   (\<not> isValidLongURL (sv_ParseRequestURI s) (TrimSpace (cr_LongURL req)) \<longrightarrow>
     CreateShortLink s req w = Some (Inl ErrInvalidURL, w))"
  by (auto simp: Resolve_def CreateShortLink_def Let_def ValidateShortCode_error)

text \<open>
  C25 (bounds). The time to live a service gives to a cached link is positive, at most the configured
  one, and never reaches past the link's expiry; a link is not cached exactly when it has expired.
\<close>

theorem cache_ttl_bounds:
  assumes "s = New time_Now flights parser options" and "time_Now w = (now, w1)"
  shows "(case fst (cacheTTLFor s item w) of
      None \<Rightarrow> IsExpired item now
    | Some ttl \<Rightarrow> 0 < ttl \<and> ttl \<le> sv_cacheTTL s \<and> \<not> IsExpired item now \<and>
        (\<forall>t. sl_ExpireAt item = Some t \<longrightarrow> now + ttl \<le> t))"
proof -
  have s: "0 < sv_cacheTTL s" "sv_now s w = (now, w1)"
    using New_ttl_pos [of time_Now flights parser options] assms(2) unfolding assms(1)
    by (simp_all add: New_def)
  show ?thesis
  proof (cases "fst (cacheTTLFor s item w)")
    case None
    with s show ?thesis
      by (auto simp: cacheTTLFor_def Let_def IsExpired_iff time_sub_nonpos_iff split: option.splits if_splits)
  next
    case (Some ttl)
    then obtain w' where run: "cacheTTLFor s item w = (Some ttl, w')" by (metis prod.collapse)
    have "\<not> IsExpired item now"
      using run s by (auto simp: cacheTTLFor_def Let_def IsExpired_iff time_sub_nonpos_iff split: if_splits)
    with cacheTTLFor_result [OF s(1) run] s(2) Some show ?thesis by auto
  qed
qed

text \<open>A service without caches, whose clock stands at 1000.\<close>

definition bare_service :: "unit Service" where
  "bare_service = New (\<lambda>w. (1000, w)) (\<lambda>c fn. fn) (\<lambda>raw. Inl (Errorf raw))
     \<lparr>op_Repository = \<lparr>re_Create = \<lambda>it w. (None, w), re_FindByCode = \<lambda>c w. (Inl ErrNotFound, w),
        re_FindActiveByCode = \<lambda>c w. (Inl ErrNotFound, w)\<rparr>,
      op_IDs = None, op_LocalCache = None, op_RedisCache = None,
      op_Filter = Some \<lparr>ef_Add = \<lambda>c w. (None, w), ef_MightContain = \<lambda>c w. (Inr False, w)\<rparr>,
      op_Cleaner = None, op_Domain = ''http://d/'', op_CacheTTL = 30\<rparr>"

lemma cache_ttl_bounds_witness:
  "fst (cacheTTLFor bare_service (zero_ShortLink\<lparr>sl_ExpireAt := Some 1060\<rparr>) ()) \<noteq> None"
proof -
  have "\<not> IsExpired (zero_ShortLink\<lparr>sl_ExpireAt := Some 1060\<rparr>) 1000"
    by (simp add: IsExpired_iff)
  with cache_ttl_bounds [OF bare_service_def refl, of "zero_ShortLink\<lparr>sl_ExpireAt := Some 1060\<rparr>"] show ?thesis
    by (auto split: option.splits)
qed

definition deny_all :: "unit ExistenceFilter" where
  "deny_all = \<lparr>ef_Add = \<lambda>c w. (None, w), ef_MightContain = \<lambda>c w. (Inr False, w)\<rparr>"

lemma service_refuses_early_witness:
  "Resolve bare_service [] () = (Inl ErrInvalidCode, ()) \<and> Resolve bare_service (NewShortCode 7) () = (Inl ErrNotFound, ()) \<and>
   CreateShortLink bare_service \<lparr>cr_LongURL = ''x'', cr_Domain = [], cr_ExpireAt = None\<rparr> () = Some (Inl ErrInvalidURL, ())"
proof -
  note law = service_refuses_early [where s = bare_service and w = "()" and ?w1.0 = "()" and f = deny_all]
  have "ValidateShortCode [] \<noteq> None"
    by (simp add: ValidateShortCode_def IDFromShortCode_eq TrimSpace_graphic)
  moreover have "ValidateShortCode (NewShortCode 7) = None" by simp
  moreover have "sv_filter bare_service = Some deny_all"
    by (simp add: bare_service_def New_def deny_all_def)
  moreover have "ef_MightContain deny_all (NewShortCode 7) () = (Inr False, ())"
    by (simp add: deny_all_def)
  moreover have "\<not> isValidLongURL (sv_ParseRequestURI bare_service) u" for u
    by (simp add: bare_service_def New_def isValidLongURL_def)
  ultimately show ?thesis
    using law [where code = "[]"] law [where code = "NewShortCode 7"] law [where req = "\<lparr>cr_LongURL = ''x'', cr_Domain = [], cr_ExpireAt = None\<rparr>"]
    by blast
qed

end
