(* ===== verification/Visit_Repo.thy ===== *)
theory Visit_Repo
  imports Base62 "HOL-Library.Multiset"
begin

text \<open>
  \<open>internal/infrastructure/mysql/visit_repository.go\<close>: the visit log and the daily statistics. gorm
  and MySQL are a parameter, one function per statement the repository sends; \<open>visit_laws\<close> are the
  laws of these statements and \<open>mem_visits\<close> is a server that satisfies them. A time carries no
  location: the process runs in a zone with the fixed offset \<open>zone\<close> from UTC.
\<close>

section \<open>Records (model.go)\<close>

record VisitLogRecord =
  vr_ID :: uint64
  vr_Code :: string
  vr_VisitedAt :: time
  vr_IP :: string
  vr_UserAgent :: string
  vr_Referer :: string

record DailyStatRecord =
  ds_ID :: uint64
  ds_Code :: string
  ds_StatDate :: time
  ds_PV :: uint64
  ds_UV :: uint64
  ds_CreatedAt :: time
  ds_UpdatedAt :: time

record refererStatRecord =
  rr_Referer :: string
  rr_PV :: uint64

section \<open>The database\<close>

text \<open>
  The statements: an insert of several rows, \<open>COUNT(*)\<close>, \<open>COUNT(DISTINCT ip)\<close>, the grouping by
  referer in descending order with a limit, and the two limited deletions, which return the affected
  rows beside an error. Conditions are functions on rows.
\<close>

record 'd visit_db =
  vd_text_eq :: "string \<Rightarrow> string \<Rightarrow> bool"
  vd_insert :: "VisitLogRecord list \<Rightarrow> 'd \<Rightarrow> go_error option \<times> 'd"
  vd_count :: "(VisitLogRecord \<Rightarrow> bool) \<Rightarrow> 'd \<Rightarrow> (int \<times> go_error option) \<times> 'd"
  vd_count_ips :: "(VisitLogRecord \<Rightarrow> bool) \<Rightarrow> 'd \<Rightarrow> (int \<times> go_error option) \<times> 'd"
  vd_group_referer :: "(VisitLogRecord \<Rightarrow> bool) \<Rightarrow> int \<Rightarrow> 'd \<Rightarrow> (go_error + refererStatRecord list) \<times> 'd"
  vd_delete_visits :: "(VisitLogRecord \<Rightarrow> bool) \<Rightarrow> int \<Rightarrow> 'd \<Rightarrow> (int \<times> go_error option) \<times> 'd"
  vd_delete_stats :: "(DailyStatRecord \<Rightarrow> bool) \<Rightarrow> int \<Rightarrow> 'd \<Rightarrow> (int \<times> go_error option) \<times> 'd"
  vd_now :: "'d \<Rightarrow> time \<times> 'd"

section \<open>The repository\<close>

definition visitLogToRecord :: "VisitLog \<Rightarrow> VisitLogRecord" where
  "visitLogToRecord visit =
     \<lparr>vr_ID = vl_ID visit, vr_Code = vl_Code visit, vr_VisitedAt = vl_VisitedAt visit, vr_IP = vl_IP visit,
      vr_UserAgent = vl_UserAgent visit, vr_Referer = vl_Referer visit\<rparr>"

definition Visit_CreateBatch :: "'d visit_db \<Rightarrow> VisitLog list \<Rightarrow> 'd \<Rightarrow> go_error option \<times> 'd" where
  "Visit_CreateBatch V visits d =
     (if visits = [] then (None, d) else vd_insert V (map visitLogToRecord visits) d)"

text \<open>The condition \<open>code = ?\<close> compares by the collation; \<open>uint64(count)\<close> converts modulo \<open>2 ^ 64\<close>.\<close>

definition has_code :: "'d visit_db \<Rightarrow> string \<Rightarrow> VisitLogRecord \<Rightarrow> bool" where
  "has_code V code r \<longleftrightarrow> vd_text_eq V (vr_Code r) code"

definition CountVisits :: "'d visit_db \<Rightarrow> string \<Rightarrow> 'd \<Rightarrow> (uint64 \<times> go_error option) \<times> 'd" where
  "CountVisits V code d =
     (case vd_count V (has_code V code) d of ((n, err), d1) \<Rightarrow> ((word_of_int n, err), d1))"

definition CountUniqueVisitors :: "'d visit_db \<Rightarrow> string \<Rightarrow> 'd \<Rightarrow> (uint64 \<times> go_error option) \<times> 'd" where
  "CountUniqueVisitors V code d =
     (case vd_count_ips V (has_code V code) d of ((n, err), d1) \<Rightarrow> ((word_of_int n, err), d1))"

text \<open>
  \<open>time.Date\<close> with the year, month and day of a time and nothing else: the midnight before it in the
  zone. Go's zero time is a midnight of UTC, so days are counted from it.
\<close>

definition midnight :: "duration \<Rightarrow> time \<Rightarrow> time" where
  "midnight zone t = (t + zone) div (24 * hour) * (24 * hour) - zone"

definition CountTodayVisits :: "duration \<Rightarrow> 'd visit_db \<Rightarrow> string \<Rightarrow> 'd \<Rightarrow> (uint64 \<times> go_error option) \<times> 'd" where
  "CountTodayVisits zone V code d =
     (case vd_now V d of
        (now, d1) \<Rightarrow>
          (let start = midnight zone now;
               end = start + 24 * hour
           in case vd_count V (\<lambda>r. has_code V code r \<and> start \<le> vr_VisitedAt r \<and> vr_VisitedAt r < end) d1 of
                ((n, err), d2) \<Rightarrow> ((word_of_int n, err), d2)))"

definition TopReferers ::
  "'d visit_db \<Rightarrow> string \<Rightarrow> int \<Rightarrow> 'd \<Rightarrow> (RefererStat list \<times> go_error option) \<times> 'd" where
  "TopReferers V code limit d =
     (case vd_group_referer V (\<lambda>r. has_code V code r \<and> \<not> vd_text_eq V (vr_Referer r) [])
             (if limit \<le> 0 then 10 else limit) d of
        (Inl err, d1) \<Rightarrow> (([], Some err), d1)
      | (Inr records, d1) \<Rightarrow>
          ((map (\<lambda>record. \<lparr>rs_Referer = rr_Referer record, rs_PV = rr_PV record\<rparr>) records, None), d1))"

definition DeleteVisitsBefore ::
  "'d visit_db \<Rightarrow> time \<Rightarrow> int \<Rightarrow> 'd \<Rightarrow> (int \<times> go_error option) \<times> 'd" where
  "DeleteVisitsBefore V before limit =
     vd_delete_visits V (\<lambda>r. vr_VisitedAt r < before) (if limit \<le> 0 then 1000 else limit)"

definition DeleteDailyStatsBefore ::
  "duration \<Rightarrow> 'd visit_db \<Rightarrow> time \<Rightarrow> int \<Rightarrow> 'd \<Rightarrow> (int \<times> go_error option) \<times> 'd" where
  "DeleteDailyStatsBefore zone V before limit =
     (let cutoffDate = midnight zone before
      in vd_delete_stats V (\<lambda>r. ds_StatDate r < cutoffDate) (if limit \<le> 0 then 1000 else limit))"

lemma div_same_iff:
  fixes v :: int
  assumes "0 < D"
  shows "v div D = n div D \<longleftrightarrow> n div D * D \<le> v \<and> v < n div D * D + D"
proof -
  have v: "v div D * D + v mod D = v" "0 \<le> v mod D" "v mod D < D" using assms by simp_all
  have "q * D \<le> v \<and> v < q * D + D" if "v div D = q" for q
    using v unfolding that by (metis add_increasing2 add_strict_left_mono order.refl)
  then show ?thesis
  proof (intro iffI)
    assume "v div D = n div D"
    with \<open>\<And>q. v div D = q \<Longrightarrow> q * D \<le> v \<and> v < q * D + D\<close> show "n div D * D \<le> v \<and> v < n div D * D + D" .
  next
    assume "n div D * D \<le> v \<and> v < n div D * D + D"
    then show "v div D = n div D"
      by (intro int_div_pos_eq [where r = "v - n div D * D"]) (simp_all add: mult.commute)
  qed
qed

lemma day_pos: "0 < 24 * hour"
  by (simp add: duration_defs)

lemma midnight_bounds: "midnight zone t \<le> t \<and> t < midnight zone t + 24 * hour"
  using div_same_iff [OF day_pos, of "t + zone" "t + zone"] unfolding midnight_def by linarith

section \<open>The laws of the statements\<close>

text \<open>
  \<open>vt d\<close> and \<open>st d\<close> are the rows of the two tables. Counting, grouping and reading the clock change
  neither. Groups: one entry for each referer of the rows, with the number of its rows, the largest
  numbers first; entries are missing only beyond the limit.
\<close>

definition referer_count :: "(string \<Rightarrow> string \<Rightarrow> bool) \<Rightarrow> VisitLogRecord set \<Rightarrow> string \<Rightarrow> nat" where
  "referer_count eqv S ref = card {r \<in> S. eqv (vr_Referer r) ref}"

definition ip_classes :: "(string \<Rightarrow> string \<Rightarrow> bool) \<Rightarrow> VisitLogRecord set \<Rightarrow> string set set" where
  "ip_classes eqv S = (\<lambda>r. {ip. eqv (vr_IP r) ip}) ` S"

definition grouped ::
  "(string \<Rightarrow> string \<Rightarrow> bool) \<Rightarrow> VisitLogRecord set \<Rightarrow> int \<Rightarrow> refererStatRecord list \<Rightarrow> bool" where
  "grouped eqv S n records \<longleftrightarrow>
     int (length records) \<le> n \<and>
     sorted_wrt (\<lambda>x y. \<not> eqv (rr_Referer x) (rr_Referer y) \<and>
       referer_count eqv S (rr_Referer y) \<le> referer_count eqv S (rr_Referer x)) records \<and>
     (\<forall>x \<in> set records. rr_Referer x \<in> vr_Referer ` S \<and>
        rr_PV x = of_nat (referer_count eqv S (rr_Referer x))) \<and>
     (\<forall>r \<in> S. (\<exists>x \<in> set records. eqv (rr_Referer x) (vr_Referer r)) \<or>
        int (length records) = n \<and>
        (\<forall>x \<in> set records. referer_count eqv S (vr_Referer r) \<le> referer_count eqv S (rr_Referer x)))"

definition limited_delete :: "'r set \<Rightarrow> ('r \<Rightarrow> bool) \<Rightarrow> int \<Rightarrow> int \<times> go_error option \<Rightarrow> 'r set \<Rightarrow> bool" where
  "limited_delete T P n res T' \<longleftrightarrow>
     T' \<subseteq> T \<and> (\<forall>r \<in> T - T'. P r) \<and>
     (snd res = None \<longrightarrow> fst res = int (card (T - T')) \<and> (fst res < n \<longrightarrow> (\<forall>r \<in> T'. \<not> P r)))"

definition visit_read_laws ::
  "('d \<Rightarrow> VisitLogRecord set) \<Rightarrow> ('d \<Rightarrow> DailyStatRecord set) \<Rightarrow> ('d \<Rightarrow> bool) \<Rightarrow> 'd visit_db \<Rightarrow> bool" where
  "visit_read_laws vt st ok V \<longleftrightarrow>
     (\<forall>P d n e d'. ok d \<longrightarrow> vd_count V P d = ((n, e), d') \<longrightarrow>
        ok d' \<and> vt d' = vt d \<and> st d' = st d \<and> (e = None \<longrightarrow> n = int (card {r \<in> vt d. P r}))) \<and>
     (\<forall>P d n e d'. ok d \<longrightarrow> vd_count_ips V P d = ((n, e), d') \<longrightarrow>
        ok d' \<and> vt d' = vt d \<and> st d' = st d \<and>
        (e = None \<longrightarrow> n = int (card (ip_classes (vd_text_eq V) {r \<in> vt d. P r})))) \<and>
     (\<forall>P n d v d'. ok d \<longrightarrow> vd_group_referer V P n d = (v, d') \<longrightarrow>
        ok d' \<and> vt d' = vt d \<and> st d' = st d \<and>
        (\<forall>records. v = Inr records \<longrightarrow> 0 < n \<longrightarrow> grouped (vd_text_eq V) {r \<in> vt d. P r} n records)) \<and>
     (\<forall>d t d'. ok d \<longrightarrow> vd_now V d = (t, d') \<longrightarrow> ok d' \<and> vt d' = vt d \<and> st d' = st d)"

text \<open>
  What an inserted row holds: \<open>visited_at\<close> is a \<open>DATETIME(3)\<close>, which MySQL rounds to milliseconds; the
  other columns are kept. An insertion that a column refuses (too long, not UTF-8) inserts no row.
\<close>

definition stored_visit :: "VisitLogRecord \<Rightarrow> VisitLogRecord \<Rightarrow> bool" where
  "stored_visit r r' \<longleftrightarrow>
     vr_ID r' = vr_ID r \<and> vr_Code r' = vr_Code r \<and> vr_IP r' = vr_IP r \<and> vr_UserAgent r' = vr_UserAgent r \<and>
     vr_Referer r' = vr_Referer r \<and> \<bar>vr_VisitedAt r' - vr_VisitedAt r\<bar> < millisecond"

definition stored_visits :: "VisitLogRecord list \<Rightarrow> VisitLogRecord set \<Rightarrow> bool" where
  "stored_visits rs S \<longleftrightarrow> (\<exists>rs'. list_all2 stored_visit rs rs' \<and> S = set rs')"

lemma stored_visit_refl [simp]: "stored_visit r r"
  by (simp add: stored_visit_def millisecond_def)

lemma stored_visits_same: "stored_visits rs (set rs)"
  unfolding stored_visits_def by (intro exI [of _ rs]) (simp add: list_all2_same)

lemma stored_visits_cover:
  assumes "stored_visits rs S"
  shows "r' \<in> S \<Longrightarrow> \<exists>r \<in> set rs. stored_visit r r'" and "r \<in> set rs \<Longrightarrow> \<exists>r' \<in> S. stored_visit r r'"
proof -
  obtain rs' where rs': "list_all2 stored_visit rs rs'" "S = set rs'" using assms by (auto simp: stored_visits_def)
  then show "r' \<in> S \<Longrightarrow> \<exists>r \<in> set rs. stored_visit r r'"
    by (metis in_set_conv_nth list_all2_conv_all_nth)
  from rs' show "r \<in> set rs \<Longrightarrow> \<exists>r' \<in> S. stored_visit r r'"
    by (metis in_set_conv_nth list_all2_conv_all_nth)
qed

definition visit_write_laws ::
  "('d \<Rightarrow> VisitLogRecord set) \<Rightarrow> ('d \<Rightarrow> DailyStatRecord set) \<Rightarrow> ('d \<Rightarrow> bool) \<Rightarrow> 'd visit_db \<Rightarrow> bool" where
  "visit_write_laws vt st ok V \<longleftrightarrow>
     (\<forall>rs d e d'. ok d \<longrightarrow> vd_insert V rs d = (e, d') \<longrightarrow>
        ok d' \<and> st d' = st d \<and>
        ((\<exists>S. stored_visits rs S \<and> vt d' = vt d \<union> S) \<or> e \<noteq> None \<and> vt d' = vt d)) \<and>
     (\<forall>P n d res d'. 0 < n \<longrightarrow> ok d \<longrightarrow> vd_delete_visits V P n d = (res, d') \<longrightarrow>
        ok d' \<and> st d' = st d \<and> limited_delete (vt d) P n res (vt d')) \<and>
     (\<forall>P n d res d'. 0 < n \<longrightarrow> ok d \<longrightarrow> vd_delete_stats V P n d = (res, d') \<longrightarrow>
        ok d' \<and> vt d' = vt d \<and> limited_delete (st d) P n res (st d'))"

definition visit_laws ::
  "('d \<Rightarrow> VisitLogRecord set) \<Rightarrow> ('d \<Rightarrow> DailyStatRecord set) \<Rightarrow> ('d \<Rightarrow> bool) \<Rightarrow> 'd visit_db \<Rightarrow> bool" where
  "visit_laws vt st ok V \<longleftrightarrow>
     equivp (vd_text_eq V) \<and> (\<forall>d. ok d \<longrightarrow> finite (vt d) \<and> finite (st d)) \<and>
     visit_read_laws vt st ok V \<and> visit_write_laws vt st ok V"

lemma visit_lawsD:
  assumes "visit_laws vt st ok V"
  shows "equivp (vd_text_eq V)" and "ok d \<Longrightarrow> finite (vt d) \<and> finite (st d)"
    and "visit_read_laws vt st ok V" and "visit_write_laws vt st ok V"
  using assms by (simp_all add: visit_laws_def)

lemma count_done:
  assumes "visit_laws vt st ok V" and "ok d"
  shows "vd_count V P d = ((n, e), d') \<Longrightarrow>
      ok d' \<and> vt d' = vt d \<and> st d' = st d \<and> (e = None \<longrightarrow> n = int (card {r \<in> vt d. P r}))"
    and "vd_count_ips V P d = ((n, e), d') \<Longrightarrow>
      ok d' \<and> vt d' = vt d \<and> st d' = st d \<and>
      (e = None \<longrightarrow> n = int (card (ip_classes (vd_text_eq V) {r \<in> vt d. P r})))"
    and "vd_group_referer V P k d = (v, d') \<Longrightarrow>
      ok d' \<and> vt d' = vt d \<and> st d' = st d \<and>
      (\<forall>records. v = Inr records \<longrightarrow> 0 < k \<longrightarrow> grouped (vd_text_eq V) {r \<in> vt d. P r} k records)"
    and "vd_now V d = (t, d') \<Longrightarrow> ok d' \<and> vt d' = vt d \<and> st d' = st d"
proof -
  note L = visit_lawsD(3) [OF assms(1), unfolded visit_read_laws_def]
  note L1 = L [THEN conjunct1, THEN spec, THEN spec, THEN spec, THEN spec, THEN spec, THEN mp, OF assms(2), THEN mp]
  note L2 = L [THEN conjunct2, THEN conjunct1, THEN spec, THEN spec, THEN spec, THEN spec, THEN spec, THEN mp, OF assms(2), THEN mp]
  note L3 = L [THEN conjunct2, THEN conjunct2, THEN conjunct1, THEN spec, THEN spec, THEN spec, THEN spec, THEN spec, THEN mp, OF assms(2), THEN mp]
  note L4 = L [THEN conjunct2, THEN conjunct2, THEN conjunct2, THEN spec, THEN spec, THEN spec, THEN mp, OF assms(2), THEN mp]
  show "vd_count V P d = ((n, e), d') \<Longrightarrow>
      ok d' \<and> vt d' = vt d \<and> st d' = st d \<and> (e = None \<longrightarrow> n = int (card {r \<in> vt d. P r}))"
    by (rule L1)
  show "vd_count_ips V P d = ((n, e), d') \<Longrightarrow>
      ok d' \<and> vt d' = vt d \<and> st d' = st d \<and>
      (e = None \<longrightarrow> n = int (card (ip_classes (vd_text_eq V) {r \<in> vt d. P r})))"
    by (rule L2)
  show "vd_group_referer V P k d = (v, d') \<Longrightarrow>
      ok d' \<and> vt d' = vt d \<and> st d' = st d \<and>
      (\<forall>records. v = Inr records \<longrightarrow> 0 < k \<longrightarrow> grouped (vd_text_eq V) {r \<in> vt d. P r} k records)"
    by (rule L3)
  show "vd_now V d = (t, d') \<Longrightarrow> ok d' \<and> vt d' = vt d \<and> st d' = st d"
    by (rule L4)
qed

lemma visit_write_done:
  assumes "visit_laws vt st ok V" and "ok d"
  shows "vd_insert V rs d = (e, d') \<Longrightarrow> ok d' \<and> st d' = st d \<and>
      ((\<exists>S. stored_visits rs S \<and> vt d' = vt d \<union> S) \<or> e \<noteq> None \<and> vt d' = vt d)"
    and "0 < n \<Longrightarrow> vd_delete_visits V P n d = (res, d') \<Longrightarrow>
      ok d' \<and> st d' = st d \<and> limited_delete (vt d) P n res (vt d')"
    and "0 < n \<Longrightarrow> vd_delete_stats V Q n d = (res, d') \<Longrightarrow>
      ok d' \<and> vt d' = vt d \<and> limited_delete (st d) Q n res (st d')"
proof -
  note L = visit_lawsD(4) [OF assms(1), unfolded visit_write_laws_def]
  note L1 = L [THEN conjunct1, THEN spec, THEN spec, THEN spec, THEN spec, THEN mp, OF assms(2), THEN mp]
  note L2 = L [THEN conjunct2, THEN conjunct1, THEN spec, THEN spec, THEN spec, THEN spec, THEN spec, THEN mp, THEN mp, OF _ assms(2), THEN mp]
  note L3 = L [THEN conjunct2, THEN conjunct2, THEN spec, THEN spec, THEN spec, THEN spec, THEN spec, THEN mp, THEN mp, OF _ assms(2), THEN mp]
  show "vd_insert V rs d = (e, d') \<Longrightarrow> ok d' \<and> st d' = st d \<and>
      ((\<exists>S. stored_visits rs S \<and> vt d' = vt d \<union> S) \<or> e \<noteq> None \<and> vt d' = vt d)"
    by (rule L1)
  show "0 < n \<Longrightarrow> vd_delete_visits V P n d = (res, d') \<Longrightarrow>
      ok d' \<and> st d' = st d \<and> limited_delete (vt d) P n res (vt d')"
    by (rule L2)
  show "0 < n \<Longrightarrow> vd_delete_stats V Q n d = (res, d') \<Longrightarrow>
      ok d' \<and> vt d' = vt d \<and> limited_delete (st d) Q n res (st d')"
    by (rule L3)
qed

section \<open>What the repository computes\<close>

text \<open>The visits of a code, and those of the current day.\<close>

definition visits_of :: "'d visit_db \<Rightarrow> string \<Rightarrow> VisitLogRecord set \<Rightarrow> VisitLogRecord set" where
  "visits_of V code T = {r \<in> T. vd_text_eq V (vr_Code r) code}"

lemma CountVisits_result:
  assumes "visit_laws vt st ok V" and "ok d" and "CountVisits V code d = ((n, e), d')"
  shows "ok d' \<and> vt d' = vt d \<and> st d' = st d \<and> (e = None \<longrightarrow> n = of_nat (card (visits_of V code (vt d))))"
proof -
  obtain m d1 where "vd_count V (has_code V code) d = ((m, e), d1)" and "n = word_of_int m" "d' = d1"
    using assms(3) by (auto simp: CountVisits_def split: prod.splits)
  with count_done(1) [OF assms(1,2), of "has_code V code" m e d'] show ?thesis
    unfolding visits_of_def has_code_def by (simp only: of_int_of_nat_eq simp_thms) simp
qed

lemma CountUniqueVisitors_result:
  assumes "visit_laws vt st ok V" and "ok d" and "CountUniqueVisitors V code d = ((n, e), d')"
  shows "ok d' \<and> vt d' = vt d \<and> st d' = st d \<and>
    (e = None \<longrightarrow> n = of_nat (card (ip_classes (vd_text_eq V) (visits_of V code (vt d)))))"
proof -
  obtain m d1 where "vd_count_ips V (has_code V code) d = ((m, e), d1)" and "n = word_of_int m" "d' = d1"
    using assms(3) by (auto simp: CountUniqueVisitors_def split: prod.splits)
  with count_done(2) [OF assms(1,2), of "has_code V code" m e d'] show ?thesis
    unfolding visits_of_def has_code_def by (simp only: of_int_of_nat_eq simp_thms) simp
qed

definition on_day :: "duration \<Rightarrow> time \<Rightarrow> VisitLogRecord \<Rightarrow> bool" where
  "on_day zone now r \<longleftrightarrow> midnight zone (vr_VisitedAt r) = midnight zone now"

text \<open>The interval of the query is the day.\<close>

lemma on_day_iff:
  "on_day zone now r \<longleftrightarrow>
     midnight zone now \<le> vr_VisitedAt r \<and> vr_VisitedAt r < midnight zone now + 24 * hour"
proof -
  let ?v = "vr_VisitedAt r + zone" and ?n = "now + zone"
  have "midnight zone (vr_VisitedAt r) = midnight zone now \<longleftrightarrow> ?v div (24 * hour) = ?n div (24 * hour)"
    using day_pos by (simp add: midnight_def)
  with div_same_iff [OF day_pos, of ?v ?n] show ?thesis unfolding on_day_def midnight_def by linarith
qed

lemma CountTodayVisits_result:
  assumes "visit_laws vt st ok V" and "ok d" and "CountTodayVisits zone V code d = ((n, e), d')"
  shows "ok d' \<and> vt d' = vt d \<and> st d' = st d \<and>
    (e = None \<longrightarrow> n = of_nat (card {r \<in> visits_of V code (vt d). on_day zone (fst (vd_now V d)) r}))"
proof -
  obtain now d1 where now: "vd_now V d = (now, d1)" by fastforce
  note d1 = count_done(4) [OF assms(1,2) now]
  obtain m where "vd_count V (\<lambda>r. has_code V code r \<and> midnight zone now \<le> vr_VisitedAt r \<and>
      vr_VisitedAt r < midnight zone now + 24 * hour) d1 = ((m, e), d')" and "n = word_of_int m"
    using assms(3) now by (auto simp: CountTodayVisits_def Let_def split: prod.splits)
  moreover have "{r \<in> vt d. has_code V code r \<and> midnight zone now \<le> vr_VisitedAt r \<and>
      vr_VisitedAt r < midnight zone now + 24 * hour} = {r \<in> visits_of V code (vt d). on_day zone now r}"
    by (auto simp: visits_of_def has_code_def on_day_iff)
  ultimately show ?thesis
    using count_done(1) [OF assms(1) conjunct1 [OF d1], of "\<lambda>r. has_code V code r \<and> midnight zone now \<le> vr_VisitedAt r \<and>
      vr_VisitedAt r < midnight zone now + 24 * hour" m e d'] d1 now by simp
qed

lemma TopReferers_result:
  assumes "visit_laws vt st ok V" and "ok d" and "TopReferers V code k d = ((refs, e), d')"
  shows "ok d' \<and> vt d' = vt d \<and> st d' = st d \<and>
    (e = None \<longrightarrow> (\<exists>records. refs = map (\<lambda>x. \<lparr>rs_Referer = rr_Referer x, rs_PV = rr_PV x\<rparr>) records \<and>
      grouped (vd_text_eq V) {r \<in> visits_of V code (vt d). \<not> vd_text_eq V (vr_Referer r) []}
        (if k \<le> 0 then 10 else k) records))"
proof -
  let ?k = "if k \<le> 0 then 10 else k"
  obtain v where run: "vd_group_referer V (\<lambda>r. has_code V code r \<and> \<not> vd_text_eq V (vr_Referer r) []) ?k d = (v, d')"
    and res: "(refs, e) = (case v of Inl err \<Rightarrow> ([], Some err)
      | Inr records \<Rightarrow> (map (\<lambda>x. \<lparr>rs_Referer = rr_Referer x, rs_PV = rr_PV x\<rparr>) records, None))"
    using assms(3) by (auto simp: TopReferers_def split: prod.splits sum.splits)
  have "{r \<in> vt d. has_code V code r \<and> \<not> vd_text_eq V (vr_Referer r) []} =
      {r \<in> visits_of V code (vt d). \<not> vd_text_eq V (vr_Referer r) []}"
    by (auto simp: visits_of_def has_code_def)
  with count_done(3) [OF assms(1,2) run] have "ok d' \<and> vt d' = vt d \<and> st d' = st d \<and>
      (\<forall>records. v = Inr records \<longrightarrow>
        grouped (vd_text_eq V) {r \<in> visits_of V code (vt d). \<not> vd_text_eq V (vr_Referer r) []} ?k records)"
    by simp
  with res show ?thesis by (cases v) (simp_all only: sum.case prod.inject, blast+)
qed

section \<open>A database in memory\<close>

text \<open>A server that keeps both tables in lists, compares bytes and fails only for a duplicate id.\<close>

record mem_visits =
  mv_visits :: "VisitLogRecord list"
  mv_stats :: "DailyStatRecord list"
  mv_now :: time

definition limited :: "('r \<Rightarrow> bool) \<Rightarrow> int \<Rightarrow> 'r list \<Rightarrow> 'r list" where
  "limited P n rows = take (nat n) (filter P rows)"

definition without :: "'r list \<Rightarrow> 'r list \<Rightarrow> 'r list" where
  "without gone rows = filter (\<lambda>r. r \<notin> set gone) rows"

definition mem_groups :: "VisitLogRecord list \<Rightarrow> string list" where
  "mem_groups rows =
     sort_key (\<lambda>ref. - int (length (filter (\<lambda>r. vr_Referer r = ref) rows))) (remdups (map vr_Referer rows))"

definition mem_visit_db :: "mem_visits visit_db" where
  "mem_visit_db = \<lparr>
     vd_text_eq = (=),
     vd_insert = (\<lambda>rs d. if distinct (map vr_ID (mv_visits d @ rs)) then (None, d\<lparr>mv_visits := mv_visits d @ rs\<rparr>)
                         else (Some (Errorf ''Duplicate entry''), d)),
     vd_count = (\<lambda>P d. ((int (length (filter P (mv_visits d))), None), d)),
     vd_count_ips = (\<lambda>P d. ((int (length (remdups (map vr_IP (filter P (mv_visits d))))), None), d)),
     vd_group_referer = (\<lambda>P n d. (let rows = filter P (mv_visits d) in
        (Inr (take (nat n) (map (\<lambda>ref. \<lparr>rr_Referer = ref,
           rr_PV = of_nat (length (filter (\<lambda>r. vr_Referer r = ref) rows))\<rparr>) (mem_groups rows))), d))),
     vd_delete_visits = (\<lambda>P n d. let gone = limited P n (mv_visits d) in
        ((int (length gone), None), d\<lparr>mv_visits := without gone (mv_visits d)\<rparr>)),
     vd_delete_stats = (\<lambda>P n d. let gone = limited P n (mv_stats d) in
        ((int (length gone), None), d\<lparr>mv_stats := without gone (mv_stats d)\<rparr>)),
     vd_now = (\<lambda>d. (mv_now d, d))\<rparr>"

definition mem_visits_ok :: "mem_visits \<Rightarrow> bool" where
  "mem_visits_ok d \<longleftrightarrow> distinct (map vr_ID (mv_visits d)) \<and> distinct (mv_stats d)"

lemma length_filter_card: "distinct rows \<Longrightarrow> length (filter P rows) = card {r \<in> set rows. P r}"
  by (metis distinct_card distinct_filter set_filter)

lemma limited_delete_without:
  assumes "distinct rows"
  shows "limited_delete (set rows) P n (int (length (limited P n rows)), None) (set (without (limited P n rows) rows))"
proof -
  let ?gone = "limited P n rows"
  have gone: "set ?gone \<subseteq> {r \<in> set rows. P r}" unfolding limited_def by (auto dest: in_set_takeD)
  then have diff: "set rows - set (without ?gone rows) = set ?gone" by (auto simp: without_def)
  have "card (set ?gone) = length ?gone"
    using assms by (intro distinct_card) (simp add: limited_def)
  moreover have "set ?gone = {r \<in> set rows. P r}" if "int (length ?gone) < n"
  proof -
    have "length (filter P rows) \<le> nat n" using that by (auto simp: limited_def)
    then show ?thesis by (simp add: limited_def)
  qed
  ultimately show ?thesis using gone unfolding limited_delete_def diff
    by (auto simp: without_def)
qed

lemma mem_grouped:
  assumes "distinct rows"
  shows "0 < n \<Longrightarrow> grouped (=) (set rows) n (take (nat n) (map (\<lambda>ref. \<lparr>rr_Referer = ref,
    rr_PV = of_nat (length (filter (\<lambda>r. vr_Referer r = ref) rows))\<rparr>) (mem_groups rows)))"
proof -
  assume n: "0 < n"
  let ?c = "\<lambda>ref. length (filter (\<lambda>r. vr_Referer r = ref) rows)"
  let ?rec = "\<lambda>ref. \<lparr>rr_Referer = ref, rr_PV = of_nat (?c ref)\<rparr> :: refererStatRecord"
  let ?refs = "mem_groups rows" and ?k = "nat n"
  have cnt: "referer_count (=) (set rows) ref = ?c ref" for ref
    using length_filter_card [OF assms] by (simp add: referer_count_def)
  have dist: "distinct ?refs" and refs: "set ?refs = vr_Referer ` set rows" by (simp_all add: mem_groups_def)
  have sorted: "sorted_wrt (\<lambda>x y. ?c y \<le> ?c x) ?refs"
    using sorted_sort_key [of "\<lambda>ref. - int (?c ref)" "remdups (map vr_Referer rows)"]
    unfolding mem_groups_def sorted_map by (simp add: sorted_wrt_map)
  have "sorted_wrt (\<lambda>x y. x \<noteq> y \<and> ?c y \<le> ?c x) ?refs"
    using sorted dist by (auto simp: sorted_wrt_iff_nth_less nth_eq_iff_index_eq)
  then have "sorted_wrt (\<lambda>x y. x \<noteq> y \<and> ?c y \<le> ?c x) (take ?k ?refs @ drop ?k ?refs)" by simp
  note parts = this [unfolded sorted_wrt_append]
  have set_refs: "set (take ?k ?refs) \<union> set (drop ?k ?refs) = vr_Referer ` set rows"
    using refs by (metis append_take_drop_id set_append)
  have "\<exists>x \<in> set (take ?k ?refs). x = vr_Referer r" if "vr_Referer r \<in> set (take ?k ?refs)" for r
    using that by blast
  moreover have "length (take ?k ?refs) = ?k" if "vr_Referer r \<in> set (drop ?k ?refs)" for r
    using that by (cases "length ?refs \<le> ?k") auto
  ultimately have rest: "(\<exists>x \<in> set (take ?k ?refs). x = vr_Referer r) \<or>
      int (length (take ?k ?refs)) = n \<and> (\<forall>x \<in> set (take ?k ?refs). ?c (vr_Referer r) \<le> ?c x)" if "r \<in> set rows" for r
  proof -
    have "vr_Referer r \<in> set (take ?k ?refs) \<union> set (drop ?k ?refs)" using that set_refs by simp
    with parts n \<open>\<And>r. vr_Referer r \<in> set (drop ?k ?refs) \<Longrightarrow> length (take ?k ?refs) = ?k\<close> show ?thesis by fastforce
  qed
  have "int (length (take ?k ?refs)) \<le> n" using n by simp
  moreover have "sorted_wrt (\<lambda>x y. rr_Referer x \<noteq> rr_Referer y \<and>
      referer_count (=) (set rows) (rr_Referer y) \<le> referer_count (=) (set rows) (rr_Referer x)) (map ?rec (take ?k ?refs))"
    using parts by (simp add: sorted_wrt_map cnt)
  moreover have "rr_Referer x \<in> vr_Referer ` set rows \<and> rr_PV x = of_nat (referer_count (=) (set rows) (rr_Referer x))"
    if "x \<in> set (map ?rec (take ?k ?refs))" for x
    using that set_refs by (auto simp: cnt)
  ultimately show ?thesis
    unfolding grouped_def take_map cnt using rest by (simp only: length_map) auto
qed

lemma mem_visit_laws: "visit_laws (\<lambda>d. set (mv_visits d)) (\<lambda>d. set (mv_stats d)) mem_visits_ok mem_visit_db"
proof -
  let ?vt = "\<lambda>d. set (mv_visits d)" and ?st = "\<lambda>d. set (mv_stats d)"
  have dist: "distinct (mv_visits d)" "distinct (mv_stats d)" if "mem_visits_ok d" for d
    using that by (auto simp: mem_visits_ok_def distinct_map)
  have reads: "visit_read_laws ?vt ?st mem_visits_ok mem_visit_db"
    unfolding visit_read_laws_def
  proof (intro conjI allI impI, goal_cases)
    case (8 P d n e d')
    have "ip_classes (=) S = (\<lambda>ip. {ip}) ` vr_IP ` S" for S by (auto simp: ip_classes_def image_image)
    then have "card (ip_classes (=) S) = card (vr_IP ` S)" for S by (simp add: card_image)
    with 8 show ?case by (auto simp: mem_visit_db_def List.card_set [symmetric])
  next
    case (12 P n d v d' records)
    with mem_grouped [of "filter P (mv_visits d)" n] dist(1) [OF 12(1)] show ?case
      by (auto simp: mem_visit_db_def Let_def)
  qed (auto simp: mem_visit_db_def Let_def length_filter_card dist)
  have writes: "visit_write_laws ?vt ?st mem_visits_ok mem_visit_db"
    unfolding visit_write_laws_def
  proof (intro conjI allI impI, goal_cases)
    case (6 P n d res d')
    with limited_delete_without [OF dist(1) [OF 6(2)], of P n] show ?case
      by (auto simp: mem_visit_db_def Let_def)
  next
    case (9 P n d res d')
    with limited_delete_without [OF dist(2) [OF 9(2)], of P n] show ?case
      by (auto simp: mem_visit_db_def Let_def)
  next
    case (3 rs d e d')
    then show ?case
      using stored_visits_same [of rs] by (auto simp: mem_visit_db_def split: if_splits)
  qed (auto simp: mem_visit_db_def Let_def mem_visits_ok_def without_def distinct_map_filter split: if_splits)
  show ?thesis
    unfolding visit_laws_def using reads writes by (simp add: mem_visit_db_def identity_equivp)
qed

end
