(* ===== verification/Stat_Service.thy ===== *)
theory Stat_Service
  imports Visit_Repo
begin

text \<open>
  \<open>internal/app/statapp/service.go\<close>: the statistics of one code. Four goroutines ask the repository
  at the same time; \<open>order\<close> is the order in which their queries take effect, each with what other
  processes (the recorder, the cleanup) do to the database before it, and the group returns the first
  error in that order.
\<close>

section \<open>The service\<close>

record 'd StatsRepository =
  st_CountVisits :: "string \<Rightarrow> 'd \<Rightarrow> (uint64 \<times> go_error option) \<times> 'd"
  st_CountUniqueVisitors :: "string \<Rightarrow> 'd \<Rightarrow> (uint64 \<times> go_error option) \<times> 'd"
  st_CountTodayVisits :: "string \<Rightarrow> 'd \<Rightarrow> (uint64 \<times> go_error option) \<times> 'd"
  st_TopReferers :: "string \<Rightarrow> int \<Rightarrow> 'd \<Rightarrow> (RefererStat list \<times> go_error option) \<times> 'd"

record 'd StatService =
  ss_repo :: "'d StatsRepository"
  ss_now :: "'d \<Rightarrow> time \<times> 'd"

definition NewService :: "('d \<Rightarrow> time \<times> 'd) \<Rightarrow> 'd StatsRepository \<Rightarrow> 'd StatService" where
  "NewService time_Now repo = \<lparr>ss_repo = repo, ss_now = time_Now\<rparr>"

datatype stat_call = Call_PV | Call_UV | Call_Today | Call_Referers

definition zero_LinkStats :: LinkStats where
  "zero_LinkStats = \<lparr>ls_Code = [], ls_PV = 0, ls_UV = 0, ls_TodayPV = 0, ls_Referers = [], ls_UpdatedAt = zero_time\<rparr>"

text \<open>The function of one goroutine: it stores the result even when there is an error.\<close>

definition run_call ::
  "'d StatsRepository \<Rightarrow> string \<Rightarrow> stat_call \<Rightarrow> LinkStats \<Rightarrow> 'd \<Rightarrow> go_error option \<times> LinkStats \<times> 'd" where
  "run_call repo code q stats d =
     (case q of
        Call_PV \<Rightarrow> (case st_CountVisits repo code d of ((pv, err), d1) \<Rightarrow> (err, stats\<lparr>ls_PV := pv\<rparr>, d1))
      | Call_UV \<Rightarrow> (case st_CountUniqueVisitors repo code d of ((uv, err), d1) \<Rightarrow> (err, stats\<lparr>ls_UV := uv\<rparr>, d1))
      | Call_Today \<Rightarrow>
          (case st_CountTodayVisits repo code d of ((today, err), d1) \<Rightarrow> (err, stats\<lparr>ls_TodayPV := today\<rparr>, d1))
      | Call_Referers \<Rightarrow>
          (case st_TopReferers repo code 10 d of
             ((referers, err), d1) \<Rightarrow> (err, stats\<lparr>ls_Referers := referers\<rparr>, d1)))"

fun run_group ::
  "'d StatsRepository \<Rightarrow> string \<Rightarrow> (('d \<Rightarrow> 'd) \<times> stat_call) list \<Rightarrow> LinkStats \<Rightarrow> 'd \<Rightarrow> go_error option \<times> LinkStats \<times> 'd" where
  "run_group repo code [] stats d = (None, stats, d)"
| "run_group repo code ((others, q) # qs) stats d =
     (case run_call repo code q stats (others d) of
        (err, stats1, d1) \<Rightarrow>
          (case run_group repo code qs stats1 d1 of
             (err', stats2, d2) \<Rightarrow> ((case err of None \<Rightarrow> err' | Some e \<Rightarrow> Some e), stats2, d2)))"

definition GetLinkStats ::
  "'d StatService \<Rightarrow> (('d \<Rightarrow> 'd) \<times> stat_call) list \<Rightarrow> string \<Rightarrow> 'd \<Rightarrow> (go_error + LinkStats) \<times> 'd" where
  "GetLinkStats s order code d =
     (case ValidateShortCode code of
        Some err \<Rightarrow> (Inl err, d)
      | None \<Rightarrow>
          (case run_group (ss_repo s) code order (zero_LinkStats\<lparr>ls_Code := code\<rparr>) d of
             (Some err, stats, d1) \<Rightarrow> (Inl err, d1)
           | (None, stats, d1) \<Rightarrow>
               (case ss_now s d1 of (now, d2) \<Rightarrow> (Inr (stats\<lparr>ls_UpdatedAt := now\<rparr>), d2))))"

text \<open>The service as \<open>cmd/statsvc\<close> builds it, over the repository of visits.\<close>

definition visit_stats :: "duration \<Rightarrow> 'd visit_db \<Rightarrow> 'd StatsRepository" where
  "visit_stats zone V = \<lparr>st_CountVisits = CountVisits V, st_CountUniqueVisitors = CountUniqueVisitors V,
     st_CountTodayVisits = CountTodayVisits zone V, st_TopReferers = TopReferers V\<rparr>"

section \<open>What the statistics say\<close>

text \<open>
  \<open>answered\<close>: the field of a call holds what the call is to find out in the state \<open>d\<close>, in which it was
  asked; \<open>asked_in\<close> is that state.
\<close>

definition answered :: "duration \<Rightarrow> 'd visit_db \<Rightarrow> string \<Rightarrow> ('d \<Rightarrow> VisitLogRecord set) \<Rightarrow> 'd \<Rightarrow> LinkStats \<Rightarrow> stat_call \<Rightarrow> bool" where
  "answered zone V code vt d stats q \<longleftrightarrow>
     (let T = visits_of V code (vt d)
      in case q of
        Call_PV \<Rightarrow> ls_PV stats = of_nat (card T)
      | Call_UV \<Rightarrow> ls_UV stats = of_nat (card (ip_classes (vd_text_eq V) T))
      | Call_Today \<Rightarrow> ls_TodayPV stats = of_nat (card {r \<in> T. on_day zone (fst (vd_now V d)) r})
      | Call_Referers \<Rightarrow>
          (\<exists>records. ls_Referers stats = map (\<lambda>x. \<lparr>rs_Referer = rr_Referer x, rs_PV = rr_PV x\<rparr>) records \<and>
            grouped (vd_text_eq V) {r \<in> T. \<not> vd_text_eq V (vr_Referer r) []} 10 records))"

fun asked_in :: "'d StatsRepository \<Rightarrow> string \<Rightarrow> (('d \<Rightarrow> 'd) \<times> stat_call) list \<Rightarrow> 'd \<Rightarrow> stat_call \<Rightarrow> 'd" where
  "asked_in repo code [] d p = d"
| "asked_in repo code ((others, q) # qs) d p =
     (if p = q then others d else asked_in repo code qs (snd (snd (run_call repo code q zero_LinkStats (others d)))) p)"

lemma run_call_state: "snd (snd (run_call repo code q stats d)) = snd (snd (run_call repo code q stats' d))"
  by (cases q) (simp_all add: run_call_def split: prod.splits)

lemma run_call_result:
  assumes "visit_laws vt st ok V" and "ok d" and "run_call (visit_stats zone V) code q stats d = (err, stats', d')"
  shows "ok d' \<and> vt d' = vt d \<and> st d' = st d \<and> ls_Code stats' = ls_Code stats \<and>
    (err = None \<longrightarrow> answered zone V code vt d stats' q) \<and>
    (\<forall>p x. p \<noteq> q \<and> answered zone V code vt x stats p \<longrightarrow> answered zone V code vt x stats' p)"
proof (cases q)
  case Call_PV
  then obtain n where run: "CountVisits V code d = ((n, err), d')" and "stats' = stats\<lparr>ls_PV := n\<rparr>"
    using assms(3) by (auto simp: run_call_def visit_stats_def split: prod.splits)
  with CountVisits_result [OF assms(1,2) run] Call_PV show ?thesis
    by (auto simp: answered_def Let_def split: stat_call.splits)
next
  case Call_UV
  then obtain n where run: "CountUniqueVisitors V code d = ((n, err), d')" and "stats' = stats\<lparr>ls_UV := n\<rparr>"
    using assms(3) by (auto simp: run_call_def visit_stats_def split: prod.splits)
  with CountUniqueVisitors_result [OF assms(1,2) run] Call_UV show ?thesis
    by (auto simp: answered_def Let_def split: stat_call.splits)
next
  case Call_Today
  then obtain n where run: "CountTodayVisits zone V code d = ((n, err), d')" and "stats' = stats\<lparr>ls_TodayPV := n\<rparr>"
    using assms(3) by (auto simp: run_call_def visit_stats_def split: prod.splits)
  with CountTodayVisits_result [OF assms(1,2) run] Call_Today show ?thesis
    by (auto simp: answered_def Let_def split: stat_call.splits)
next
  case Call_Referers
  then obtain refs where run: "TopReferers V code 10 d = ((refs, err), d')" and "stats' = stats\<lparr>ls_Referers := refs\<rparr>"
    using assms(3) by (auto simp: run_call_def visit_stats_def split: prod.splits)
  with TopReferers_result [OF assms(1,2) run] Call_Referers show ?thesis
    by (auto simp: answered_def Let_def split: stat_call.splits)
qed

text \<open>What the others do leaves the server legal; \<open>undisturbed\<close>: it also leaves both tables as they are.\<close>

definition legal_order :: "('d \<Rightarrow> bool) \<Rightarrow> (('d \<Rightarrow> 'd) \<times> stat_call) list \<Rightarrow> bool" where
  "legal_order ok order \<longleftrightarrow> (\<forall>(others, q) \<in> set order. \<forall>d. ok d \<longrightarrow> ok (others d))"

definition undisturbed ::
  "('d \<Rightarrow> VisitLogRecord set) \<Rightarrow> ('d \<Rightarrow> DailyStatRecord set) \<Rightarrow> ('d \<Rightarrow> bool) \<Rightarrow> (('d \<Rightarrow> 'd) \<times> stat_call) list \<Rightarrow> bool" where
  "undisturbed vt st ok order \<longleftrightarrow>
     (\<forall>(others, q) \<in> set order. \<forall>d. ok d \<longrightarrow> vt (others d) = vt d \<and> st (others d) = st d)"

lemma run_group_result:
  assumes "visit_laws vt st ok V"
  shows "ok d \<Longrightarrow> legal_order ok order \<Longrightarrow> distinct (map snd order) \<Longrightarrow>
    run_group (visit_stats zone V) code order stats d = (err, stats', d') \<Longrightarrow>
    ok d' \<and> ls_Code stats' = ls_Code stats \<and>
    (undisturbed vt st ok order \<longrightarrow> vt d' = vt d \<and> st d' = st d \<and>
      (\<forall>p. vt (asked_in (visit_stats zone V) code order d p) = vt d)) \<and>
    (err = None \<longrightarrow> (\<forall>p \<in> snd ` set order. answered zone V code vt (asked_in (visit_stats zone V) code order d p) stats' p)) \<and>
    (\<forall>p x. p \<notin> snd ` set order \<and> answered zone V code vt x stats p \<longrightarrow> answered zone V code vt x stats' p)"
proof (induction order arbitrary: stats d err)
  case Nil
  then show ?case by simp
next
  case (Cons fq order)
  obtain f q where fq: "fq = (f, q)" by (cases fq)
  let ?R = "visit_stats zone V"
  obtain e1 stats1 d1 where one: "run_call ?R code q stats (f d) = (e1, stats1, d1)" by (metis prod.collapse)
  obtain e2 where rest: "run_group ?R code order stats1 d1 = (e2, stats', d')"
    and err: "err = (case e1 of None \<Rightarrow> e2 | Some e \<Rightarrow> Some e)"
    using Cons.prems(4) one by (auto simp: fq split: prod.splits)
  have ok: "ok (f d)" using Cons.prems(1,2) by (simp add: legal_order_def fq)
  note first = run_call_result [OF assms ok one]
  have legal: "legal_order ok order" "distinct (map snd order)" "q \<notin> snd ` set order"
    using Cons.prems(2,3) by (simp_all add: legal_order_def fq)
  have d1: "snd (snd (run_call ?R code q zero_LinkStats (f d))) = d1"
    using run_call_state [of ?R code q zero_LinkStats "f d" stats] one by simp
  note IH = Cons.IH [OF _ legal(1,2) rest]
  have ans: "answered zone V code vt (asked_in ?R code (fq # order) d p) stats' p" if "err = None" "p \<in> snd ` set (fq # order)" for p
  proof (cases "p = q")
    case True
    with first IH legal(3) err that(1) show ?thesis by (auto simp: fq split: option.splits)
  next
    case False
    with IH first err that show ?thesis by (auto simp: fq d1 split: option.splits)
  qed
  have same: "vt d' = vt d \<and> st d' = st d \<and> (\<forall>p. vt (asked_in ?R code (fq # order) d p) = vt d)"
    if "undisturbed vt st ok (fq # order)"
  proof -
    from that have "undisturbed vt st ok order" and others: "vt (f d) = vt d \<and> st (f d) = st d"
      using Cons.prems(1) by (simp_all add: undisturbed_def fq)
    then show ?thesis using IH first others by (simp add: fq d1)
  qed
  have ok': "ok d' \<and> ls_Code stats' = ls_Code stats" using IH first by simp
  have keep: "answered zone V code vt x stats' p" if "p \<notin> snd ` set (fq # order)" "answered zone V code vt x stats p" for p x
    using IH first that by (simp add: fq)
  show ?case
    by (intro conjI impI allI ballI; (elim conjE)?) (rule ok' [THEN conjunct1] ok' [THEN conjunct2] same [THEN conjunct1]
        same [THEN conjunct2, THEN conjunct1] same [THEN conjunct2, THEN conjunct2, THEN spec] ans keep; assumption)+
qed

definition referred :: "'d visit_db \<Rightarrow> string \<Rightarrow> VisitLogRecord set \<Rightarrow> string \<Rightarrow> VisitLogRecord set" where
  "referred V code T ref = {r \<in> visits_of V code T. vd_text_eq V (vr_Referer r) ref}"

lemma grouped_referers:
  assumes "equivp (vd_text_eq V)"
    and "grouped (vd_text_eq V) {r \<in> visits_of V code T. \<not> vd_text_eq V (vr_Referer r) []} n records"
  shows "int (length records) \<le> n" and "x \<in> set records \<Longrightarrow> \<not> vd_text_eq V (rr_Referer x) [] \<and>
      rr_PV x = of_nat (card (referred V code T (rr_Referer x)))"
    and "r \<in> visits_of V code T \<Longrightarrow> \<not> vd_text_eq V (vr_Referer r) [] \<Longrightarrow>
      (\<exists>x \<in> set records. vd_text_eq V (rr_Referer x) (vr_Referer r)) \<or>
      int (length records) = n \<and> (\<forall>x \<in> set records. card (referred V code T (vr_Referer r)) \<le> card (referred V code T (rr_Referer x)))"
proof -
  let ?S = "{r \<in> visits_of V code T. \<not> vd_text_eq V (vr_Referer r) []}"
  note G = assms(2) [unfolded grouped_def]
  have eq: "referer_count (vd_text_eq V) ?S ref = card (referred V code T ref)" if "\<not> vd_text_eq V ref []" for ref
  proof -
    have "{r \<in> ?S. vd_text_eq V (vr_Referer r) ref} = referred V code T ref"
      using that assms(1) unfolding referred_def by (auto dest: equivp_symp equivp_transp)
    then show ?thesis by (simp add: referer_count_def)
  qed
  have ne: "\<not> vd_text_eq V (rr_Referer x) []" if "x \<in> set records" for x using G that by auto
  show "int (length records) \<le> n" using G by blast
  show "x \<in> set records \<Longrightarrow> \<not> vd_text_eq V (rr_Referer x) [] \<and> rr_PV x = of_nat (card (referred V code T (rr_Referer x)))"
    using G ne eq by auto
  assume r: "r \<in> visits_of V code T" "\<not> vd_text_eq V (vr_Referer r) []"
  then have "(\<exists>x \<in> set records. vd_text_eq V (rr_Referer x) (vr_Referer r)) \<or>
      int (length records) = n \<and> (\<forall>x \<in> set records.
        referer_count (vd_text_eq V) ?S (vr_Referer r) \<le> referer_count (vd_text_eq V) ?S (rr_Referer x))"
    using G by blast
  with eq [OF r(2)] eq [OF ne] show "(\<exists>x \<in> set records. vd_text_eq V (rr_Referer x) (vr_Referer r)) \<or>
      int (length records) = n \<and> (\<forall>x \<in> set records. card (referred V code T (vr_Referer r)) \<le> card (referred V code T (rr_Referer x)))"
    by auto
qed

section \<open>Properties\<close>

text \<open>
  C32 (functional). Statistics that are returned describe the visit log: each field is exact for the
  state in which its query was asked, in whatever order the four queries run and whatever other
  processes write in between: the number of the code's visits, of their addresses, of those on the
  day that the clock of the query shows, and at most ten referers with the number of their visits,
  where a referer is left out only if there are ten with at least as many. If nobody else writes,
  all fields describe the same visits, so that addresses and visits of today are no more than the
  visits; and nothing is written. An invalid code is refused.
\<close>

theorem link_stats_spec:
  assumes "visit_laws vt st ok V" and "ok d" and "legal_order ok order" and "distinct (map snd order)" and "snd ` set order = UNIV"
    and "GetLinkStats (NewService (vd_now V) (visit_stats zone V)) order code d = (v, d')"
  shows "(ValidateShortCode code \<noteq> None \<longrightarrow> v = Inl ErrInvalidCode \<and> d' = d) \<and>
    (undisturbed vt st ok order \<longrightarrow> vt d' = vt d \<and> st d' = st d) \<and>
    (\<forall>stats. v = Inr stats \<longrightarrow>
      (let asked = asked_in (visit_stats zone V) code order d; visits = (\<lambda>q. visits_of V code (vt (asked q))) in
      ls_Code stats = code \<and>
      ls_PV stats = of_nat (card (visits Call_PV)) \<and>
      ls_UV stats = of_nat (card (ip_classes (vd_text_eq V) (visits Call_UV))) \<and>
      ls_TodayPV stats = of_nat (card {r \<in> visits Call_Today. on_day zone (fst (vd_now V (asked Call_Today))) r}) \<and>
      (undisturbed vt st ok order \<longrightarrow> (\<forall>q. vt (asked q) = vt d) \<and>
        (card (visits_of V code (vt d)) < 2 ^ 64 \<longrightarrow> ls_UV stats \<le> ls_PV stats \<and> ls_TodayPV stats \<le> ls_PV stats)) \<and>
      length (ls_Referers stats) \<le> 10 \<and>
      (\<forall>x \<in> set (ls_Referers stats). rs_PV x = of_nat (card (referred V code (vt (asked Call_Referers)) (rs_Referer x)))) \<and>
      (\<forall>r \<in> visits Call_Referers. \<not> vd_text_eq V (vr_Referer r) [] \<longrightarrow>
        (\<exists>x \<in> set (ls_Referers stats). vd_text_eq V (rs_Referer x) (vr_Referer r)) \<or>
        length (ls_Referers stats) = 10 \<and> (\<forall>x \<in> set (ls_Referers stats).
          card (referred V code (vt (asked Call_Referers)) (vr_Referer r)) \<le>
          card (referred V code (vt (asked Call_Referers)) (rs_Referer x))))))"
proof (cases "ValidateShortCode code")
  case (Some e)
  with assms(6) ValidateShortCode_error [OF Some] show ?thesis by (auto simp: GetLinkStats_def)
next
  case None
  let ?at = "asked_in (visit_stats zone V) code order d"
  let ?T = "\<lambda>q. visits_of V code (vt (?at q))"
  obtain err stats1 d1 where run: "run_group (visit_stats zone V) code order (zero_LinkStats\<lparr>ls_Code := code\<rparr>) d = (err, stats1, d1)"
    by (metis prod.collapse)
  note result = run_group_result [OF assms(1-4) run]
  show ?thesis
  proof (cases err)
    case (Some e)
    with assms(6) None run result show ?thesis by (auto simp: GetLinkStats_def NewService_def)
  next
    case no_error: None
    obtain now d2 where now: "vd_now V d1 = (now, d2)" by fastforce
    with assms(6) None run no_error have v: "v = Inr (stats1\<lparr>ls_UpdatedAt := now\<rparr>)" "d' = d2"
      by (auto simp: GetLinkStats_def NewService_def)
    have "ok d1" using result by blast
    note read = count_done(4) [OF assms(1) this now]
    have answers: "answered zone V code vt (?at q) stats1 q" for q using result no_error assms(5) by auto
    obtain records where refs: "ls_Referers stats1 = map (\<lambda>x. \<lparr>rs_Referer = rr_Referer x, rs_PV = rr_PV x\<rparr>) records"
      and groups: "grouped (vd_text_eq V) {r \<in> ?T Call_Referers. \<not> vd_text_eq V (vr_Referer r) []} 10 records"
      using answers [of Call_Referers] by (auto simp: answered_def Let_def)
    note groups = grouped_referers [OF visit_lawsD(1) [OF assms(1)] groups]
    have pv: "ls_PV stats1 = of_nat (card (?T Call_PV))"
      and uv: "ls_UV stats1 = of_nat (card (ip_classes (vd_text_eq V) (?T Call_UV)))"
      and today: "ls_TodayPV stats1 = of_nat (card {r \<in> ?T Call_Today. on_day zone (fst (vd_now V (?at Call_Today))) r})"
      using answers [of Call_PV] answers [of Call_UV] answers [of Call_Today] by (auto simp: answered_def Let_def)
    let ?S = "visits_of V code (vt d)"
    have fin: "finite ?S" using visit_lawsD(2) [OF assms(1,2)] by (simp add: visits_of_def)
    have bound: "of_nat m \<le> (of_nat (card ?S) :: uint64)" if "card ?S < 2 ^ 64" "m \<le> card ?S" for m
      using that by (simp add: word_le_nat_alt unat_of_nat)
    have "card {r \<in> ?S. on_day zone day r} \<le> card ?S" for day using fin by (intro card_mono) auto
    moreover have "card (ip_classes (vd_text_eq V) ?S) \<le> card ?S"
      unfolding ip_classes_def by (rule card_image_le [OF fin])
    ultimately have less: "undisturbed vt st ok order \<longrightarrow> (\<forall>q. vt (?at q) = vt d) \<and>
        (card ?S < 2 ^ 64 \<longrightarrow> ls_UV stats1 \<le> ls_PV stats1 \<and> ls_TodayPV stats1 \<le> ls_PV stats1)"
      using bound result unfolding pv uv today by auto
    show ?thesis
      unfolding v Let_def using None result read pv uv today less groups by (auto simp: refs)
  qed
qed

text \<open>Two visits of one code by the same address, one with a referer.\<close>

definition sample_visits :: mem_visits where
  "sample_visits = \<lparr>mv_visits =
     [\<lparr>vr_ID = 1, vr_Code = NewShortCode 7, vr_VisitedAt = 1000, vr_IP = ''1.2.3.4'', vr_UserAgent = [], vr_Referer = ''r''\<rparr>,
      \<lparr>vr_ID = 2, vr_Code = NewShortCode 7, vr_VisitedAt = 2000, vr_IP = ''1.2.3.4'', vr_UserAgent = [], vr_Referer = []\<rparr>],
     mv_stats = [], mv_now = 3000\<rparr>"

lemma sample_visits_ok: "mem_visits_ok sample_visits"
  by (simp add: mem_visits_ok_def sample_visits_def)

lemma link_stats_spec_witness:
  "\<exists>stats. fst (GetLinkStats (NewService (vd_now mem_visit_db) (visit_stats 0 mem_visit_db))
      [(id, Call_Today), (id, Call_PV), (id, Call_Referers), (id, Call_UV)] (NewShortCode 7) sample_visits) = Inr stats \<and>
    ls_PV stats = 2 \<and> ls_TodayPV stats \<le> 2 \<and> length (ls_Referers stats) \<le> 10"
proof -
  let ?s = "NewService (vd_now mem_visit_db) (visit_stats 0 mem_visit_db)"
  let ?order = "[(id, Call_Today), (id, Call_PV), (id, Call_Referers), (id, Call_UV)]"
  obtain v d' where run: "GetLinkStats ?s ?order (NewShortCode 7) sample_visits = (v, d')" by fastforce
  have order: "legal_order mem_visits_ok ?order" "distinct (map snd ?order)" "snd ` set ?order = UNIV"
    "undisturbed (\<lambda>d. set (mv_visits d)) (\<lambda>d. set (mv_stats d)) mem_visits_ok ?order"
    using stat_call.exhaust by (auto simp: legal_order_def undisturbed_def)
  note spec = link_stats_spec [OF mem_visit_laws sample_visits_ok order(1-3) run]
  have "visits_of mem_visit_db (NewShortCode 7) (set (mv_visits sample_visits)) = set (mv_visits sample_visits)"
    by (auto simp: visits_of_def mem_visit_db_def sample_visits_def)
  moreover have "card (set (mv_visits sample_visits)) = 2" by (simp add: sample_visits_def)
  moreover obtain stats where "v = Inr stats"
    using run by (auto simp: GetLinkStats_def NewService_def run_call_def visit_stats_def CountVisits_def
        CountUniqueVisitors_def CountTodayVisits_def TopReferers_def mem_visit_db_def Let_def)
  ultimately show ?thesis using spec order(4) run by (auto simp: Let_def simp del: asked_in.simps)
qed

end
