(* ===== verification/Snowflake.thy ===== *)
theory Snowflake
  imports Ports
begin

text \<open>
  \<open>internal/domain/link/snowflake.go\<close>: 64-bit ids of a millisecond time stamp, a node and a
  sequence number. All fields are \<open>int64\<close> values, compared as signed numbers. The clock is a
  sequence of readings; an operation takes the number of the next reading and returns the number
  after the readings it made. \<open>waitNextMillis\<close> may loop for ever (a clock that stands still), so
  it and \<open>NextID\<close> are partial: \<open>None\<close> is "does not return".
\<close>

section \<open>The generator\<close>

definition snowflakeNodeBits :: nat where "snowflakeNodeBits = 10"
definition snowflakeSequenceBits :: nat where "snowflakeSequenceBits = 12"

definition snowflakeMaxNode :: int64 where
  "snowflakeMaxNode = (- 1) XOR (push_bit snowflakeNodeBits (- 1))"

definition snowflakeMaxSequence :: int64 where
  "snowflakeMaxSequence = (- 1) XOR (push_bit snowflakeSequenceBits (- 1))"

definition snowflakeNodeShift :: nat where
  "snowflakeNodeShift = snowflakeSequenceBits"

definition snowflakeTimestampShift :: nat where
  "snowflakeTimestampShift = snowflakeSequenceBits + snowflakeNodeBits"

text \<open>1 January 2026, 00:00 UTC.\<close>

definition snowflakeEpoch :: time where
  "snowflakeEpoch = unix_epoch + 1767225600 * 10 ^ 9"

record Snowflake =
  sf_nodeID :: int64
  sf_lastMs :: int64
  sf_sequence :: int64
  sf_epochUnix :: int64

record SnowflakeParts =
  sp_Timestamp :: time
  sp_NodeID :: int64
  sp_Sequence :: int64

definition NewSnowflake :: "int64 \<Rightarrow> go_error + Snowflake" where
  "NewSnowflake nodeID =
     (if sint nodeID < 0 \<or> sint nodeID > sint snowflakeMaxNode
      then Inl (Errorf ''node id must be between 0 and 1023'')
      else Inr \<lparr>sf_nodeID = nodeID, sf_lastMs = 0, sf_sequence = 0,
                 sf_epochUnix = unix_milli snowflakeEpoch\<rparr>)"

partial_function (option) waitNextMillis ::
  "clock \<Rightarrow> int64 \<Rightarrow> int64 \<Rightarrow> nat \<Rightarrow> (int64 \<times> nat) option" where
  "waitNextMillis now epochUnix lastMs k =
     (let nowMs = unix_milli (now k) - epochUnix
      in if sint nowMs > sint lastMs then Some (nowMs, Suc k)
         else waitNextMillis now epochUnix lastMs (Suc k))"

definition compose_id :: "int64 \<Rightarrow> int64 \<Rightarrow> int64 \<Rightarrow> uint64" where
  "compose_id ms node seq =
     push_bit snowflakeTimestampShift ms OR push_bit snowflakeNodeShift node OR seq"

definition NextID :: "clock \<Rightarrow> Snowflake \<Rightarrow> nat \<Rightarrow> (uint64 \<times> Snowflake \<times> nat) option" where
  "NextID now s k =
     (let read = unix_milli (now k) - sf_epochUnix s;
          nowMs = (if sint read < sint (sf_lastMs s) then sf_lastMs s else read)
      in if nowMs = sf_lastMs s
         then (let seq = (sf_sequence s + 1) AND snowflakeMaxSequence
               in if seq = 0
                  then (case waitNextMillis now (sf_epochUnix s) (sf_lastMs s) (Suc k) of
                          None \<Rightarrow> None
                        | Some (ms, k') \<Rightarrow>
                            Some (compose_id ms (sf_nodeID s) seq,
                                  s\<lparr>sf_sequence := seq, sf_lastMs := ms\<rparr>, k'))
                  else Some (compose_id nowMs (sf_nodeID s) seq,
                             s\<lparr>sf_sequence := seq, sf_lastMs := nowMs\<rparr>, Suc k))
         else Some (compose_id nowMs (sf_nodeID s) 0,
                    s\<lparr>sf_sequence := 0, sf_lastMs := nowMs\<rparr>, Suc k))"

definition ParseSnowflake :: "uint64 \<Rightarrow> SnowflakeParts" where
  "ParseSnowflake n =
     (let seq = n AND snowflakeMaxSequence;
          node = signed_drop_bit snowflakeNodeShift n AND snowflakeMaxNode;
          ms = signed_drop_bit snowflakeTimestampShift n
      in \<lparr>sp_Timestamp = of_unix_milli (unix_milli snowflakeEpoch + ms), sp_NodeID = node,
           sp_Sequence = seq\<rparr>)"

text \<open>The generator with the number of its next clock reading, as one state.\<close>

definition snowflake_next :: "clock \<Rightarrow> Snowflake \<times> nat \<Rightarrow> (uint64 \<times> Snowflake \<times> nat) option" where
  "snowflake_next now sk = NextID now (fst sk) (snd sk)"

lemmas snowflake_consts = snowflakeNodeBits_def snowflakeSequenceBits_def snowflakeNodeShift_def
  snowflakeTimestampShift_def

lemma snowflakeMaxNode_mask: "snowflakeMaxNode = mask 10"
  and snowflakeMaxSequence_mask: "snowflakeMaxSequence = mask 12"
  by (simp_all add: snowflakeMaxNode_def snowflakeMaxSequence_def snowflake_consts mask_eq_exp_minus_1)

section \<open>The layout of an id\<close>

text \<open>
  The fields are in range: the time stamp fits in 41 bits (until the year 2095), the node in 10
  and the sequence number in 12. An id is then the sum of its shifted fields.
\<close>

lemma unat_push_bit_small:
  fixes w :: uint64
  assumes "unat w * 2 ^ n < 2 ^ 64"
  shows "unat (push_bit n w) = unat w * 2 ^ n"
proof -
  have "unat (push_bit n w) = take_bit 64 (push_bit n (unat w))"
    by (simp add: unsigned_push_bit_eq)
  with assms show ?thesis by (simp add: push_bit_eq_mult take_bit_eq_mod)
qed

lemma bit_unat_less:
  fixes w :: uint64
  assumes "unat w < 2 ^ k" and "bit w n"
  shows "n < k"
proof -
  have "bit (unat w) n" using assms(2) by (simp add: bit_unsigned_iff)
  then have "\<not> unat w < 2 ^ n" by (auto simp: bit_iff_odd)
  with assms(1) have "(2::nat) ^ n < 2 ^ k" by linarith
  then show ?thesis by simp
qed

lemma disjoint_or_unat:
  fixes a b :: uint64
  assumes "unat b < 2 ^ n" and "a = push_bit n a'"
  shows "unat (a OR b) = unat a + unat b"
proof -
  have "\<not> bit (unat a) i \<or> \<not> bit (unat b) i" for i
    using bit_unat_less [OF assms(1), of i] assms(2) by (auto simp: bit_unsigned_iff bit_simps)
  then have "unat a + unat b = unat a OR unat b"
    by (intro disjunctive_add_eq_or) (auto simp: bit_eq_iff bit_simps)
  then show ?thesis by (simp add: unsigned_or_eq)
qed

lemma unat_compose_id:
  assumes "unat ms < 2 ^ 41" and "unat node < 2 ^ 10" and "unat seq < 2 ^ 12"
  shows "unat (compose_id ms node seq) = unat ms * 2 ^ 22 + unat node * 2 ^ 12 + unat seq"
proof -
  let ?node = "push_bit 12 node"
  have node: "unat ?node = unat node * 2 ^ 12" and ms: "unat (push_bit 22 ms) = unat ms * 2 ^ 22"
    using assms unat_push_bit_small [of node 12] unat_push_bit_small [of ms 22] by simp_all
  have low: "unat (?node OR seq) = unat ?node + unat seq"
    using assms(3) by (rule disjoint_or_unat) simp
  with node assms have "unat (?node OR seq) < 2 ^ 22" by simp
  from disjoint_or_unat [OF this] have "unat (push_bit 22 ms OR (?node OR seq)) =
      unat (push_bit 22 ms) + unat (?node OR seq)" by simp
  then show ?thesis
    by (simp add: compose_id_def snowflake_consts or.assoc low node ms)
qed

definition fields_ok :: "int64 \<Rightarrow> int64 \<Rightarrow> int64 \<Rightarrow> bool" where
  "fields_ok ms node seq \<longleftrightarrow> unat ms < 2 ^ 41 \<and> unat node < 2 ^ 10 \<and> unat seq < 2 ^ 12"

lemma unat_mask_mod: "unat (w AND mask n :: uint64) = unat w mod 2 ^ n"
  by (simp add: unsigned_take_bit_eq flip: take_bit_eq_mask take_bit_eq_mod)

lemma unat_signed_drop_bit:
  fixes w :: uint64
  assumes "unat w < 2 ^ 63"
  shows "unat (signed_drop_bit n w) = unat w div 2 ^ n"
proof -
  have sint: "sint (signed_drop_bit n w) = int (unat w div 2 ^ n)"
    using sint_of_unat [OF assms]
    by (simp add: sint_signed_drop_bit_eq drop_bit_eq_div zdiv_int)
  then have "0 \<le> sint (signed_drop_bit n w)" by simp
  from sint_nonneg_unat [OF this] sint show ?thesis by linarith
qed

lemma ParseSnowflake_compose:
  assumes "fields_ok ms node seq"
  shows "ParseSnowflake (compose_id ms node seq) =
    \<lparr>sp_Timestamp = of_unix_milli (unix_milli snowflakeEpoch + ms), sp_NodeID = node, sp_Sequence = seq\<rparr>"
proof -
  let ?w = "compose_id ms node seq"
  have u: "unat ?w = unat ms * 2 ^ 22 + unat node * 2 ^ 12 + unat seq"
    using assms by (intro unat_compose_id) (auto simp: fields_ok_def)
  have fields: "unat ms < 2 ^ 41" "unat node < 2 ^ 10" "unat seq < 2 ^ 12"
    using assms by (simp_all add: fields_ok_def)
  then have small: "unat ?w < 2 ^ 63" using u by simp
  have ms: "unat ?w div 2 ^ 22 = unat ms"
    using fields u by (intro div_nat_eqI) simp_all
  have "unat ?w div 2 ^ 12 = unat ms * 2 ^ 10 + unat node"
    using fields u by (intro div_nat_eqI) simp_all
  then have node: "unat ?w div 2 ^ 12 mod 2 ^ 10 = unat node" using fields by simp
  have "unat ?w = (unat ms * 2 ^ 10 + unat node) * 2 ^ 12 + unat seq" using u by simp
  then have seq: "unat ?w mod 2 ^ 12 = unat seq" using fields by (simp only: mod_mult_self3) simp
  have "?w AND snowflakeMaxSequence = seq"
    using seq by (simp add: snowflakeMaxSequence_mask word_unat_eq_iff unat_mask_mod)
  moreover have "signed_drop_bit 12 ?w AND snowflakeMaxNode = node"
    using node by (simp add: snowflakeMaxNode_mask word_unat_eq_iff unat_mask_mod unat_signed_drop_bit [OF small])
  moreover have "signed_drop_bit 22 ?w = ms"
    using ms by (simp add: word_unat_eq_iff unat_signed_drop_bit [OF small])
  ultimately show ?thesis
    by (simp add: ParseSnowflake_def Let_def snowflake_consts)
qed

section \<open>What a generator guarantees\<close>

definition sf_wf :: "Snowflake \<Rightarrow> bool" where
  "sf_wf s \<longleftrightarrow> fields_ok (sf_lastMs s) (sf_nodeID s) (sf_sequence s)"

definition sf_last_id :: "Snowflake \<Rightarrow> uint64" where
  "sf_last_id s = compose_id (sf_lastMs s) (sf_nodeID s) (sf_sequence s)"

text \<open>The clock has not reached the end of the 41-bit time stamps.\<close>

definition clock_below :: "clock \<Rightarrow> int64 \<Rightarrow> bool" where
  "clock_below now epoch \<longleftrightarrow> (\<forall>k. sint (unix_milli (now k) - epoch) < 2 ^ 41)"

definition snowflake_ok :: "clock \<Rightarrow> Snowflake \<times> nat \<Rightarrow> bool" where
  "snowflake_ok now sk \<longleftrightarrow> sf_wf (fst sk) \<and> clock_below now (sf_epochUnix (fst sk))"

lemma sint_snowflakeMaxNode: "sint snowflakeMaxNode = 1023"
  by code_simp

lemma NewSnowflake_cases:
  "NewSnowflake n =
     (if 0 \<le> sint n \<and> sint n \<le> 1023
      then Inr \<lparr>sf_nodeID = n, sf_lastMs = 0, sf_sequence = 0, sf_epochUnix = unix_milli snowflakeEpoch\<rparr>
      else Inl (Errorf ''node id must be between 0 and 1023''))"
  unfolding NewSnowflake_def sint_snowflakeMaxNode by auto

lemma NewSnowflake_wf:
  assumes "NewSnowflake n = Inr s"
  shows "sf_wf s \<and> sf_nodeID s = n \<and> sf_epochUnix s = unix_milli snowflakeEpoch"
proof -
  from assms have s: "s = \<lparr>sf_nodeID = n, sf_lastMs = 0, sf_sequence = 0, sf_epochUnix = unix_milli snowflakeEpoch\<rparr>"
    and range: "0 \<le> sint n" "sint n \<le> 1023"
    by (auto simp: NewSnowflake_cases split: if_splits)
  then have "unat n < 1024" using sint_nonneg_unat [OF range(1)] by linarith
  with s show ?thesis by (simp add: sf_wf_def fields_ok_def)
qed

lemma waitNextMillis_result:
  assumes "waitNextMillis now epoch ms0 k = Some (ms, k')"
  shows "sint ms0 < sint ms \<and> (\<exists>j\<ge>k. k' = Suc j \<and> ms = unix_milli (now j) - epoch)"
proof -
  have "sint ms0 < sint (fst (ms, k')) \<and>
      (\<exists>j\<ge>k. snd (ms, k') = Suc j \<and> fst (ms, k') = unix_milli (now j) - epoch)"
  proof (rule waitNextMillis.raw_induct
      [where P = "\<lambda>now epoch ms0 k r. sint ms0 < sint (fst r) \<and>
          (\<exists>j\<ge>k. snd r = Suc j \<and> fst r = unix_milli (now j) - epoch)", OF _ assms])
    fix f and now :: clock and epoch ms0 k r
    assume IH: "\<And>now epoch ms0 k r. f now epoch ms0 k = Some r \<Longrightarrow> sint ms0 < sint (fst r) \<and>
        (\<exists>j\<ge>k. snd r = Suc j \<and> fst r = unix_milli (now j) - epoch)"
      and eq: "(let nowMs = unix_milli (now k) - epoch
          in if sint ms0 < sint nowMs then Some (nowMs, Suc k) else f now epoch ms0 (Suc k)) = Some r"
    show "sint ms0 < sint (fst r) \<and> (\<exists>j\<ge>k. snd r = Suc j \<and> fst r = unix_milli (now j) - epoch)"
    proof (cases "sint ms0 < sint (unix_milli (now k) - epoch)")
      case True
      with eq show ?thesis by (auto simp: Let_def)
    next
      case False
      with eq IH [of now epoch ms0 "Suc k" r] show ?thesis
        by (auto simp: Let_def dest: Suc_leD)
    qed
  qed
  then show ?thesis by simp
qed

lemma waitNextMillis_returns:
  "k \<le> j \<Longrightarrow> sint ms0 < sint (unix_milli (now j) - epoch) \<Longrightarrow>
   \<exists>ms k'. waitNextMillis now epoch ms0 k = Some (ms, k')"
proof (induction "j - k" arbitrary: k)
  case 0
  then show ?case by (subst waitNextMillis.simps) (simp add: Let_def)
next
  case (Suc d)
  then have "d = j - Suc k" and "Suc k \<le> j" by auto
  with Suc.hyps(1) [of "Suc k"] Suc.prems show ?case
    by (subst waitNextMillis.simps) (auto simp: Let_def)
qed

definition sf_stamp :: "Snowflake \<Rightarrow> nat" where
  "sf_stamp s = unat (sf_lastMs s) * 2 ^ 12 + unat (sf_sequence s)"

lemma unat_next_sequence:
  fixes seq :: int64
  assumes "unat seq < 2 ^ 12"
  shows "unat ((seq + 1) AND snowflakeMaxSequence) = (unat seq + 1) mod 2 ^ 12"
proof -
  have "unat (seq + 1) = unat seq + 1"
    using assms by (simp add: unat_word_ariths)
  then show ?thesis by (simp add: snowflakeMaxSequence_mask unat_mask_mod)
qed

text \<open>A signed comparison with a time stamp in range is a comparison of numbers.\<close>

lemma stamp_in_range:
  fixes ms ms' :: int64
  assumes "unat ms < 2 ^ 41" and "sint ms < sint ms'" and "sint ms' < 2 ^ 41"
  shows "unat ms < unat ms'" and "unat ms' < 2 ^ 41"
proof -
  have "sint ms = int (unat ms)" using assms(1) by (intro sint_of_unat) simp
  moreover from this assms(2) have "int (unat ms') = sint ms'" by (intro sint_nonneg_unat) linarith
  moreover have "sint ms' < 2199023255552" using assms(3) by simp
  ultimately have "unat ms < unat ms'" and "unat ms' < 2199023255552" using assms(2) by linarith+
  then show "unat ms < unat ms'" and "unat ms' < 2 ^ 41" by simp_all
qed

lemma NextID_step:
  assumes wf: "sf_wf s" and below: "clock_below now (sf_epochUnix s)"
    and run: "NextID now s k = Some (i, s', k')"
  shows "sf_wf s' \<and> sf_nodeID s' = sf_nodeID s \<and> sf_epochUnix s' = sf_epochUnix s \<and>
    i = sf_last_id s' \<and> sf_stamp s < sf_stamp s' \<and> k < k'"
proof -
  let ?read = "unix_milli (now k) - sf_epochUnix s"
  let ?seq = "(sf_sequence s + 1) AND snowflakeMaxSequence"
  have fields: "unat (sf_lastMs s) < 2 ^ 41" "unat (sf_nodeID s) < 2 ^ 10" "unat (sf_sequence s) < 2 ^ 12"
    using wf by (simp_all add: sf_wf_def fields_ok_def)
  have read: "sint (unix_milli (now j) - sf_epochUnix s) < 2 ^ 41" for j
    using below by (simp add: clock_below_def)
  have later: "unat (sf_lastMs s) * 2 ^ 12 + unat (sf_sequence s) < unat ms * 2 ^ 12"
    if "unat (sf_lastMs s) < unat ms" for ms
    using that fields(3) by simp
  define nowMs where "nowMs = (if sint ?read < sint (sf_lastMs s) then sf_lastMs s else ?read)"
  show ?thesis
  proof (cases "nowMs = sf_lastMs s")
    case False
    then have ms: "nowMs = ?read" and "sint (sf_lastMs s) < sint ?read"
      by (auto simp: nowMs_def split: if_splits) (metis linorder_neqE_linordered_idom signed_word_eqI)
    note range = stamp_in_range [OF fields(1) this(2) read]
    from False run ms have "i = compose_id ?read (sf_nodeID s) 0"
      "s' = s\<lparr>sf_sequence := 0, sf_lastMs := ?read\<rparr>" "k' = Suc k"
      unfolding NextID_def Let_def nowMs_def by (auto split: if_splits)
    with range fields later [OF range(1)] show ?thesis
      by (simp add: sf_wf_def fields_ok_def sf_last_id_def sf_stamp_def)
  next
    case True
    show ?thesis
    proof (cases "?seq = 0")
      case False
      then have "unat ?seq \<noteq> 0" by (simp add: unat_eq_zero)
      then have "unat ?seq = unat (sf_sequence s) + 1"
        using unat_next_sequence [OF fields(3)] fields(3) by (auto simp: mod_if split: if_splits)
      moreover from True False run have "i = compose_id (sf_lastMs s) (sf_nodeID s) ?seq"
        "s' = s\<lparr>sf_sequence := ?seq, sf_lastMs := sf_lastMs s\<rparr>" "k' = Suc k"
        unfolding NextID_def Let_def nowMs_def by (auto split: if_splits)
      moreover have "unat ?seq < 2 ^ 12" using unat_next_sequence [OF fields(3)] by simp
      ultimately show ?thesis
        using fields by (simp add: sf_wf_def fields_ok_def sf_last_id_def sf_stamp_def)
    next
      case seq0: True
      from True seq0 run obtain ms where wait:
        "waitNextMillis now (sf_epochUnix s) (sf_lastMs s) (Suc k) = Some (ms, k')"
        and i: "i = compose_id ms (sf_nodeID s) 0" and s': "s' = s\<lparr>sf_sequence := 0, sf_lastMs := ms\<rparr>"
        unfolding NextID_def Let_def nowMs_def by (auto split: if_splits option.splits)
      from waitNextMillis_result [OF wait] obtain j where "sint (sf_lastMs s) < sint ms"
        "k < k'" "ms = unix_milli (now j) - sf_epochUnix s" by auto
      note range = stamp_in_range [OF fields(1) this(1), unfolded this(3), OF read, folded this(3)]
      with i s' fields later [OF range(1)] \<open>k < k'\<close> show ?thesis
        by (simp add: sf_wf_def fields_ok_def sf_last_id_def sf_stamp_def)
    qed
  qed
qed

lemma sf_last_id_stamp:
  assumes "sf_wf s"
  shows "unat (sf_last_id s) =
    unat (sf_lastMs s) * 2 ^ 22 + unat (sf_nodeID s) * 2 ^ 12 + unat (sf_sequence s)"
  using assms unfolding sf_last_id_def sf_wf_def fields_ok_def by (intro unat_compose_id) auto

lemma last_id_less:
  assumes "sf_wf s" and "sf_wf s'" and "sf_nodeID s' = sf_nodeID s" and "sf_stamp s < sf_stamp s'"
  shows "sf_last_id s < sf_last_id s'"
proof -
  have seq: "unat (sf_sequence s) < 2 ^ 12" "unat (sf_sequence s') < 2 ^ 12" "unat (sf_nodeID s) < 2 ^ 10"
    using assms(1,2) by (simp_all add: sf_wf_def fields_ok_def)
  have "unat (sf_lastMs s) < unat (sf_lastMs s') \<or>
      unat (sf_lastMs s) = unat (sf_lastMs s') \<and> unat (sf_sequence s) < unat (sf_sequence s')"
    using assms(4) seq(1,2) unfolding sf_stamp_def by auto
  then have "unat (sf_last_id s) < unat (sf_last_id s')"
    unfolding sf_last_id_stamp [OF assms(1)] sf_last_id_stamp [OF assms(2)] assms(3)
    using seq by auto
  then show ?thesis by (simp add: word_less_nat_alt)
qed

interpretation snowflake_gen: id_generator "snowflake_next now" "snowflake_ok now" "\<lambda>sk. sf_last_id (fst sk)"
  for now
proof (unfold_locales, goal_cases)
  case (1 sk i sk')
  then show ?case
    using NextID_step [of "fst sk" now "snd sk" i "fst sk'" "snd sk'"]
    by (simp add: snowflake_ok_def snowflake_next_def)
next
  case (2 sk i sk')
  then show ?case
    using NextID_step [of "fst sk" now "snd sk" i "fst sk'" "snd sk'"]
    by (simp add: snowflake_ok_def snowflake_next_def)
next
  case (3 sk i sk')
  then show ?case
    using NextID_step [of "fst sk" now "snd sk" i "fst sk'" "snd sk'"]
      last_id_less [of "fst sk" "fst sk'"]
    by (simp add: snowflake_ok_def snowflake_next_def)
qed

text \<open>The node of an id, as \<open>ParseSnowflake\<close> reads it, is the generator's.\<close>

lemma NextID_parse:
  assumes "sf_wf s" and "clock_below now (sf_epochUnix s)" and "NextID now s k = Some (i, s', k')"
  shows "ParseSnowflake i =
    \<lparr>sp_Timestamp = of_unix_milli (unix_milli snowflakeEpoch + sf_lastMs s'),
     sp_NodeID = sf_nodeID s, sp_Sequence = sf_sequence s'\<rparr>"
proof -
  from NextID_step [OF assms] have "fields_ok (sf_lastMs s') (sf_nodeID s') (sf_sequence s')"
    "sf_nodeID s' = sf_nodeID s" "i = sf_last_id s'" by (auto simp add: sf_wf_def)
  with ParseSnowflake_compose show ?thesis by (metis sf_last_id_def)
qed

text \<open>A call returns as soon as the clock moves past the last time stamp.\<close>

lemma NextID_returns:
  assumes "k < j" and "sint (sf_lastMs s) < sint (unix_milli (now j) - sf_epochUnix s)"
  shows "\<exists>i s' k'. NextID now s k = Some (i, s', k')"
  using waitNextMillis_returns [of "Suc k" j "sf_lastMs s" now "sf_epochUnix s"] assms
  unfolding NextID_def Let_def by (auto simp: Suc_le_eq)

text \<open>A call that need not wait returns whatever the clock does.\<close>

lemma NextID_no_wait:
  "(sf_sequence s + 1) AND snowflakeMaxSequence \<noteq> 0 \<Longrightarrow>
   \<exists>i s'. NextID now s k = Some (i, s', Suc k)"
  unfolding NextID_def Let_def by auto

section \<open>Properties\<close>

text \<open>
  C6 (safety). One generator never repeats an id: while the clock stays before the end of the
  41-bit time stamps, whatever it does otherwise (jumps back, stands still), the ids of successive
  calls increase strictly, so any number of them are distinct.
\<close>

theorem snowflake_ids_increase:
  assumes "NewSnowflake node = Inr s" and "clock_below now (unix_milli snowflakeEpoch)"
    and "take_ids (snowflake_next now) n (s, k) = Some (is, s')"
  shows "sorted_wrt (<) is \<and> distinct is \<and> length is = n"
proof -
  have ok: "snowflake_ok now (s, k)"
    using NewSnowflake_wf [OF assms(1)] assms(2) by (simp add: snowflake_ok_def)
  show ?thesis
    using snowflake_gen.ids_increase [OF ok assms(3)] snowflake_gen.ids_distinct [OF ok assms(3)] by simp
qed

text \<open>A clock that stands still on 1 January 2026, 00:00:05, and then goes back by a second.\<close>

definition sample_clock :: clock where
  "sample_clock k = snowflakeEpoch + (if k < 2 then 5 else 4) * 10 ^ 9"

lemma sample_clock_below: "clock_below sample_clock (unix_milli snowflakeEpoch)"
proof -
  have "sint (unix_milli (snowflakeEpoch + 5 * 10 ^ 9) - unix_milli snowflakeEpoch) < 2 ^ 41"
    and "sint (unix_milli (snowflakeEpoch + 4 * 10 ^ 9) - unix_milli snowflakeEpoch) < 2 ^ 41"
    by code_simp+
  then show ?thesis by (simp add: clock_below_def sample_clock_def)
qed

definition sample_snowflake :: Snowflake where
  "sample_snowflake =
     \<lparr>sf_nodeID = 3, sf_lastMs = 0, sf_sequence = 0, sf_epochUnix = unix_milli snowflakeEpoch\<rparr>"

lemma NewSnowflake_sample: "NewSnowflake 3 = Inr sample_snowflake"
  by (simp add: NewSnowflake_cases sample_snowflake_def)

lemma sample_ids:
  "map_option fst (take_ids (snowflake_next sample_clock) 3 (sample_snowflake, 0)) =
   Some [20971532288, 20971532289, 20971532290]"
  by (simp add: snowflake_next_def NextID_def sample_snowflake_def sample_clock_def numeral_3_eq_3
      unix_milli_def unix_epoch_def snowflakeEpoch_def compose_id_def snowflake_consts
      snowflakeMaxSequence_def Let_def push_bit_eq_mult)

theorem snowflake_ids_increase_witness:
  "sorted_wrt (<) [20971532288, 20971532289, 20971532290 :: uint64]"
proof -
  obtain s' where "take_ids (snowflake_next sample_clock) 3 (sample_snowflake, 0) =
      Some ([20971532288, 20971532289, 20971532290], s')"
    using sample_ids by auto
  from snowflake_ids_increase [OF NewSnowflake_sample sample_clock_below this] show ?thesis by blast
qed

text \<open>
  C14 (round trip). \<open>ParseSnowflake\<close> reads back from an id the generator's node, the sequence number
  and the millisecond the generator recorded; so generators of different nodes never produce
  the same id.
\<close>

theorem snowflake_parse:
  assumes "NewSnowflake node = Inr s0" and "snowflake_ok now (s, k)" and "sf_nodeID s = node"
    and "NextID now s k = Some (i, s', k')"
    and "snowflake_ok now' (u, j)" and "sf_nodeID u \<noteq> node" and "NextID now' u j = Some (i', u', j')"
  shows "ParseSnowflake i =
      \<lparr>sp_Timestamp = of_unix_milli (unix_milli snowflakeEpoch + sf_lastMs s'),
       sp_NodeID = node, sp_Sequence = sf_sequence s'\<rparr> \<and> i \<noteq> i'"
proof -
  have i: "ParseSnowflake i =
      \<lparr>sp_Timestamp = of_unix_milli (unix_milli snowflakeEpoch + sf_lastMs s'),
       sp_NodeID = node, sp_Sequence = sf_sequence s'\<rparr>"
    using NextID_parse [OF _ _ assms(4)] assms(2,3) by (simp add: snowflake_ok_def)
  moreover have "sp_NodeID (ParseSnowflake i') = sf_nodeID u"
    using NextID_parse [OF _ _ assms(7)] assms(5) by (simp add: snowflake_ok_def)
  ultimately show ?thesis using assms(6) by auto
qed

lemma sample_ok: "snowflake_ok sample_clock (sample_snowflake\<lparr>sf_nodeID := node\<rparr>, 0)" if "unat node < 1024"
  using that sample_clock_below
  by (simp add: snowflake_ok_def sf_wf_def fields_ok_def sample_snowflake_def)

lemma sample_NextID:
  "NextID sample_clock sample_snowflake 0 = Some (20971532288, sample_snowflake\<lparr>sf_lastMs := 5000\<rparr>, 1)"
  "NextID sample_clock (sample_snowflake\<lparr>sf_nodeID := 4\<rparr>) 0 =
   Some (20971536384, sample_snowflake\<lparr>sf_nodeID := 4, sf_lastMs := 5000\<rparr>, 1)"
  by (simp_all add: NextID_def sample_snowflake_def sample_clock_def unix_milli_def unix_epoch_def
      snowflakeEpoch_def compose_id_def snowflake_consts Let_def push_bit_eq_mult)

theorem snowflake_parse_witness:
  "sp_NodeID (ParseSnowflake 20971532288) = 3 \<and> (20971532288 :: uint64) \<noteq> 20971536384"
proof -
  have "snowflake_ok sample_clock (sample_snowflake, 0)"
    using sample_ok [of 3] by (simp add: sample_snowflake_def)
  moreover have "snowflake_ok sample_clock (sample_snowflake\<lparr>sf_nodeID := 4\<rparr>, 0)"
    by (rule sample_ok) simp
  ultimately show ?thesis
    using snowflake_parse [OF NewSnowflake_sample _ _ sample_NextID(1) _ _ sample_NextID(2)]
    by (simp add: sample_snowflake_def)
qed

text \<open>
  C15 (liveness). A call returns: at once unless the sequence numbers of the millisecond are used
  up, and then as soon as a later reading of the clock is past the last time stamp. (If the clock
  never passes it, the loop of \<open>waitNextMillis\<close> does not end.)
\<close>

theorem snowflake_returns:
  "((sf_sequence s + 1) AND snowflakeMaxSequence \<noteq> 0 \<longrightarrow> (\<exists>i s'. NextID now s k = Some (i, s', Suc k))) \<and>
   (k < j \<and> sint (sf_lastMs s) < sint (unix_milli (now j) - sf_epochUnix s) \<longrightarrow>
    (\<exists>i s' k'. NextID now s k = Some (i, s', k')))"
  using NextID_no_wait NextID_returns by blast

theorem snowflake_returns_witness:
  "\<exists>i s' k'. NextID (\<lambda>k. snowflakeEpoch + int k * 10 ^ 9) (sample_snowflake\<lparr>sf_sequence := 4095\<rparr>) 0 =
     Some (i, s', k')"
proof -
  have "sint (sf_lastMs (sample_snowflake\<lparr>sf_sequence := 4095\<rparr>)) <
      sint (unix_milli (snowflakeEpoch + int 1 * 10 ^ 9) - sf_epochUnix (sample_snowflake\<lparr>sf_sequence := 4095\<rparr>))"
    by code_simp
  with snowflake_returns [of "sample_snowflake\<lparr>sf_sequence := 4095\<rparr>"
      "\<lambda>k. snowflakeEpoch + int k * 10 ^ 9" 0 1] show ?thesis
    by auto
qed

end
