(* ===== verification/Recorder.thy ===== *)
theory Recorder
  imports Visit_Repo Snowflake
begin

text \<open>
  \<open>internal/app/statapp/recorder.go\<close>: visits are put on a bounded queue, and one goroutine writes
  them to the visit log in batches. \<open>'w\<close> is the state of everything the recorder calls: the clock,
  the generator of ids and the repository. As in \<open>Async_Writer\<close>, the goroutine is at one of the
  points \<open>collector\<close>, \<open>collector_step\<close> is what it does when a case of its \<open>select\<close> is ready, and
  \<open>recorder_step\<close> interleaves it with its callers and the cancellation.
\<close>

section \<open>The recorder\<close>

record VisitEvent =
  ve_Code :: string
  ve_IP :: string
  ve_UserAgent :: string
  ve_Referer :: string
  ve_VisitedAt :: time

record 'w RecorderOptions =
  ro_Repository :: "(VisitLog list \<Rightarrow> 'w \<Rightarrow> go_error option \<times> 'w) option"
  ro_IDs :: "'w \<Rightarrow> (uint64 \<times> 'w) option"
  ro_QueueSize :: int
  ro_BatchSize :: int
  ro_FlushInterval :: duration
  ro_Now :: "('w \<Rightarrow> time \<times> 'w) option"

record 'w Recorder =
  rk_repo :: "(VisitLog list \<Rightarrow> 'w \<Rightarrow> go_error option \<times> 'w) option"
  rk_ids :: "'w \<Rightarrow> (uint64 \<times> 'w) option"
  rk_batchSize :: nat
  rk_flushInterval :: duration
  rk_now :: "'w \<Rightarrow> time \<times> 'w"

definition rec_defaultQueueSize :: int where "rec_defaultQueueSize = 4096"
definition rec_defaultBatchSize :: int where "rec_defaultBatchSize = 200"
definition rec_defaultFlushInterval :: duration where "rec_defaultFlushInterval = second"

definition NewRecorder ::
  "('w \<Rightarrow> time \<times> 'w) \<Rightarrow> 'w RecorderOptions \<Rightarrow> 'w Recorder \<times> VisitEvent chan" where
  "NewRecorder time_Now options =
     (let queueSize = (if ro_QueueSize options \<le> 0 then rec_defaultQueueSize else ro_QueueSize options);
          batchSize = (if ro_BatchSize options \<le> 0 then rec_defaultBatchSize else ro_BatchSize options);
          flushInterval = (if ro_FlushInterval options \<le> 0 then rec_defaultFlushInterval
                           else ro_FlushInterval options);
          now = (case ro_Now options of None \<Rightarrow> time_Now | Some f \<Rightarrow> f)
      in (\<lparr>rk_repo = ro_Repository options, rk_ids = ro_IDs options, rk_batchSize = nat batchSize,
           rk_flushInterval = flushInterval, rk_now = now\<rparr>, chan_make (nat queueSize)))"

text \<open>
  \<open>Record\<close> under a context of the caller with the error \<open>ctx_Err\<close>; \<open>pick_send\<close> is the choice when
  the send and the context are ready. The default runs only when neither is.
\<close>

definition Record ::
  "'w Recorder \<Rightarrow> bool \<Rightarrow> go_error option \<Rightarrow> VisitEvent \<Rightarrow> VisitEvent chan \<times> 'w \<Rightarrow>
   go_error option \<times> VisitEvent chan \<times> 'w" where
  "Record r pick_send ctx_Err event qw =
     (case qw of (q, w) \<Rightarrow>
        (case (if time_is_zero (ve_VisitedAt event)
               then (case rk_now r w of (now, w1) \<Rightarrow> (event\<lparr>ve_VisitedAt := now\<rparr>, w1))
               else (event, w)) of
           (event1, w1) \<Rightarrow>
             (case (chan_send event1 q, ctx_Err) of
                (Some q1, None) \<Rightarrow> (None, q1, w1)
              | (Some q1, Some err) \<Rightarrow> (if pick_send then (None, q1, w1) else (Some err, q, w1))
              | (None, Some err) \<Rightarrow> (Some err, q, w1)
              | (None, None) \<Rightarrow> (Some ErrQueueFull, q, w1))))"

text \<open>\<open>None\<close>: the generator does not return.\<close>

definition toVisitLog :: "'w Recorder \<Rightarrow> VisitEvent \<Rightarrow> 'w \<Rightarrow> (VisitLog \<times> 'w) option" where
  "toVisitLog r event w =
     (case rk_ids r w of
        None \<Rightarrow> None
      | Some (n, w1) \<Rightarrow>
          Some (\<lparr>vl_ID = n, vl_Code = ve_Code event, vl_VisitedAt = ve_VisitedAt event, vl_IP = ve_IP event,
                 vl_UserAgent = ve_UserAgent event, vl_Referer = ve_Referer event\<rparr>, w1))"

text \<open>The closure \<open>flush\<close> of \<open>run\<close>; the first result is the error that is dropped.\<close>

definition flush_batch :: "'w Recorder \<Rightarrow> VisitLog list \<Rightarrow> 'w \<Rightarrow> go_error option \<times> 'w" where
  "flush_batch r batch w =
     (case rk_repo r of
        None \<Rightarrow> (None, w)
      | Some createBatch \<Rightarrow> (if batch = [] then (None, w) else createBatch batch w))"

section \<open>The goroutine\<close>

text \<open>\<open>Collecting\<close>: in the outer \<open>select\<close>; \<open>Finishing\<close>: in the loop after the cancellation.\<close>

datatype collector = Collecting "VisitLog list" | Finishing "VisitLog list" | Closed

datatype rec_case = Rec_event | Rec_tick | Rec_done | Rec_drain

text \<open>A step yields the next point, the queue, the batch it flushed (if any) with the error, and \<open>'w\<close>.\<close>

definition add_event ::
  "'w Recorder \<Rightarrow> (VisitLog list \<Rightarrow> collector) \<Rightarrow> VisitLog list \<Rightarrow> VisitEvent \<Rightarrow> 'w \<Rightarrow>
   (collector \<times> VisitLog list \<times> go_error option \<times> 'w) option" where
  "add_event r point b event w =
     (case toVisitLog r event w of
        None \<Rightarrow> None
      | Some (entry, w1) \<Rightarrow>
          Some (if rk_batchSize r \<le> length (b @ [entry])
                then (point [], b @ [entry], flush_batch r (b @ [entry]) w1)
                else (point (b @ [entry]), [], None, w1)))"

fun collector_step ::
  "'w Recorder \<Rightarrow> bool \<Rightarrow> rec_case \<Rightarrow> collector \<times> VisitEvent chan \<times> 'w \<Rightarrow>
   (collector \<times> VisitEvent chan \<times> VisitLog list \<times> go_error option \<times> 'w) option" where
  "collector_step r cancelled Rec_done (Collecting b, q, w) =
     (if cancelled then Some (Finishing b, q, [], None, w) else None)"
| "collector_step r cancelled Rec_event (Collecting b, q, w) =
     (case chan_recv q of
        None \<Rightarrow> None
      | Some (event, q1) \<Rightarrow>
          (case add_event r Collecting b event w of None \<Rightarrow> None | Some (k, res) \<Rightarrow> Some (k, q1, res)))"
| "collector_step r cancelled Rec_tick (Collecting b, q, w) =
     Some (Collecting [], q, b, flush_batch r b w)"
| "collector_step r cancelled Rec_drain (Finishing b, q, w) =
     (case chan_recv q of
        None \<Rightarrow> Some (Closed, q, b, flush_batch r b w)
      | Some (event, q1) \<Rightarrow>
          (case add_event r Finishing b event w of None \<Rightarrow> None | Some (k, res) \<Rightarrow> Some (k, q1, res)))"
| "collector_step r cancelled _ _ = None"

section \<open>The goroutine and its callers\<close>

text \<open>
  Kept to state the properties: the events for which \<open>Record\<close> answered \<open>nil\<close> before and after the
  cancellation, as their callers gave them with the time of \<open>now\<close> in place of a zero time
  (\<open>stamped\<close>), and the batches that were flushed with the error of each flush. \<open>flushed_calls\<close> (below)
  is the claim that these flushes are calls of the repository.
\<close>

record 'w recording =
  rg_queue :: "VisitEvent chan"
  rg_point :: collector
  rg_world :: 'w
  rg_cancelled :: bool
  rg_early :: "VisitEvent list"
  rg_late :: "VisitEvent list"
  rg_flushes :: "(VisitLog list \<times> go_error option) list"

definition rg_flushed :: "'w recording \<Rightarrow> VisitLog list" where
  "rg_flushed s = concat (map fst (rg_flushes s))"

definition stamped :: "'w Recorder \<Rightarrow> 'w \<Rightarrow> VisitEvent \<Rightarrow> VisitEvent" where
  "stamped r w event =
     (if time_is_zero (ve_VisitedAt event) then event\<lparr>ve_VisitedAt := fst (rk_now r w)\<rparr> else event)"

definition take_event :: "VisitEvent \<Rightarrow> 'w recording \<Rightarrow> 'w recording" where
  "take_event event s =
     (if rg_cancelled s then s\<lparr>rg_late := rg_late s @ [event]\<rparr> else s\<lparr>rg_early := rg_early s @ [event]\<rparr>)"

inductive recorder_step :: "'w Recorder \<Rightarrow> 'w recording \<Rightarrow> 'w recording \<Rightarrow> bool" for r where
  accepted: "Record r pick ctx_Err event (rg_queue s, rg_world s) = (None, q, w) \<Longrightarrow>
    recorder_step r s ((take_event (stamped r (rg_world s) event) s)\<lparr>rg_queue := q, rg_world := w\<rparr>)"
| refused: "Record r pick ctx_Err event (rg_queue s, rg_world s) = (Some err, q, w) \<Longrightarrow>
    recorder_step r s (s\<lparr>rg_queue := q, rg_world := w\<rparr>)"
| cancel: "recorder_step r s (s\<lparr>rg_cancelled := True\<rparr>)"
| goroutine: "collector_step r (rg_cancelled s) c (rg_point s, rg_queue s, rg_world s) = Some (k, q, logs, err, w) \<Longrightarrow>
    recorder_step r s (s\<lparr>rg_point := k, rg_queue := q, rg_world := w,
      rg_flushes := rg_flushes s @ (if logs = [] then [] else [(logs, err)])\<rparr>)"

definition recording_start :: "('w \<Rightarrow> time \<times> 'w) \<Rightarrow> 'w RecorderOptions \<Rightarrow> 'w \<Rightarrow> 'w recording" where
  "recording_start time_Now options w =
     \<lparr>rg_queue = snd (NewRecorder time_Now options), rg_point = Collecting [], rg_world = w, rg_cancelled = False,
      rg_early = [], rg_late = [], rg_flushes = []\<rparr>"

text \<open>\<open>Done\<close> is closed when \<open>run\<close> has returned.\<close>

definition Done_closed :: "'w recording \<Rightarrow> bool" where
  "Done_closed s \<longleftrightarrow> rg_point s = Closed"

section \<open>What a step does\<close>

fun pending :: "collector \<Rightarrow> VisitLog list" where
  "pending (Collecting b) = b"
| "pending (Finishing b) = b"
| "pending Closed = []"

definition event_of :: "VisitLog \<Rightarrow> VisitEvent" where
  "event_of l = \<lparr>ve_Code = vl_Code l, ve_IP = vl_IP l, ve_UserAgent = vl_UserAgent l, ve_Referer = vl_Referer l,
     ve_VisitedAt = vl_VisitedAt l\<rparr>"

lemma toVisitLog_event: "toVisitLog r event w = Some (l, w1) \<Longrightarrow> event_of l = event"
  by (auto simp: toVisitLog_def event_of_def split: option.splits)

lemma recv_buffered: "chan_recv q = Some (x, q') \<Longrightarrow> buffered q = x # buffered q' \<and> capacity q' = capacity q"
  by (auto simp: chan_recv_def split: list.splits)

lemma recv_none: "chan_recv q = None \<longleftrightarrow> buffered q = []"
  by (auto simp: chan_recv_def split: list.splits)

lemma add_event_result:
  assumes "add_event r point b event w = Some (k, logs, err, w1)" and "0 < rk_batchSize r"
  shows "\<exists>l b'. event_of l = event \<and> k = point b' \<and> b @ [l] = logs @ b' \<and> length b' < rk_batchSize r"
proof -
  obtain l w2 where log: "toVisitLog r event w = Some (l, w2)"
    using assms(1) by (auto simp: add_event_def split: option.splits)
  with toVisitLog_event [OF log] assms show ?thesis
    by (intro exI [of _ l]) (auto simp: add_event_def split: if_splits)
qed

fun cancelled_point :: "collector \<Rightarrow> bool" where
  "cancelled_point (Collecting b) = False"
| "cancelled_point _ = True"

lemma flushed_length: "b @ [l] = logs @ b' \<Longrightarrow> length b < n \<Longrightarrow> length logs \<le> n"
  by (drule arg_cong [of _ _ length]) simp

lemma collector_step_effect:
  assumes "collector_step r cancelled c (k, q, w) = Some (k', q', logs, err, w')"
    and "0 < rk_batchSize r" and "length (pending k) < rk_batchSize r"
  shows "\<exists>new. buffered q = map event_of new @ buffered q' \<and> capacity q' = capacity q \<and>
    pending k @ new = logs @ pending k' \<and> length (pending k') < rk_batchSize r \<and>
    length logs \<le> rk_batchSize r \<and>
    (cancelled_point k' \<longrightarrow> cancelled_point k \<or> cancelled) \<and>
    (k' = Closed \<longrightarrow> buffered q' = []) \<and> k \<noteq> Closed"
  using assms(1)
proof (cases "(r, cancelled, c, k, q, w)" rule: collector_step.cases)
  case (2 r' c' b q1 w1)
  then obtain event res where recv: "chan_recv q = Some (event, q')"
    and add: "add_event r Collecting b event w = Some (k', logs, err, w')" and k: "k = Collecting b"
    using assms(1) by (auto split: option.splits)
  obtain l b' where new: "event_of l = event" "k' = Collecting b'" "b @ [l] = logs @ b'" "length b' < rk_batchSize r"
    using add_event_result [OF add assms(2)] by blast
  with flushed_length [OF new(3)] recv_buffered [OF recv] k assms(3) show ?thesis by (intro exI [of _ "[l]"]) simp
next
  case (4 r' c' b q1 w1)
  show ?thesis
  proof (cases "chan_recv q")
    case None
    with 4 assms(1) have "k = Finishing b" "k' = Closed" "q' = q" "logs = b" by auto
    with None assms(2,3) show ?thesis by (simp add: recv_none)
  next
    case (Some p)
    with 4 assms(1) obtain event where recv: "chan_recv q = Some (event, q')"
      and add: "add_event r Finishing b event w = Some (k', logs, err, w')" and k: "k = Finishing b"
      by (auto split: option.splits prod.splits)
    obtain l b' where new: "event_of l = event" "k' = Finishing b'" "b @ [l] = logs @ b'" "length b' < rk_batchSize r"
      using add_event_result [OF add assms(2)] by blast
    with flushed_length [OF new(3)] recv_buffered [OF recv] k assms(3) show ?thesis by (intro exI [of _ "[l]"]) simp
  qed
qed (use assms in \<open>auto split: if_splits\<close>)

section \<open>What all runs keep\<close>

definition recording_inv :: "'w Recorder \<Rightarrow> nat \<Rightarrow> 'w recording \<Rightarrow> bool" where
  "recording_inv r cap s \<longleftrightarrow>
     length (buffered (rg_queue s)) \<le> cap \<and> capacity (rg_queue s) = cap \<and>
     length (pending (rg_point s)) < rk_batchSize r \<and>
     (\<forall>(b, err) \<in> set (rg_flushes s). b \<noteq> [] \<and> length b \<le> rk_batchSize r) \<and>
     rg_early s @ rg_late s = map event_of (rg_flushed s @ pending (rg_point s)) @ buffered (rg_queue s) \<and>
     (cancelled_point (rg_point s) \<longrightarrow> rg_cancelled s) \<and>
     (\<not> rg_cancelled s \<longrightarrow> rg_late s = []) \<and>
     (rg_point s = Closed \<longrightarrow> length (buffered (rg_queue s)) \<le> length (rg_late s))"

lemma Record_result:
  assumes "Record r pick ctx_Err event (q, w) = (err, q', w')"
  shows "(if err = None then chan_send (stamped r w event) q = Some q' else q' = q) \<and>
    (w' = w \<or> (\<exists>t. rk_now r w = (t, w')))"
  using assms by (auto simp: Record_def stamped_def split: prod.splits option.splits if_splits)

lemma sent_buffered: "chan_send e q = Some q' \<Longrightarrow> buffered q' = buffered q @ [e] \<and> capacity q' = capacity q \<and>
    length (buffered q') \<le> capacity q"
  by (auto simp: chan_send_def split: if_splits)

lemma recording_inv_step:
  assumes "recorder_step r s s'" and "0 < rk_batchSize r" and "recording_inv r cap s"
  shows "recording_inv r cap s'"
  using assms(1)
proof (cases rule: recorder_step.cases)
  case (accepted pick ctx_Err event q w)
  have "chan_send (stamped r (rg_world s) event) (rg_queue s) = Some q" using Record_result [OF accepted(2)] by simp
  from sent_buffered [OF this] assms(3) show ?thesis
    unfolding accepted(1) recording_inv_def take_event_def rg_flushed_def by (cases "rg_cancelled s") auto
next
  case (refused pick ctx_Err event err q w)
  with Record_result [OF refused(2)] assms(3) show ?thesis by (simp add: recording_inv_def rg_flushed_def)
next
  case cancel
  with assms(3) show ?thesis by (simp add: recording_inv_def rg_flushed_def)
next
  case (goroutine c k q logs err w)
  have "length (pending (rg_point s)) < rk_batchSize r" using assms(3) by (simp add: recording_inv_def)
  from collector_step_effect [OF goroutine(2) assms(2) this] obtain new where
    step: "buffered (rg_queue s) = map event_of new @ buffered q" "capacity q = capacity (rg_queue s)"
      "pending (rg_point s) @ new = logs @ pending k" "length (pending k) < rk_batchSize r" "length logs \<le> rk_batchSize r"
      "cancelled_point k \<longrightarrow> cancelled_point (rg_point s) \<or> rg_cancelled s" "k = Closed \<longrightarrow> buffered q = []"
    by blast
  have "map event_of (rg_flushed s @ pending (rg_point s)) @ buffered (rg_queue s) =
      map event_of (rg_flushed s) @ map event_of (pending (rg_point s) @ new) @ buffered q"
    by (simp add: step(1))
  also have "\<dots> = map event_of ((rg_flushed s @ logs) @ pending k) @ buffered q"
    unfolding step(3) by simp
  finally have order: "map event_of (rg_flushed s @ pending (rg_point s)) @ buffered (rg_queue s) =
      map event_of ((rg_flushed s @ logs) @ pending k) @ buffered q" .
  have "length (buffered q) \<le> length (buffered (rg_queue s))" unfolding step(1) by simp
  moreover have "rg_flushed s' = rg_flushed s @ logs" unfolding goroutine(1) rg_flushed_def by simp
  ultimately show ?thesis
    using assms(3) step order unfolding recording_inv_def goroutine(1) by auto
qed

abbreviation recorder_of :: "('w \<Rightarrow> time \<times> 'w) \<Rightarrow> 'w RecorderOptions \<Rightarrow> 'w Recorder" where
  "recorder_of time_Now options \<equiv> fst (NewRecorder time_Now options)"

definition queue_capacity :: "'w RecorderOptions \<Rightarrow> nat" where
  "queue_capacity options = nat (if ro_QueueSize options \<le> 0 then 4096 else ro_QueueSize options)"

lemma recorder_batchSize: "0 < rk_batchSize (recorder_of time_Now options)"
  by (simp add: NewRecorder_def Let_def rec_defaultBatchSize_def)

lemma recording_inv_run:
  assumes "(recorder_step (recorder_of time_Now options))\<^sup>*\<^sup>* (recording_start time_Now options w) s"
  shows "recording_inv (recorder_of time_Now options) (queue_capacity options) s"
  using assms
proof (induction rule: rtranclp_induct)
  case base
  show ?case
    using recorder_batchSize [of time_Now options]
    by (simp add: recording_inv_def recording_start_def rg_flushed_def NewRecorder_def Let_def queue_capacity_def
        rec_defaultQueueSize_def rec_defaultBatchSize_def)
next
  case (step s s')
  then show ?case using recording_inv_step [OF _ recorder_batchSize] by blast
qed

text \<open>When \<open>run\<close> has returned, the flushed logs begin with the early events.\<close>

lemma closed_flushed:
  assumes "recording_inv r cap s" and "Done_closed s"
  shows "\<exists>rest. map event_of (rg_flushed s) = rg_early s @ rest"
proof -
  have eq: "rg_early s @ rg_late s = map event_of (rg_flushed s) @ buffered (rg_queue s)"
    and less: "length (buffered (rg_queue s)) \<le> length (rg_late s)"
    using assms by (simp_all add: recording_inv_def Done_closed_def)
  from arg_cong [OF eq, of length] less have "length (rg_early s) \<le> length (map event_of (rg_flushed s))"
    unfolding length_append by linarith
  with eq show ?thesis by (auto simp: append_eq_append_conv2 dest: sym)
qed

text \<open>What one step of the goroutine does to everything it calls: at most one call of the generator, then at most one flush.\<close>

lemma collector_step_world:
  assumes "collector_step r cancelled c (k, q, w) = Some (k', q', logs, err, w')"
  shows "\<exists>w1. (w1 = w \<or> (\<exists>n. rk_ids r w = Some (n, w1))) \<and> flush_batch r logs w1 = (err, w')"
proof -
  have add: "\<exists>w1. (w1 = w \<or> (\<exists>n. rk_ids r w = Some (n, w1))) \<and> flush_batch r logs w1 = (err, w')"
    if "add_event r point b event w = Some (k', logs, err, w')" for point b event
    using that by (auto simp: add_event_def toVisitLog_def flush_batch_def split: option.splits if_splits)
  show ?thesis
    using assms
  proof (cases "(r, cancelled, c, k, q, w)" rule: collector_step.cases)
    case (2 r' c' b q1 w1)
    with assms obtain event where "add_event r Collecting b event w = Some (k', logs, err, w')"
      by (auto split: option.splits)
    then show ?thesis by (rule add)
  next
    case (4 r' c' b q1 w1)
    show ?thesis
    proof (cases "chan_recv q")
      case None
      with 4 assms show ?thesis by auto
    next
      case (Some p)
      with 4 assms obtain event where "add_event r Finishing b event w = Some (k', logs, err, w')"
        by (auto split: option.splits prod.splits)
      then show ?thesis by (rule add)
    qed
  qed (use assms in \<open>auto simp: flush_batch_def split: if_splits option.splits\<close>)
qed

section \<open>The calls of the repository\<close>

text \<open>
  \<open>flushed_calls\<close> gives the batches of a list of flushes to \<open>f\<close>, one after the other from \<open>x\<close>, and is
  \<open>Some\<close> only if \<open>f\<close> answers each with the error in the list. In \<open>recorder_calls\<close>, \<open>view\<close> is any part
  of \<open>'w\<close> that neither clock nor generator changes and on which the repository acts as \<open>f\<close>: with the
  list of the calls received for \<open>view\<close>, the flushes are the calls.
\<close>

fun flushed_calls ::
  "(VisitLog list \<Rightarrow> 'x \<Rightarrow> go_error option \<times> 'x) \<Rightarrow> (VisitLog list \<times> go_error option) list \<Rightarrow> 'x \<Rightarrow> 'x option" where
  "flushed_calls f [] x = Some x"
| "flushed_calls f ((b, err) # bs) x =
     (case f b x of (err', x') \<Rightarrow> if err = err' then flushed_calls f bs x' else None)"

lemma flushed_calls_append:
  "flushed_calls f (bs @ cs) x = (case flushed_calls f bs x of None \<Rightarrow> None | Some x' \<Rightarrow> flushed_calls f cs x')"
  by (induction f bs x rule: flushed_calls.induct) (auto split: prod.splits)

definition recorder_calls ::
  "'w Recorder \<Rightarrow> ('w \<Rightarrow> 'x) \<Rightarrow> (VisitLog list \<Rightarrow> 'x \<Rightarrow> go_error option \<times> 'x) \<Rightarrow> bool" where
  "recorder_calls r view f \<longleftrightarrow>
     (\<forall>w t w'. rk_now r w = (t, w') \<longrightarrow> view w' = view w) \<and>
     (\<forall>w n w'. rk_ids r w = Some (n, w') \<longrightarrow> view w' = view w) \<and>
     (\<exists>createBatch. rk_repo r = Some createBatch \<and>
       (\<forall>logs w. case createBatch logs w of (err, w') \<Rightarrow> f logs (view w) = (err, view w')))"

lemma recorder_calls_run:
  assumes "recorder_calls r view f" and "(recorder_step r)\<^sup>*\<^sup>* s0 s" and "rg_flushes s0 = []"
  shows "flushed_calls f (rg_flushes s) (view (rg_world s0)) = Some (view (rg_world s))"
  using assms(2)
proof (induction rule: rtranclp_induct)
  case base
  with assms(3) show ?case by simp
next
  case (step s1 s2)
  have same: "view w = view (rg_world s1)" if "w = rg_world s1 \<or> (\<exists>t. rk_now r (rg_world s1) = (t, w))" for w
    using that assms(1) by (auto simp: recorder_calls_def)
  from step(2) show ?case
  proof (cases rule: recorder_step.cases)
    case (accepted pick ctx_Err event q w)
    with same [of w] Record_result [OF accepted(2)] step.IH show ?thesis by (simp add: take_event_def)
  next
    case (refused pick ctx_Err event err q w)
    with same [of w] Record_result [OF refused(2)] step.IH show ?thesis by simp
  next
    case cancel
    with step.IH show ?thesis by simp
  next
    case (goroutine c k q logs err w)
    obtain w1 where "w1 = rg_world s1 \<or> (\<exists>n. rk_ids r (rg_world s1) = Some (n, w1))"
      and call: "flush_batch r logs w1 = (err, w)" using collector_step_world [OF goroutine(2)] by blast
    then have "view w1 = view (rg_world s1)" using assms(1) by (auto simp: recorder_calls_def)
    with call assms(1) step.IH show ?thesis unfolding goroutine(1)
      by (fastforce simp: recorder_calls_def flush_batch_def flushed_calls_append split: option.splits if_splits prod.splits)
  qed
qed

section \<open>What reaches the visit log\<close>

text \<open>
  Everything the recorder calls, seen from the rows of the visit log; \<open>row\<close> relates a log to the rows
  that an insertion may make of it.
\<close>

locale visit_sink =
  fixes r :: "'w Recorder"
    and ok :: "'w \<Rightarrow> bool"
    and rows :: "'w \<Rightarrow> 'r set"
    and row :: "VisitLog \<Rightarrow> 'r \<Rightarrow> bool"
  assumes has_repo: "rk_repo r \<noteq> None"
    and now_rows: "ok w \<Longrightarrow> rk_now r w = (t, w') \<Longrightarrow> ok w' \<and> rows w' = rows w"
    and ids_rows: "ok w \<Longrightarrow> rk_ids r w = Some (n, w') \<Longrightarrow> ok w' \<and> rows w' = rows w"
    and batch_rows: "rk_repo r = Some f \<Longrightarrow> ok w \<Longrightarrow> f logs w = (e, w') \<Longrightarrow>
      ok w' \<and> rows w \<subseteq> rows w' \<and> (\<forall>x \<in> rows w' - rows w. \<exists>l \<in> set logs. row l x) \<and>
      (e = None \<longrightarrow> (\<forall>l \<in> set logs. \<exists>x \<in> rows w'. row l x))"
begin

definition stored :: "'r set \<Rightarrow> 'w \<Rightarrow> (VisitLog list \<times> go_error option) list \<Rightarrow> bool" where
  "stored R w flushes \<longleftrightarrow>
     ok w \<and> R \<subseteq> rows w \<and> (\<forall>x \<in> rows w - R. \<exists>l \<in> set (concat (map fst flushes)). row l x) \<and>
     (\<forall>b l. (b, None) \<in> set flushes \<and> l \<in> set b \<longrightarrow> (\<exists>x \<in> rows w. row l x))"

lemma stored_same: "stored R w flushes \<Longrightarrow> ok w' \<Longrightarrow> rows w' = rows w \<Longrightarrow> stored R w' flushes"
  by (simp add: stored_def)

lemma flush_stored:
  assumes "stored R w flushes" and "flush_batch r new w = (e, w')"
  shows "stored R w' (flushes @ (if new = [] then [] else [(new, e)]))"
proof (cases "new = []")
  case True
  with assms show ?thesis by (auto simp: flush_batch_def split: option.splits)
next
  case False
  obtain f where f: "rk_repo r = Some f" using has_repo by blast
  with assms(2) False have "f new w = (e, w')" by (simp add: flush_batch_def)
  note new = batch_rows [OF f _ this]
  have ok: "ok w" and old: "R \<subseteq> rows w"
    and from_logs: "\<And>x. x \<in> rows w - R \<Longrightarrow> \<exists>l \<in> set (concat (map fst flushes)). row l x"
    and kept: "\<And>b l. (b, None) \<in> set flushes \<Longrightarrow> l \<in> set b \<Longrightarrow> \<exists>x \<in> rows w. row l x"
    using assms(1) by (auto simp: stored_def)
  have "\<exists>l \<in> set (concat (map fst flushes) @ new). row l x" if "x \<in> rows w' - R" for x
    using that new [OF ok] from_logs [of x] by (cases "x \<in> rows w") auto
  moreover have "\<exists>x \<in> rows w'. row l x" if "(b, None) \<in> set (flushes @ [(new, e)])" "l \<in> set b" for b l
    using that new [OF ok] kept [of b l] by auto
  ultimately show ?thesis using new [OF ok] old False unfolding stored_def by auto
qed

lemma run_stored:
  assumes "(recorder_step r)\<^sup>*\<^sup>* s0 s" and "ok (rg_world s0)" and "rg_flushes s0 = []"
  shows "stored (rows (rg_world s0)) (rg_world s) (rg_flushes s)"
  using assms(1)
proof (induction rule: rtranclp_induct)
  case base
  with assms(2,3) show ?case by (simp add: stored_def)
next
  case (step s1 s2)
  have same: "ok w \<and> rows w = rows (rg_world s1)" if "w = rg_world s1 \<or> (\<exists>t. rk_now r (rg_world s1) = (t, w))" for w
    using that now_rows step.IH unfolding stored_def by metis
  from step(2) show ?case
  proof (cases rule: recorder_step.cases)
    case (accepted pick ctx_Err event q w)
    from same [of w] Record_result [OF accepted(2)] stored_same [OF step.IH, of w] show ?thesis
      unfolding accepted(1) by (simp add: take_event_def)
  next
    case (refused pick ctx_Err event err q w)
    from same [of w] Record_result [OF refused(2)] stored_same [OF step.IH, of w] show ?thesis
      unfolding refused(1) by simp
  next
    case cancel
    with step.IH show ?thesis by simp
  next
    case (goroutine c k q logs err w)
    obtain w1 where w1: "w1 = rg_world s1 \<or> (\<exists>n. rk_ids r (rg_world s1) = Some (n, w1))"
      and call: "flush_batch r logs w1 = (err, w)" using collector_step_world [OF goroutine(2)] by blast
    have "ok (rg_world s1)" using step.IH by (simp add: stored_def)
    with w1 ids_rows have "ok w1 \<and> rows w1 = rows (rg_world s1)" by blast
    with step.IH have "stored (rows (rg_world s0)) w1 (rg_flushes s1)" by (simp add: stored_same)
    from flush_stored [OF this call] show ?thesis unfolding goroutine(1) by simp
  qed
qed

end

section \<open>The recorder of statsvc\<close>

text \<open>
  \<open>cmd/statsvc/main.go\<close>: the recorder over the repository of visits and a snowflake generator; the
  state is the database, the generator and the number of clock readings.
\<close>

definition on_visits :: "('d \<Rightarrow> 'v \<times> 'd) \<Rightarrow> 'd \<times> Snowflake \<times> nat \<Rightarrow> 'v \<times> 'd \<times> Snowflake \<times> nat" where
  "on_visits f dw = (case f (fst dw) of (v, d) \<Rightarrow> (v, d, snd dw))"

definition statsvc_options :: "clock \<Rightarrow> 'd visit_db \<Rightarrow> ('d \<times> Snowflake \<times> nat) RecorderOptions" where
  "statsvc_options now V = \<lparr>
     ro_Repository = Some (\<lambda>visits. on_visits (Visit_CreateBatch V visits)),
     ro_IDs = (\<lambda>dw. case snowflake_next now (snd dw) of None \<Rightarrow> None | Some (n, sk) \<Rightarrow> Some (n, fst dw, sk)),
     ro_QueueSize = 0, ro_BatchSize = 0, ro_FlushInterval = 0, ro_Now = None\<rparr>"

definition statsvc_clock :: "clock \<Rightarrow> 'd \<times> Snowflake \<times> nat \<Rightarrow> time \<times> 'd \<times> Snowflake \<times> nat" where
  "statsvc_clock now dw = (now (snd (snd dw)), fst dw, fst (snd dw), Suc (snd (snd dw)))"

lemma statsvc_sink:
  assumes "visit_laws vt st ok V"
  shows "visit_sink (recorder_of (statsvc_clock now) (statsvc_options now V)) (\<lambda>dw. ok (fst dw))
    (\<lambda>dw. vt (fst dw)) (\<lambda>l. stored_visit (visitLogToRecord l))"
proof (unfold_locales, goal_cases)
  case (4 f w logs e w')
  then have run: "on_visits (Visit_CreateBatch V logs) w = (e, w')"
    by (auto simp: NewRecorder_def Let_def statsvc_options_def)
  show ?case
  proof (cases "logs = []")
    case True
    with run 4(2) show ?thesis by (auto simp: on_visits_def Visit_CreateBatch_def)
  next
    case False
    with run have "vd_insert V (map visitLogToRecord logs) (fst w) = (e, fst w')"
      by (auto simp: on_visits_def Visit_CreateBatch_def split: prod.splits)
    note inserted = visit_write_done(1) [OF assms 4(2) this]
    then consider (added) S where "stored_visits (map visitLogToRecord logs) S" "vt (fst w') = vt (fst w) \<union> S"
      | (none) "e \<noteq> None" "vt (fst w') = vt (fst w)" by blast
    then show ?thesis
    proof cases
      case added
      with stored_visits_cover [OF added(1)] inserted show ?thesis by fastforce
    next
      case none
      with inserted show ?thesis by auto
    qed
  qed
qed (auto simp: NewRecorder_def Let_def statsvc_options_def statsvc_clock_def split: option.splits)

interpretation mem_sink: visit_sink "recorder_of (statsvc_clock now) (statsvc_options now mem_visit_db)"
    "\<lambda>dw. mem_visits_ok (fst dw)" "\<lambda>dw. set (mv_visits (fst dw))"
    "\<lambda>l. stored_visit (visitLogToRecord l)" for now
  by (rule statsvc_sink [OF mem_visit_laws])

lemma statsvc_calls:
  "recorder_calls (recorder_of (statsvc_clock now) (statsvc_options now V)) fst (Visit_CreateBatch V)"
  by (auto simp: recorder_calls_def NewRecorder_def Let_def statsvc_options_def statsvc_clock_def on_visits_def
      split: option.splits prod.splits)

text \<open>
  \<open>visit_written\<close>: a row of the visit log holds the event; \<open>visit_refused\<close>: it was in a batch whose
  insertion was answered with an error.
\<close>

definition visit_written :: "('d \<Rightarrow> VisitLogRecord set) \<Rightarrow> ('d \<times> Snowflake \<times> nat) recording \<Rightarrow> VisitEvent \<Rightarrow> bool" where
  "visit_written vt s e \<longleftrightarrow>
     (\<exists>l. event_of l = e \<and> (\<exists>row \<in> vt (fst (rg_world s)). stored_visit (visitLogToRecord l) row))"

definition visit_refused :: "'w recording \<Rightarrow> VisitEvent \<Rightarrow> bool" where
  "visit_refused s e \<longleftrightarrow> (\<exists>b err. (b, Some err) \<in> set (rg_flushes s) \<and> e \<in> event_of ` set b)"

abbreviation statsvc_recorder :: "clock \<Rightarrow> 'd visit_db \<Rightarrow> ('d \<times> Snowflake \<times> nat) Recorder" where
  "statsvc_recorder now V \<equiv> fst (NewRecorder (statsvc_clock now) (statsvc_options now V))"

abbreviation statsvc_recording :: "clock \<Rightarrow> 'd visit_db \<Rightarrow> 'd \<Rightarrow> Snowflake \<times> nat \<Rightarrow> ('d \<times> Snowflake \<times> nat) recording" where
  "statsvc_recording now V d ids \<equiv> recording_start (statsvc_clock now) (statsvc_options now V) (d, ids)"

lemma statsvc_rows:
  assumes "visit_laws vt st ok V" and "ok d"
    and "(recorder_step (statsvc_recorder now V))\<^sup>*\<^sup>* (statsvc_recording now V d ids) s"
  shows "vt d \<subseteq> vt (fst (rg_world s))"
    and "row \<in> vt (fst (rg_world s)) - vt d \<Longrightarrow>
      \<exists>l. event_of l \<in> set (rg_early s @ rg_late s) \<and> stored_visit (visitLogToRecord l) row"
    and "e \<in> set (map event_of (rg_flushed s)) \<Longrightarrow> visit_written vt s e \<or> visit_refused s e"
proof -
  let ?s0 = "statsvc_recording now V d ids"
  have start: "ok (fst (rg_world ?s0))" "rg_flushes ?s0 = []" "fst (rg_world ?s0) = d"
    using assms(2) by (simp_all add: recording_start_def)
  note sink = statsvc_sink [OF assms(1)]
  note stored = visit_sink.run_stored [OF sink assms(3) start(1,2), unfolded visit_sink.stored_def [OF sink] start(3)]
  note cons = recording_inv_run [OF assms(3), unfolded recording_inv_def]
  show "vt d \<subseteq> vt (fst (rg_world s))" using stored by blast
  show "\<exists>l. event_of l \<in> set (rg_early s @ rg_late s) \<and> stored_visit (visitLogToRecord l) row"
    if new: "row \<in> vt (fst (rg_world s)) - vt d"
  proof -
    obtain l where "l \<in> set (rg_flushed s)" "stored_visit (visitLogToRecord l) row"
      using stored new unfolding rg_flushed_def by blast
    moreover from this(1) have "event_of l \<in> set (rg_early s @ rg_late s)" using cons by simp
    ultimately show ?thesis by blast
  qed
  show "visit_written vt s e \<or> visit_refused s e" if flushed: "e \<in> set (map event_of (rg_flushed s))"
  proof -
    obtain b err l where l: "(b, err) \<in> set (rg_flushes s)" "l \<in> set b" "event_of l = e"
      using flushed unfolding rg_flushed_def by auto
    show ?thesis
    proof (cases err)
      case None
      with stored l have "\<exists>row \<in> vt (fst (rg_world s)). stored_visit (visitLogToRecord l) row" by blast
      with l(3) show ?thesis unfolding visit_written_def by blast
    next
      case (Some e')
      with l show ?thesis unfolding visit_refused_def by blast
    qed
  qed
qed

section \<open>Properties\<close>

text \<open>
  C33 (invariant). The recorder hands what it accepts to the repository, once and in order. In every
  run the events that \<open>Record\<close> accepted from its callers are those of the flushed batches, then of the
  current batch, then the queued ones, with the fields their callers gave (a zero time replaced by
  the clock's). The flushes are non-empty, at most a batch long, and are exactly the calls that the
  repository receives, with the errors it answers: for each part \<open>view\<close> of the environment that only
  the repository changes, acting on it as \<open>f\<close>, its state is that after \<open>f\<close> on these batches. When
  \<open>run\<close> has returned, every event accepted before the cancellation has been flushed. \<open>Record\<close> never
  waits: with a full queue it answers \<open>ErrQueueFull\<close>.
\<close>

theorem recorder_conserves:
  assumes "(recorder_step (fst (NewRecorder time_Now options)))\<^sup>*\<^sup>* (recording_start time_Now options w) s"
    and "recorder_calls (fst (NewRecorder time_Now options)) view f"
  shows "flushed_calls f (rg_flushes s) (view w) = Some (view (rg_world s)) \<and>
    (\<forall>(b, err) \<in> set (rg_flushes s). b \<noteq> [] \<and> length b \<le> nat (if ro_BatchSize options \<le> 0 then 200 else ro_BatchSize options)) \<and>
    rg_early s @ rg_late s = map event_of (rg_flushed s @ pending (rg_point s)) @ buffered (rg_queue s) \<and>
    length (pending (rg_point s)) < nat (if ro_BatchSize options \<le> 0 then 200 else ro_BatchSize options) \<and>
    length (buffered (rg_queue s)) \<le> queue_capacity options \<and>
    (Done_closed s \<longrightarrow> (\<exists>rest. map event_of (rg_flushed s) = rg_early s @ rest)) \<and>
    fst (Record (fst (NewRecorder time_Now options)) pick None event (rg_queue s, w')) =
      (if length (buffered (rg_queue s)) < queue_capacity options then None else Some ErrQueueFull)"
proof -
  note inv = recording_inv_run [OF assms(1), unfolded recording_inv_def]
  have size: "rk_batchSize (recorder_of time_Now options) =
      nat (if ro_BatchSize options \<le> 0 then 200 else ro_BatchSize options)"
    by (simp add: NewRecorder_def Let_def rec_defaultBatchSize_def)
  have order: "rg_early s @ rg_late s = map event_of (rg_flushed s @ pending (rg_point s)) @ buffered (rg_queue s)"
    using inv by blast
  have "\<exists>rest. map event_of (rg_flushed s) = rg_early s @ rest" if "Done_closed s"
    by (rule closed_flushed [OF recording_inv_run [OF assms(1)] that])
  moreover have "fst (Record (recorder_of time_Now options) pick None event (rg_queue s, w')) =
      (if length (buffered (rg_queue s)) < queue_capacity options then None else Some ErrQueueFull)"
    using inv by (auto simp: Record_def chan_send_def split: prod.splits)
  moreover have "flushed_calls f (rg_flushes s) (view w) = Some (view (rg_world s))"
    using recorder_calls_run [OF assms(2,1)] by (simp add: recording_start_def)
  ultimately show ?thesis using inv order size by simp
qed

text \<open>
  C34 (safety). Over MySQL and a snowflake generator the recorder only adds rows of accepted events to
  the visit log, with the code, address, agent and referer they were recorded with and their time to
  the millisecond. When \<open>run\<close> has returned, every event accepted before the cancellation has such a
  row, or was in a batch whose insertion MySQL answered with an error, which \<open>run\<close> drops.
\<close>

theorem recorder_stores:
  assumes "visit_laws vt st ok V" and "ok d"
    and "(recorder_step (statsvc_recorder now V))\<^sup>*\<^sup>* (statsvc_recording now V d ids) s"
  shows "vt d \<subseteq> vt (fst (rg_world s)) \<and>
    (\<forall>row \<in> vt (fst (rg_world s)) - vt d. \<exists>l.
      event_of l \<in> set (rg_early s @ rg_late s) \<and> stored_visit (visitLogToRecord l) row) \<and>
    (Done_closed s \<longrightarrow> (\<forall>e \<in> set (rg_early s). visit_written vt s e \<or> visit_refused s e))"
proof -
  note rows = statsvc_rows [OF assms]
  have "visit_written vt s e \<or> visit_refused s e" if fin: "Done_closed s" "e \<in> set (rg_early s)" for e
  proof -
    obtain rest where "map event_of (rg_flushed s) = rg_early s @ rest"
      using closed_flushed [OF recording_inv_run [OF assms(3)] fin(1)] by blast
    with fin(2) rows(3) [of e] show ?thesis by simp
  qed
  with rows show ?thesis by blast
qed

text \<open>One visit is recorded, the context cancelled, and the recorder writes the visit and ends.\<close>

definition sample_event :: VisitEvent where
  "sample_event = \<lparr>ve_Code = NewShortCode 7, ve_IP = ''1.2.3.4'', ve_UserAgent = [], ve_Referer = [], ve_VisitedAt = 5000\<rparr>"

definition sample_log :: VisitLog where
  "sample_log = \<lparr>vl_ID = 20971532288, vl_Code = NewShortCode 7, vl_VisitedAt = 5000, vl_IP = ''1.2.3.4'',
     vl_UserAgent = [], vl_Referer = []\<rparr>"

definition no_visits :: mem_visits where
  "no_visits = \<lparr>mv_visits = [], mv_stats = [], mv_now = 0\<rparr>"

definition sample_recorder :: "(mem_visits \<times> Snowflake \<times> nat) Recorder" where
  "sample_recorder = recorder_of (statsvc_clock sample_clock) (statsvc_options sample_clock mem_visit_db)"

definition sample_recorded :: "(mem_visits \<times> Snowflake \<times> nat) recording" where
  "sample_recorded = \<lparr>rg_queue = chan_make 4096, rg_point = Closed,
     rg_world = (no_visits\<lparr>mv_visits := [visitLogToRecord sample_log]\<rparr>, sample_snowflake\<lparr>sf_lastMs := 5000\<rparr>, 1),
     rg_cancelled = True, rg_early = [sample_event], rg_late = [], rg_flushes = [([sample_log], None)]\<rparr>"

lemma sample_recorder_sel:
  "rk_batchSize sample_recorder = 200"
  "toVisitLog sample_recorder sample_event (d, sample_snowflake, 0) = Some (sample_log, d, sample_snowflake\<lparr>sf_lastMs := 5000\<rparr>, 1)"
  "flush_batch sample_recorder [sample_log] (no_visits, sk) = (None, no_visits\<lparr>mv_visits := [visitLogToRecord sample_log]\<rparr>, sk)"
  by (simp_all add: sample_recorder_def NewRecorder_def statsvc_options_def Let_def rec_defaultBatchSize_def toVisitLog_def
      snowflake_next_def sample_NextID sample_event_def sample_log_def flush_batch_def on_visits_def
      Visit_CreateBatch_def mem_visit_db_def no_visits_def visitLogToRecord_def)

lemma sample_recorded_run:
  "(recorder_step sample_recorder)\<^sup>*\<^sup>*
     (recording_start (statsvc_clock sample_clock) (statsvc_options sample_clock mem_visit_db) (no_visits, sample_snowflake, 0))
     sample_recorded"
proof -
  let ?r = sample_recorder and ?w = "(no_visits, sample_snowflake, 0 :: nat)"
  let ?q1 = "\<lparr>buffered = [sample_event], capacity = 4096\<rparr>" and ?q0 = "chan_make 4096 :: VisitEvent chan"
  let ?s0 = "\<lparr>rg_queue = ?q0, rg_point = Collecting [], rg_world = ?w, rg_cancelled = False,
      rg_early = [], rg_late = [], rg_flushes = []\<rparr>"
  let ?s1 = "?s0\<lparr>rg_queue := ?q1, rg_early := [sample_event]\<rparr>"
  let ?s2 = "?s1\<lparr>rg_cancelled := True\<rparr>"
  let ?s3 = "?s2\<lparr>rg_point := Finishing []\<rparr>"
  let ?w1 = "(no_visits, sample_snowflake\<lparr>sf_lastMs := 5000\<rparr>, 1 :: nat)"
  let ?s4 = "?s3\<lparr>rg_point := Finishing [sample_log], rg_queue := ?q0, rg_world := ?w1\<rparr>"
  have start: "recording_start (statsvc_clock sample_clock) (statsvc_options sample_clock mem_visit_db) ?w = ?s0"
    by (simp add: recording_start_def NewRecorder_def statsvc_options_def Let_def rec_defaultQueueSize_def)
  have "Record ?r True None sample_event (rg_queue ?s0, rg_world ?s0) = (None, ?q1, ?w)"
    by (simp add: Record_def sample_event_def time_is_zero_def zero_time_def chan_send_def chan_make_def)
  from recorder_step.accepted [OF this] have "recorder_step ?r ?s0 ?s1" by (simp add: take_event_def stamped_def time_is_zero_def zero_time_def sample_event_def)
  moreover have "recorder_step ?r ?s1 ?s2" by (rule recorder_step.cancel)
  moreover have "recorder_step ?r ?s2 ?s3"
    using recorder_step.goroutine [of ?r ?s2 Rec_done "Finishing []" ?q1 "[]" None ?w] by simp
  moreover have "recorder_step ?r ?s3 ?s4"
    using recorder_step.goroutine [of ?r ?s3 Rec_drain "Finishing [sample_log]" ?q0 "[]" None ?w1]
    by (simp add: chan_recv_def add_event_def sample_recorder_sel chan_make_def)
  moreover have "recorder_step ?r ?s4 sample_recorded"
    using recorder_step.goroutine [of ?r ?s4 Rec_drain Closed ?q0 "[sample_log]" None
        "(no_visits\<lparr>mv_visits := [visitLogToRecord sample_log]\<rparr>, sample_snowflake\<lparr>sf_lastMs := 5000\<rparr>, 1)"]
    by (simp add: chan_recv_def sample_recorder_sel sample_recorded_def)
  ultimately show ?thesis unfolding start by (meson converse_rtranclp_into_rtranclp rtranclp.rtrancl_refl)
qed

lemma recorder_conserves_witness:
  "map event_of (rg_flushed sample_recorded) = [sample_event] \<and> Done_closed sample_recorded \<and>
   flushed_calls (Visit_CreateBatch mem_visit_db) [([sample_log], None)] no_visits = Some (fst (rg_world sample_recorded))"
  using recorder_conserves [OF sample_recorded_run [unfolded sample_recorder_def] statsvc_calls]
  by (simp add: sample_recorded_def Done_closed_def rg_flushed_def)

lemma recorder_stores_witness:
  "visit_written (\<lambda>d. set (mv_visits d)) sample_recorded sample_event"
proof -
  have "mem_visits_ok no_visits" by (simp add: mem_visits_ok_def no_visits_def)
  from recorder_stores [OF mem_visit_laws this sample_recorded_run [unfolded sample_recorder_def]]
  show ?thesis by (simp add: Done_closed_def sample_recorded_def visit_refused_def)
qed

end
