(* ===== verification/Grpc_Api.thy ===== *)
theory Grpc_Api
  imports Link_Service Stat_Service Recorder "HOL-Library.Multiset"
begin

text \<open>
  \<open>internal/interfaces/grpcapi/api.go\<close>: the services behind gRPC. The messages of the generated
  package \<open>pb\<close> are records with the fields of \<open>api/proto\<close>; a pointer to a message is an option.
  \<^item> Conversions between domain values and messages, and between domain errors and statuses.
  \<^item> The three servers, over the operations of the services they hold.
  \<^item> \<open>GatewayClient\<close>, over the stubs of the generated package. What gRPC does between a stub and
    its server is the locale \<open>remote\<close>: a stub returns what the handler returned, or a status that
    the library itself makes, in which case the handler may have run or not.
\<close>

section \<open>Time stamps (timestamppb)\<close>

text \<open>\<open>Time.Unix\<close> and \<open>time.Unix\<close> count seconds in an \<open>int64\<close> that wraps around.\<close>

record Timestamp =
  ts_Seconds :: int64
  ts_Nanos :: "32 word"

definition timestamp_New :: "time \<Rightarrow> Timestamp" where
  "timestamp_New t = \<lparr>ts_Seconds = word_of_int ((t - unix_epoch) div second),
     ts_Nanos = word_of_int ((t - unix_epoch) mod second)\<rparr>"

definition AsTime :: "Timestamp \<Rightarrow> time" where
  "AsTime x =
     (let nsec = sint (ts_Nanos x);
          sec = ts_Seconds x + word_of_int (nsec div second) + 62135596800
      in sint sec * second + nsec mod second)"

text \<open>The getters of a nil message return zeros.\<close>

definition AsTime_ptr :: "Timestamp option \<Rightarrow> time" where
  "AsTime_ptr x = AsTime (case x of None \<Rightarrow> \<lparr>ts_Seconds = 0, ts_Nanos = 0\<rparr> | Some y \<Rightarrow> y)"

definition toTimestamp :: "time option \<Rightarrow> Timestamp option" where
  "toTimestamp v = (case v of None \<Rightarrow> None | Some t \<Rightarrow> Some (timestamp_New t))"

definition fromTimestampPtr :: "Timestamp option \<Rightarrow> time option" where
  "fromTimestampPtr v = (case v of None \<Rightarrow> None | Some x \<Rightarrow> Some (AsTime x))"

section \<open>Messages\<close>

record pb_ShortLink =
  pl_Id :: uint64
  pl_Code :: string
  pl_LongUrl :: string
  pl_Domain :: string
  pl_ExpireAt :: "Timestamp option"
  pl_Status :: "32 word"
  pl_CreatedAt :: "Timestamp option"
  pl_UpdatedAt :: "Timestamp option"

record pb_CreateShortLinkRequest =
  pc_LongUrl :: string
  pc_Domain :: string
  pc_ExpireAt :: "Timestamp option"

record pb_CreateShortLinkResponse =
  pr_Code :: string
  pr_ShortUrl :: string
  pr_LongUrl :: string
  pr_ExpireAt :: "Timestamp option"

record pb_ResolveRequest =
  pq_Code :: string

record pb_ResolveResponse =
  pi_Item :: "pb_ShortLink option"

record pb_LinkStatsRequest =
  pk_Code :: string

record pb_RefererStat =
  pf_Referer :: string
  pf_Pv :: uint64

record pb_LinkStatsResponse =
  pt_Code :: string
  pt_Pv :: uint64
  pt_Uv :: uint64
  pt_TodayPv :: uint64
  pt_Referers :: "pb_RefererStat list"
  pt_UpdatedAt :: "Timestamp option"

record pb_RecordVisitRequest =
  pv_Code :: string
  pv_Ip :: string
  pv_UserAgent :: string
  pv_Referer :: string
  pv_VisitedAt :: "Timestamp option"

definition toShortLinkMessage :: "ShortLink \<Rightarrow> pb_ShortLink" where
  "toShortLinkMessage item = \<lparr>pl_Id = sl_ID item, pl_Code = sl_Code item, pl_LongUrl = sl_LongURL item,
     pl_Domain = sl_Domain item, pl_ExpireAt = toTimestamp (sl_ExpireAt item), pl_Status = ucast (sl_Status item),
     pl_CreatedAt = Some (timestamp_New (sl_CreatedAt item)), pl_UpdatedAt = Some (timestamp_New (sl_UpdatedAt item))\<rparr>"

definition fromShortLinkMessage :: "pb_ShortLink option \<Rightarrow> ShortLink" where
  "fromShortLinkMessage m =
     (case m of
        None \<Rightarrow> zero_ShortLink
      | Some item \<Rightarrow> \<lparr>sl_ID = pl_Id item, sl_Code = pl_Code item, sl_LongURL = pl_LongUrl item,
          sl_Domain = pl_Domain item, sl_ExpireAt = fromTimestampPtr (pl_ExpireAt item), sl_Status = ucast (pl_Status item),
          sl_CreatedAt = AsTime_ptr (pl_CreatedAt item), sl_UpdatedAt = AsTime_ptr (pl_UpdatedAt item)\<rparr>)"

definition toLinkStatsResponse :: "LinkStats \<Rightarrow> pb_LinkStatsResponse" where
  "toLinkStatsResponse stats = \<lparr>pt_Code = ls_Code stats, pt_Pv = ls_PV stats, pt_Uv = ls_UV stats,
     pt_TodayPv = ls_TodayPV stats,
     pt_Referers = map (\<lambda>r. \<lparr>pf_Referer = rs_Referer r, pf_Pv = rs_PV r\<rparr>) (ls_Referers stats),
     pt_UpdatedAt = Some (timestamp_New (ls_UpdatedAt stats))\<rparr>"

definition fromLinkStatsResponse :: "pb_LinkStatsResponse \<Rightarrow> LinkStats" where
  "fromLinkStatsResponse resp = \<lparr>ls_Code = pt_Code resp, ls_PV = pt_Pv resp, ls_UV = pt_Uv resp,
     ls_TodayPV = pt_TodayPv resp,
     ls_Referers = map (\<lambda>r. \<lparr>rs_Referer = pf_Referer r, rs_PV = pf_Pv r\<rparr>) (pt_Referers resp),
     ls_UpdatedAt = AsTime_ptr (pt_UpdatedAt resp)\<rparr>"

section \<open>Errors\<close>

text \<open>\<open>strings.Contains\<close>.\<close>

fun strings_Contains :: "string \<Rightarrow> string \<Rightarrow> bool" where
  "strings_Contains [] sub = (sub = [])"
| "strings_Contains (c # s) sub = (starts_with sub (c # s) \<or> strings_Contains s sub)"

text \<open>The codes of a gRPC status, and an error as a call may return it: a status or another error.\<close>

datatype rpc_code =
    Rpc_Canceled | Rpc_Unknown | Rpc_InvalidArgument | Rpc_DeadlineExceeded | Rpc_NotFound | Rpc_AlreadyExists
  | Rpc_PermissionDenied | Rpc_ResourceExhausted | Rpc_FailedPrecondition | Rpc_Aborted | Rpc_OutOfRange
  | Rpc_Unimplemented | Rpc_Internal | Rpc_Unavailable | Rpc_DataLoss | Rpc_Unauthenticated

fun rpc_code_name :: "rpc_code \<Rightarrow> string" where
  "rpc_code_name Rpc_Canceled = ''Canceled''"
| "rpc_code_name Rpc_Unknown = ''Unknown''"
| "rpc_code_name Rpc_InvalidArgument = ''InvalidArgument''"
| "rpc_code_name Rpc_DeadlineExceeded = ''DeadlineExceeded''"
| "rpc_code_name Rpc_NotFound = ''NotFound''"
| "rpc_code_name Rpc_AlreadyExists = ''AlreadyExists''"
| "rpc_code_name Rpc_PermissionDenied = ''PermissionDenied''"
| "rpc_code_name Rpc_ResourceExhausted = ''ResourceExhausted''"
| "rpc_code_name Rpc_FailedPrecondition = ''FailedPrecondition''"
| "rpc_code_name Rpc_Aborted = ''Aborted''"
| "rpc_code_name Rpc_OutOfRange = ''OutOfRange''"
| "rpc_code_name Rpc_Unimplemented = ''Unimplemented''"
| "rpc_code_name Rpc_Internal = ''Internal''"
| "rpc_code_name Rpc_Unavailable = ''Unavailable''"
| "rpc_code_name Rpc_DataLoss = ''DataLoss''"
| "rpc_code_name Rpc_Unauthenticated = ''Unauthenticated''"

datatype rpc_error =
    Rpc_status rpc_code string
  | Rpc_other go_error

definition rpc_as_error :: "rpc_error \<Rightarrow> go_error" where
  "rpc_as_error err =
     (case err of
        Rpc_status c m \<Rightarrow> Errorf (''rpc error: code = '' @ rpc_code_name c @ '' desc = '' @ m)
      | Rpc_other e \<Rightarrow> e)"

text \<open>\<open>toStatus\<close> and \<open>fromStatus\<close> of an error; both map nil to nil.\<close>

definition status_of :: "go_error \<Rightarrow> rpc_error" where
  "status_of err =
     (if errors_Is err ErrInvalidCode \<or> errors_Is err ErrInvalidURL
      then Rpc_status Rpc_InvalidArgument (error_text err)
      else if errors_Is err ErrNotFound then Rpc_status Rpc_NotFound (error_text err)
      else if errors_Is err ErrExpired then Rpc_status Rpc_FailedPrecondition (error_text err)
      else if errors_Is err ErrQueueFull then Rpc_status Rpc_ResourceExhausted (error_text err)
      else Rpc_status Rpc_Internal (error_text err))"

definition toStatus :: "go_error option \<Rightarrow> rpc_error option" where
  "toStatus err = (case err of None \<Rightarrow> None | Some e \<Rightarrow> Some (status_of e))"

definition error_of_status :: "rpc_error \<Rightarrow> go_error" where
  "error_of_status err =
     (case err of
        Rpc_other e \<Rightarrow> e
      | Rpc_status c m \<Rightarrow>
          (case c of
             Rpc_InvalidArgument \<Rightarrow> if strings_Contains m ''url'' then ErrInvalidURL else ErrInvalidCode
           | Rpc_NotFound \<Rightarrow> ErrNotFound
           | Rpc_FailedPrecondition \<Rightarrow> ErrExpired
           | Rpc_ResourceExhausted \<Rightarrow> ErrQueueFull
           | Rpc_Unavailable \<Rightarrow> Wrapped ''grpc service unavailable: '' (rpc_as_error err)
           | _ \<Rightarrow> rpc_as_error err))"

definition fromStatus :: "rpc_error option \<Rightarrow> go_error option" where
  "fromStatus err = (case err of None \<Rightarrow> None | Some e \<Rightarrow> Some (error_of_status e))"

section \<open>The servers\<close>

text \<open>
  The operations of \<open>linkapp.Service\<close> and \<open>statapp.Service\<close> as the interfaces see them; \<open>None\<close>
  means that a call does not return.
\<close>

record 'w link_api =
  la_CreateShortLink :: "CreateRequest \<Rightarrow> 'w \<Rightarrow> ((go_error + CreateResponse) \<times> 'w) option"
  la_Resolve :: "string \<Rightarrow> 'w \<Rightarrow> (go_error + ShortLink) \<times> 'w"

type_synonym 'w stats_api = "string \<Rightarrow> 'w \<Rightarrow> (go_error + LinkStats) \<times> 'w"
type_synonym 'w visit_recorder = "VisitEvent \<Rightarrow> 'w \<Rightarrow> go_error option \<times> 'w"
type_synonym ('q, 'p, 'w) rpc_handler = "'q \<Rightarrow> 'w \<Rightarrow> ((rpc_error + 'p) \<times> 'w) option"
type_synonym ('q, 'p, 'w) rpc_stub = "duration \<Rightarrow> 'q \<Rightarrow> 'w \<Rightarrow> (rpc_error + 'p) \<times> 'w"

definition service_api :: "'w Service \<Rightarrow> 'w link_api" where
  "service_api s = \<lparr>la_CreateShortLink = CreateShortLink s, la_Resolve = Resolve s\<rparr>"

definition server_CreateShortLink ::
  "'w link_api \<Rightarrow> (pb_CreateShortLinkRequest, pb_CreateShortLinkResponse, 'w) rpc_handler" where
  "server_CreateShortLink service req w =
     (case la_CreateShortLink service \<lparr>cr_LongURL = pc_LongUrl req, cr_Domain = pc_Domain req,
             cr_ExpireAt = fromTimestampPtr (pc_ExpireAt req)\<rparr> w of
        None \<Rightarrow> None
      | Some (Inl err, w1) \<Rightarrow> Some (Inl (status_of err), w1)
      | Some (Inr resp, w1) \<Rightarrow>
          Some (Inr \<lparr>pr_Code = rs_Code resp, pr_ShortUrl = rs_ShortURL resp, pr_LongUrl = rs_LongURL resp,
                    pr_ExpireAt = toTimestamp (rs_ExpireAt resp)\<rparr>, w1))"

definition server_Resolve :: "'w link_api \<Rightarrow> (pb_ResolveRequest, pb_ResolveResponse, 'w) rpc_handler" where
  "server_Resolve service req w =
     (case la_Resolve service (pq_Code req) w of
        (Inl err, w1) \<Rightarrow> Some (Inl (status_of err), w1)
      | (Inr resp, w1) \<Rightarrow> Some (Inr \<lparr>pi_Item = Some (toShortLinkMessage resp)\<rparr>, w1))"

definition server_GetLinkStats :: "'w stats_api \<Rightarrow> (pb_LinkStatsRequest, pb_LinkStatsResponse, 'w) rpc_handler" where
  "server_GetLinkStats service req w =
     (case service (pk_Code req) w of
        (Inl err, w1) \<Rightarrow> Some (Inl (status_of err), w1)
      | (Inr resp, w1) \<Rightarrow> Some (Inr (toLinkStatsResponse resp), w1))"

definition server_RecordVisit :: "'w visit_recorder \<Rightarrow> (pb_RecordVisitRequest, unit, 'w) rpc_handler" where
  "server_RecordVisit record_visit req w =
     (case record_visit \<lparr>ve_Code = pv_Code req, ve_IP = pv_Ip req, ve_UserAgent = pv_UserAgent req,
             ve_Referer = pv_Referer req, ve_VisitedAt = AsTime_ptr (pv_VisitedAt req)\<rparr> w of
        (Some err, w1) \<Rightarrow> Some (Inl (status_of err), w1)
      | (None, w1) \<Rightarrow> Some (Inr (), w1))"

section \<open>The client\<close>

text \<open>\<open>'c\<close> is the type of connections; \<open>Close\<close> of a connection and \<open>dial\<close> are parameters.\<close>

record ('c, 'w) GatewayClient =
  gw_linkConn :: "'c option"
  gw_redirectConn :: "'c option"
  gw_statsConn :: "'c option"
  gw_CreateShortLink :: "(pb_CreateShortLinkRequest, pb_CreateShortLinkResponse, 'w) rpc_stub"
  gw_Resolve :: "(pb_ResolveRequest, pb_ResolveResponse, 'w) rpc_stub"
  gw_GetLinkStats :: "(pb_LinkStatsRequest, pb_LinkStatsResponse, 'w) rpc_stub"
  gw_RecordVisit :: "(pb_RecordVisitRequest, unit, 'w) rpc_stub"
  gw_timeout :: duration

definition defaultCallTimeout :: duration where
  "defaultCallTimeout = 2 * second"

definition withTimeout :: "('c, 'w) GatewayClient \<Rightarrow> duration" where
  "withTimeout c = (if gw_timeout c \<le> 0 then defaultCallTimeout else gw_timeout c)"

definition client_CreateShortLink ::
  "('c, 'w) GatewayClient \<Rightarrow> CreateRequest \<Rightarrow> 'w \<Rightarrow> (go_error + CreateResponse) \<times> 'w" where
  "client_CreateShortLink c req w =
     (case gw_CreateShortLink c (withTimeout c) \<lparr>pc_LongUrl = cr_LongURL req, pc_Domain = cr_Domain req,
             pc_ExpireAt = toTimestamp (cr_ExpireAt req)\<rparr> w of
        (Inl err, w1) \<Rightarrow> (Inl (error_of_status err), w1)
      | (Inr resp, w1) \<Rightarrow>
          (Inr \<lparr>rs_Code = pr_Code resp, rs_ShortURL = pr_ShortUrl resp, rs_LongURL = pr_LongUrl resp,
               rs_ExpireAt = fromTimestampPtr (pr_ExpireAt resp)\<rparr>, w1))"

definition client_Resolve :: "('c, 'w) GatewayClient \<Rightarrow> string \<Rightarrow> 'w \<Rightarrow> (go_error + ShortLink) \<times> 'w" where
  "client_Resolve c code w =
     (case gw_Resolve c (withTimeout c) \<lparr>pq_Code = code\<rparr> w of
        (Inl err, w1) \<Rightarrow> (Inl (error_of_status err), w1)
      | (Inr resp, w1) \<Rightarrow> (Inr (fromShortLinkMessage (pi_Item resp)), w1))"

definition client_GetLinkStats :: "('c, 'w) GatewayClient \<Rightarrow> string \<Rightarrow> 'w \<Rightarrow> (go_error + LinkStats) \<times> 'w" where
  "client_GetLinkStats c code w =
     (case gw_GetLinkStats c (withTimeout c) \<lparr>pk_Code = code\<rparr> w of
        (Inl err, w1) \<Rightarrow> (Inl (error_of_status err), w1)
      | (Inr resp, w1) \<Rightarrow> (Inr (fromLinkStatsResponse resp), w1))"

definition client_Record :: "('c, 'w) GatewayClient \<Rightarrow> VisitEvent \<Rightarrow> 'w \<Rightarrow> go_error option \<times> 'w" where
  "client_Record c event w =
     (case gw_RecordVisit c (withTimeout c) \<lparr>pv_Code = ve_Code event, pv_Ip = ve_IP event,
             pv_UserAgent = ve_UserAgent event, pv_Referer = ve_Referer event,
             pv_VisitedAt = Some (timestamp_New (ve_VisitedAt event))\<rparr> w of
        (Inl err, w1) \<Rightarrow> (fromStatus (Some err), w1)
      | (Inr _, w1) \<Rightarrow> (fromStatus None, w1))"

text \<open>
  \<open>NewGatewayClient\<close>: \<open>stubs c1 c2 c3\<close> is the client whose stubs work on these connections, before
  its timeout is set. The connections already open are closed when a later one fails.
\<close>

definition NewGatewayClient ::
  "(string \<Rightarrow> 'w \<Rightarrow> (go_error + 'c) \<times> 'w) \<Rightarrow> ('c \<Rightarrow> 'w \<Rightarrow> go_error option \<times> 'w) \<Rightarrow>
   ('c \<Rightarrow> 'c \<Rightarrow> 'c \<Rightarrow> ('c, 'w) GatewayClient) \<Rightarrow> string \<Rightarrow> string \<Rightarrow> string \<Rightarrow> 'w \<Rightarrow>
   (go_error + ('c, 'w) GatewayClient) \<times> 'w" where
  "NewGatewayClient dial conn_Close stubs linkAddr redirectAddr statsAddr w =
     (case dial linkAddr w of
        (Inl err, w1) \<Rightarrow> (Inl err, w1)
      | (Inr linkConn, w1) \<Rightarrow>
     (case dial redirectAddr w1 of
        (Inl err, w2) \<Rightarrow> (Inl err, snd (conn_Close linkConn w2))
      | (Inr redirectConn, w2) \<Rightarrow>
     (case dial statsAddr w2 of
        (Inl err, w3) \<Rightarrow> (Inl err, snd (conn_Close redirectConn (snd (conn_Close linkConn w3))))
      | (Inr statsConn, w3) \<Rightarrow>
          (Inr ((stubs linkConn redirectConn statsConn)\<lparr>gw_linkConn := Some linkConn,
              gw_redirectConn := Some redirectConn, gw_statsConn := Some statsConn,
              gw_timeout := defaultCallTimeout\<rparr>), w3))))"

text \<open>\<open>Close\<close>: the errors that \<open>errors.Join\<close> joins, in order; nil when there is none.\<close>

definition close_conn :: "('c \<Rightarrow> 'w \<Rightarrow> go_error option \<times> 'w) \<Rightarrow> 'c option \<Rightarrow> go_error list \<times> 'w \<Rightarrow> go_error list \<times> 'w" where
  "close_conn conn_Close conn errw =
     (case conn of
        None \<Rightarrow> errw
      | Some c \<Rightarrow>
          (case conn_Close c (snd errw) of
             (None, w1) \<Rightarrow> (fst errw, w1)
           | (Some e, w1) \<Rightarrow> (fst errw @ [e], w1)))"

definition gateway_Close :: "('c \<Rightarrow> 'w \<Rightarrow> go_error option \<times> 'w) \<Rightarrow> ('c, 'w) GatewayClient \<Rightarrow> 'w \<Rightarrow> go_error list \<times> 'w" where
  "gateway_Close conn_Close c w =
     close_conn conn_Close (gw_statsConn c)
       (close_conn conn_Close (gw_redirectConn c) (close_conn conn_Close (gw_linkConn c) ([], w)))"

section \<open>Round trips\<close>

text \<open>An instant that a \<open>time.Time\<close> can hold: its seconds since year 1 are an \<open>int64\<close>.\<close>

definition go_time :: "time \<Rightarrow> bool" where
  "go_time t \<longleftrightarrow> - (2 ^ 63) \<le> t div second \<and> t div second < 2 ^ 63"

definition go_link :: "ShortLink \<Rightarrow> bool" where
  "go_link item \<longleftrightarrow> (\<forall>t \<in> set_option (sl_ExpireAt item). go_time t) \<and> go_time (sl_CreatedAt item) \<and> go_time (sl_UpdatedAt item)"

lemma second_pos [simp]: "0 < second"
  by (simp add: second_def)

lemma sint_int64: "- (2 ^ 63) \<le> i \<Longrightarrow> i < 2 ^ 63 \<Longrightarrow> sint (word_of_int i :: int64) = i"
  by (simp add: sint_sbintrunc' signed_take_bit_int_eq_self)

lemma sint_nanos: "0 \<le> n \<Longrightarrow> n < second \<Longrightarrow> sint (word_of_int n :: 32 word) = n"
  by (simp add: sint_sbintrunc' signed_take_bit_int_eq_self second_def)

lemma AsTime_New [simp]:
  assumes "go_time t"
  shows "AsTime (timestamp_New t) = t"
proof -
  let ?n = "(t - unix_epoch) mod second"
  have n: "sint (ts_Nanos (timestamp_New t)) = ?n" by (simp add: timestamp_New_def sint_nanos)
  have split: "t = (t - unix_epoch) + 62135596800 * second" by (simp add: unix_epoch_def second_def)
  then have secs: "(t - unix_epoch) div second + 62135596800 = t div second"
    by (metis add.commute div_mult_self1 less_irrefl second_pos)
  have nanos: "?n = t mod second" using split by (metis mod_mult_self3 add.commute)
  have "ts_Seconds (timestamp_New t) + 62135596800 = (word_of_int (t div second) :: int64)"
    unfolding secs [symmetric] by (simp add: timestamp_New_def)
  moreover have "?n div second = 0" by (simp add: div_pos_pos_trivial)
  ultimately have "AsTime (timestamp_New t) = sint (word_of_int (t div second) :: int64) * second + t mod second"
    unfolding AsTime_def Let_def n by (simp add: nanos)
  with assms show ?thesis by (simp add: sint_int64 go_time_def)
qed

lemma AsTime_ptr_New [simp]: "go_time t \<Longrightarrow> AsTime_ptr (Some (timestamp_New t)) = t"
  by (simp add: AsTime_ptr_def)

lemma fromTimestampPtr_to: "(\<And>t. v = Some t \<Longrightarrow> go_time t) \<Longrightarrow> fromTimestampPtr (toTimestamp v) = v"
  by (cases v) (simp_all add: fromTimestampPtr_def toTimestamp_def)

lemma go_time_zero [simp]: "go_time 0"
  by (simp add: go_time_def)

text \<open>The epoch reads as itself: a message without a time is one of 1970, not of the zero time.\<close>

lemma AsTime_ptr_None: "AsTime_ptr None = unix_epoch"
  by (simp add: AsTime_ptr_def AsTime_def unix_epoch_def second_def)

lemma link_message_roundtrip: "go_link item \<Longrightarrow> fromShortLinkMessage (Some (toShortLinkMessage item)) = item"
  by (simp add: fromShortLinkMessage_def toShortLinkMessage_def go_link_def fromTimestampPtr_to ucast_up_ucast_id is_up)

lemma stats_message_roundtrip: "go_time (ls_UpdatedAt stats) \<Longrightarrow> fromLinkStatsResponse (toLinkStatsResponse stats) = stats"
  by (cases stats) (simp add: fromLinkStatsResponse_def toLinkStatsResponse_def comp_def map_idI)

text \<open>The sentinel errors of the domain, and the one an error is taken for on the wire.\<close>

definition domain_errors :: "go_error list" where
  "domain_errors = [ErrInvalidCode, ErrInvalidURL, ErrNotFound, ErrExpired, ErrQueueFull]"

lemma sentinel_roundtrip: "e \<in> set domain_errors \<Longrightarrow> error_of_status (status_of e) = e"
  by (auto simp: domain_errors_def status_of_def error_of_status_def starts_with_def)

lemma domain_error_seen:
  assumes "error_of_status (status_of e1) = e" and "e \<in> set domain_errors"
  shows "errors_Is e1 e \<or> e \<in> {ErrInvalidCode, ErrInvalidURL} \<and> (errors_Is e1 ErrInvalidCode \<or> errors_Is e1 ErrInvalidURL)"
  using assms by (auto simp: status_of_def error_of_status_def rpc_as_error_def domain_errors_def split: if_splits)

section \<open>Remote calls\<close>

text \<open>
  The statuses that gRPC itself makes; its documentation excludes the others. A call that failed has
  one of them, whatever the server did.
\<close>

definition transport_codes :: "rpc_code list" where
  "transport_codes = [Rpc_Canceled, Rpc_Unknown, Rpc_DeadlineExceeded, Rpc_ResourceExhausted, Rpc_Unimplemented,
     Rpc_Internal, Rpc_Unavailable, Rpc_Unauthenticated]"

definition transport_failed :: "rpc_error + 'p \<Rightarrow> bool" where
  "transport_failed res \<longleftrightarrow> (\<exists>c m. c \<in> set transport_codes \<and> res = Inl (Rpc_status c m))"

locale remote =
  fixes handler :: "('q, 'p, 'w) rpc_handler"
    and stub :: "('q, 'p, 'w) rpc_stub"
  assumes answers: "stub t q w = (res, w') \<Longrightarrow> handler q w = Some (res, w') \<or> transport_failed res"
begin

lemma answered: "stub t q w = (Inr p, w') \<Longrightarrow> handler q w = Some (Inr p, w')"
  using answers [of t q w "Inr p" w'] by (simp add: transport_failed_def)

lemma refused:
  "stub t q w = (Inl err, w') \<Longrightarrow>
   handler q w = Some (Inl err, w') \<or> (\<exists>c m. c \<in> set transport_codes \<and> err = Rpc_status c m)"
  using answers [of t q w "Inl err" w'] by (auto simp: transport_failed_def)

end

text \<open>
  A network: for every call it is known whether the request arrives and whether the reply does; a
  failure has one of the statuses above.
\<close>

datatype delivery = Delivered | Lost_request rpc_code string | Lost_reply rpc_code string

definition transport_error :: "rpc_code \<Rightarrow> string \<Rightarrow> rpc_error" where
  "transport_error c m = Rpc_status (if c \<in> set transport_codes then c else Rpc_Unavailable) m"

definition network ::
  "(duration \<Rightarrow> 'q \<Rightarrow> 'w \<Rightarrow> delivery) \<Rightarrow> ('q, 'p, 'w) rpc_handler \<Rightarrow> ('q, 'p, 'w) rpc_stub" where
  "network plan handler t q w =
     (case plan t q w of
        Lost_request c m \<Rightarrow> (Inl (transport_error c m), w)
      | Lost_reply c m \<Rightarrow> (case handler q w of None \<Rightarrow> (Inl (transport_error c m), w)
                          | Some (res, w1) \<Rightarrow> (Inl (transport_error c m), w1))
      | Delivered \<Rightarrow> (case handler q w of None \<Rightarrow> (Inl (transport_error Rpc_DeadlineExceeded []), w)
                     | Some (res, w1) \<Rightarrow> (res, w1)))"

lemma transport_error_failed [simp]: "transport_failed (Inl (transport_error c m))"
  by (simp add: transport_failed_def transport_error_def transport_codes_def)

interpretation net: remote handler "network plan handler" for handler plan
  by unfold_locales (auto simp: network_def split: delivery.splits option.splits)

lemma network_remote: "remote handler (network plan handler)"
  by (rule net.remote_axioms)

text \<open>What the client makes of a service's result, and of a call that failed.\<close>

fun relay :: "go_error + 'a \<Rightarrow> go_error + 'a" where
  "relay (Inr x) = Inr x"
| "relay (Inl e) = Inl (error_of_status (status_of e))"

definition rpc_failure :: "go_error \<Rightarrow> bool" where
  "rpc_failure e \<longleftrightarrow> (\<exists>c m. c \<in> set transport_codes \<and> e = error_of_status (Rpc_status c m))"

definition call_failed :: "go_error + 'a \<Rightarrow> bool" where
  "call_failed res \<longleftrightarrow> (\<exists>e. res = Inl e \<and> rpc_failure e)"

lemma rpc_failure_kinds: "rpc_failure e \<Longrightarrow> e \<notin> {ErrInvalidCode, ErrInvalidURL, ErrNotFound, ErrExpired}"
  by (auto simp: rpc_failure_def transport_codes_def error_of_status_def rpc_as_error_def)

lemma call_failed_Inl: "c \<in> set transport_codes \<Longrightarrow> call_failed (Inl (error_of_status (Rpc_status c m)))"
  by (auto simp: call_failed_def rpc_failure_def)

lemma client_Resolve_result:
  assumes "remote (server_Resolve links) (gw_Resolve c)" and "client_Resolve c code w = (v, w')"
  shows "call_failed v \<or> (\<exists>v1. la_Resolve links code w = (v1, w') \<and> ((\<forall>item. v1 = Inr item \<longrightarrow> go_link item) \<longrightarrow> v = relay v1))"
proof -
  obtain res where stub: "gw_Resolve c (withTimeout c) \<lparr>pq_Code = code\<rparr> w = (res, w')"
    using assms(2) by (auto simp: client_Resolve_def split: prod.splits sum.splits)
  from remote.answers [OF assms(1) stub] show ?thesis
    using assms(2) stub
    by (auto simp: client_Resolve_def server_Resolve_def transport_failed_def call_failed_Inl link_message_roundtrip
        split: prod.splits sum.splits)
qed

lemma client_CreateShortLink_result:
  assumes "remote (server_CreateShortLink links) (gw_CreateShortLink c)" and "client_CreateShortLink c req w = (v, w')"
    and "\<And>t. cr_ExpireAt req = Some t \<Longrightarrow> go_time t"
  shows "call_failed v \<or> (\<exists>v1. la_CreateShortLink links req w = Some (v1, w') \<and>
    ((\<forall>resp t. v1 = Inr resp \<and> rs_ExpireAt resp = Some t \<longrightarrow> go_time t) \<longrightarrow> v = relay v1))"
proof -
  let ?m = "\<lparr>pc_LongUrl = cr_LongURL req, pc_Domain = cr_Domain req, pc_ExpireAt = toTimestamp (cr_ExpireAt req)\<rparr>"
  obtain res where stub: "gw_CreateShortLink c (withTimeout c) ?m w = (res, w')"
    using assms(2) by (auto simp: client_CreateShortLink_def split: prod.splits sum.splits)
  have "\<lparr>cr_LongURL = pc_LongUrl ?m, cr_Domain = pc_Domain ?m, cr_ExpireAt = fromTimestampPtr (pc_ExpireAt ?m)\<rparr> = req"
    using fromTimestampPtr_to [OF assms(3)] by (cases req) simp
  with remote.answers [OF assms(1) stub] show ?thesis
    using assms(2) stub
    by (auto simp: client_CreateShortLink_def server_CreateShortLink_def transport_failed_def call_failed_Inl
        fromTimestampPtr_to split: prod.splits sum.splits option.splits)
qed

lemma client_GetLinkStats_result:
  assumes "remote (server_GetLinkStats stats) (gw_GetLinkStats c)" and "client_GetLinkStats c code w = (v, w')"
  shows "call_failed v \<or> (\<exists>v1. stats code w = (v1, w') \<and>
    ((\<forall>x. v1 = Inr x \<longrightarrow> go_time (ls_UpdatedAt x)) \<longrightarrow> v = relay v1))"
proof -
  obtain res where stub: "gw_GetLinkStats c (withTimeout c) \<lparr>pk_Code = code\<rparr> w = (res, w')"
    using assms(2) by (auto simp: client_GetLinkStats_def split: prod.splits sum.splits)
  from remote.answers [OF assms(1) stub] show ?thesis
    using assms(2) stub
    by (auto simp: client_GetLinkStats_def server_GetLinkStats_def transport_failed_def call_failed_Inl
        stats_message_roundtrip split: prod.splits sum.splits)
qed

lemma client_Record_result:
  assumes "remote (server_RecordVisit record_visit) (gw_RecordVisit c)" and "client_Record c event w = (e, w')"
    and "go_time (ve_VisitedAt event)"
  shows "(\<exists>err. e = Some err \<and> rpc_failure err) \<or>
    (\<exists>e1. record_visit event w = (e1, w') \<and> e = fromStatus (toStatus e1))"
proof -
  let ?m = "\<lparr>pv_Code = ve_Code event, pv_Ip = ve_IP event, pv_UserAgent = ve_UserAgent event,
    pv_Referer = ve_Referer event, pv_VisitedAt = Some (timestamp_New (ve_VisitedAt event))\<rparr>"
  obtain res where stub: "gw_RecordVisit c (withTimeout c) ?m w = (res, w')"
    using assms(2) by (auto simp: client_Record_def split: prod.splits sum.splits)
  have "\<lparr>ve_Code = pv_Code ?m, ve_IP = pv_Ip ?m, ve_UserAgent = pv_UserAgent ?m, ve_Referer = pv_Referer ?m,
      ve_VisitedAt = AsTime_ptr (pv_VisitedAt ?m)\<rparr> = event"
    using assms(3) by (cases event) simp
  with remote.answers [OF assms(1) stub] show ?thesis
    using assms(2) stub
    by (auto simp: client_Record_def server_RecordVisit_def transport_failed_def rpc_failure_def fromStatus_def toStatus_def
        split: prod.splits sum.splits option.splits)
qed

text \<open>
  Connections: \<open>conns w\<close> are the open ones. A client that cannot be built leaves none behind, and
  closing a client closes its three.
\<close>

lemma NewGatewayClient_conns:
  assumes dials: "\<And>addr w r w'. dial addr w = (r, w') \<Longrightarrow> conns w' = (case r of Inl e \<Rightarrow> conns w | Inr c \<Rightarrow> add_mset c (conns w))"
    and closes: "\<And>c w e w'. conn_Close c w = (e, w') \<Longrightarrow> conns w' = conns w - {#c#}"
    and new: "NewGatewayClient dial conn_Close stubs a1 a2 a3 w = (v, w')"
  shows "case v of Inl e \<Rightarrow> conns w' = conns w | Inr client \<Rightarrow> conns (snd (gateway_Close conn_Close client w')) = conns w"
proof -
  have snd_close: "conns (snd (conn_Close c w)) = conns w - {#c#}" for c w
    using closes [of c w] by (metis prod.collapse)
  have "snd (close_conn conn_Close (Some c) ew) = snd (conn_Close c (snd ew))" for c ew
    by (cases "conn_Close c (snd ew)"; cases "fst (conn_Close c (snd ew))") (simp_all add: close_conn_def)
  then have close1: "conns (snd (close_conn conn_Close (Some c) ew)) = conns (snd ew) - {#c#}" for c ew
    by (simp add: snd_close)
  obtain r1 w1 where d1: "dial a1 w = (r1, w1)" by fastforce
  obtain r2 w2 where d2: "dial a2 w1 = (r2, w2)" by fastforce
  obtain r3 w3 where d3: "dial a3 w2 = (r3, w3)" by fastforce
  note steps = dials [OF d1] dials [OF d2] dials [OF d3]
  show ?thesis
  proof (cases "(\<exists>e. r1 = Inl e) \<or> (\<exists>e. r2 = Inl e) \<or> (\<exists>e. r3 = Inl e)")
    case True
    then show ?thesis
      using new d1 d2 d3 steps by (cases r1; cases r2; cases r3) (auto simp: NewGatewayClient_def snd_close)
  next
    case False
    then obtain c1 c2 c3 where rs: "r1 = Inr c1" "r2 = Inr c2" "r3 = Inr c3" by (meson sum.exhaust)
    with new d1 d2 d3 have v: "v = Inr ((stubs c1 c2 c3)\<lparr>gw_linkConn := Some c1, gw_redirectConn := Some c2,
        gw_statsConn := Some c3, gw_timeout := defaultCallTimeout\<rparr>)" "w' = w3"
      by (simp_all add: NewGatewayClient_def)
    show ?thesis using steps unfolding v rs by (simp add: gateway_Close_def close1)
  qed
qed

section \<open>Properties\<close>

text \<open>
  C5 (roundtrip). The gateway's client is transparent: unless gRPC itself fails, each of its four calls
  has the effect of the service's operation and returns what it returned, the zero time of a visit
  and the absence of an expiry included. The errors of the domain arrive as themselves, one that
  wraps them as one of its kind, and a failure of gRPC is never taken for an invalid, missing or expired link.
\<close>

theorem gateway_transparent:
  assumes "remote (server_Resolve links) (gw_Resolve c)"
    and "remote (server_CreateShortLink links) (gw_CreateShortLink c)"
    and "remote (server_GetLinkStats stats) (gw_GetLinkStats c)"
    and "remote (server_RecordVisit record_visit) (gw_RecordVisit c)"
  shows "(client_Resolve c code w = (v, w') \<longrightarrow> call_failed v \<or>
      (\<exists>v1. la_Resolve links code w = (v1, w') \<and> ((\<forall>item. v1 = Inr item \<longrightarrow> go_link item) \<longrightarrow> v = relay v1))) \<and>
    (client_CreateShortLink c req w = (cv, w') \<and> (\<forall>t. cr_ExpireAt req = Some t \<longrightarrow> go_time t) \<longrightarrow> call_failed cv \<or>
      (\<exists>v1. la_CreateShortLink links req w = Some (v1, w') \<and>
        ((\<forall>resp t. v1 = Inr resp \<and> rs_ExpireAt resp = Some t \<longrightarrow> go_time t) \<longrightarrow> cv = relay v1))) \<and>
    (client_GetLinkStats c code w = (sv, w') \<longrightarrow> call_failed sv \<or>
      (\<exists>v1. stats code w = (v1, w') \<and> ((\<forall>x. v1 = Inr x \<longrightarrow> go_time (ls_UpdatedAt x)) \<longrightarrow> sv = relay v1))) \<and>
    (client_Record c event w = (e, w') \<and> go_time (ve_VisitedAt event) \<longrightarrow> (\<exists>err. e = Some err \<and> rpc_failure err) \<or>
      (\<exists>e1. record_visit event w = (e1, w') \<and> e = fromStatus (toStatus e1))) \<and>
    (\<forall>err \<in> set domain_errors. error_of_status (status_of err) = err \<and> (rpc_failure err \<longrightarrow> err = ErrQueueFull)) \<and>
    (error_of_status (status_of e1) \<in> set domain_errors \<longrightarrow> errors_Is e1 (error_of_status (status_of e1)) \<or>
      errors_Is e1 ErrInvalidCode \<or> errors_Is e1 ErrInvalidURL)"
proof (intro conjI impI ballI)
  show "call_failed v \<or>
      (\<exists>v1. la_Resolve links code w = (v1, w') \<and> ((\<forall>item. v1 = Inr item \<longrightarrow> go_link item) \<longrightarrow> v = relay v1))"
    if "client_Resolve c code w = (v, w')" by (rule client_Resolve_result [OF assms(1) that])
  show "call_failed cv \<or> (\<exists>v1. la_CreateShortLink links req w = Some (v1, w') \<and>
        ((\<forall>resp t. v1 = Inr resp \<and> rs_ExpireAt resp = Some t \<longrightarrow> go_time t) \<longrightarrow> cv = relay v1))"
    if "client_CreateShortLink c req w = (cv, w') \<and> (\<forall>t. cr_ExpireAt req = Some t \<longrightarrow> go_time t)"
    using client_CreateShortLink_result [OF assms(2)] that by blast
  show "call_failed sv \<or> (\<exists>v1. stats code w = (v1, w') \<and> ((\<forall>x. v1 = Inr x \<longrightarrow> go_time (ls_UpdatedAt x)) \<longrightarrow> sv = relay v1))"
    if "client_GetLinkStats c code w = (sv, w')" by (rule client_GetLinkStats_result [OF assms(3) that])
  show "(\<exists>err. e = Some err \<and> rpc_failure err) \<or>
      (\<exists>e1. record_visit event w = (e1, w') \<and> e = fromStatus (toStatus e1))"
    if "client_Record c event w = (e, w') \<and> go_time (ve_VisitedAt event)"
    using client_Record_result [OF assms(4)] that by blast
  show "error_of_status (status_of err) = err" if "err \<in> set domain_errors" for err
    by (rule sentinel_roundtrip [OF that])
  show "err = ErrQueueFull" if "err \<in> set domain_errors" "rpc_failure err" for err
    using that rpc_failure_kinds [OF that(2)] by (auto simp: domain_errors_def)
  show "errors_Is e1 (error_of_status (status_of e1)) \<or> errors_Is e1 ErrInvalidCode \<or> errors_Is e1 ErrInvalidURL"
    if "error_of_status (status_of e1) \<in> set domain_errors"
    using domain_error_seen [OF refl that] by blast
qed

text \<open>A client whose calls are delivered, over the service without caches.\<close>

definition bare_client :: "(unit, unit) GatewayClient" where
  "bare_client = \<lparr>gw_linkConn = None, gw_redirectConn = None, gw_statsConn = None,
     gw_CreateShortLink = network (\<lambda>t q w. Delivered) (server_CreateShortLink (service_api bare_service)),
     gw_Resolve = network (\<lambda>t q w. Delivered) (server_Resolve (service_api bare_service)),
     gw_GetLinkStats = network (\<lambda>t q w. Delivered) (server_GetLinkStats (\<lambda>code w. (Inl ErrNotFound, w))),
     gw_RecordVisit = network (\<lambda>t q w. Delivered) (server_RecordVisit (\<lambda>event w. (Some ErrQueueFull, w))),
     gw_timeout = 0\<rparr>"

lemma gateway_transparent_witness:
  "fst (client_Resolve bare_client (NewShortCode 7) ()) = Inl ErrNotFound \<and>
   fst (client_Record bare_client \<lparr>ve_Code = [], ve_IP = [], ve_UserAgent = [], ve_Referer = [], ve_VisitedAt = 0\<rparr> ()) =
     Some ErrQueueFull"
proof -
  let ?event = "\<lparr>ve_Code = [], ve_IP = [], ve_UserAgent = [], ve_Referer = [], ve_VisitedAt = 0\<rparr>"
  have stubs: "remote (server_Resolve (service_api bare_service)) (gw_Resolve bare_client)"
    "remote (server_CreateShortLink (service_api bare_service)) (gw_CreateShortLink bare_client)"
    "remote (server_GetLinkStats (\<lambda>code w. (Inl ErrNotFound, w))) (gw_GetLinkStats bare_client)"
    "remote (server_RecordVisit (\<lambda>event w. (Some ErrQueueFull, w))) (gw_RecordVisit bare_client)"
    by (simp_all add: bare_client_def network_remote)
  have run: "client_Resolve bare_client (NewShortCode 7) () = (Inl ErrNotFound, ())"
    "client_Record bare_client ?event () = (Some ErrQueueFull, ())"
    by (simp_all add: client_Resolve_def client_Record_def bare_client_def network_def server_Resolve_def server_RecordVisit_def
        service_api_def Resolve_def bare_service_def New_def sentinel_roundtrip domain_errors_def fromStatus_def status_of_def error_of_status_def)
  note law = gateway_transparent [OF stubs, where code = "NewShortCode 7" and v = "Inl ErrNotFound" and event = ?event and w = "()" and w' = "()"
      and e = "Some ErrQueueFull"]
  show ?thesis using run law by simp
qed

end
