(* ===== verification/Local_Cache.thy ===== *)
theory Local_Cache
  imports Ports "HOL-Library.AList"
begin

text \<open>
  \<open>internal/infrastructure/cache/local.go\<close>: the in-process LRU cache, a map from codes to list
  elements and a doubly linked list of the elements in the order of their last use.

  The pointers are modelled: an element is a handle, \<open>lc_heap\<close> gives the \<open>localItem\<close> an element
  points to (updated in place by \<open>Set\<close>), \<open>lc_lru\<close> is the list from \<open>Front\<close> to \<open>Back\<close>, and
  \<open>lc_items\<close> is the Go map as an association list with one pair per key. The mutex makes what a
  method does under it one atomic step; \<open>Set\<close> reads the clock before, at any distance. A method reads the cache's clock \<open>now\<close> as often as the code does.
  \<^item> \<open>local_inv\<close> says that the map and the list agree, every item is filed under its link's
    own code and the size is bounded; every operation keeps it.
  \<^item> \<open>lru_entries\<close> forgets the pointers; the operations refine those of a plain recency list.
\<close>

section \<open>The cache\<close>

record localItem =
  li_code :: string
  li_value :: ShortLink
  li_expireAt :: time

record Local =
  lc_items :: "(string \<times> nat) list"
  lc_lru :: "nat list"
  lc_heap :: "nat \<Rightarrow> localItem"
  lc_next :: nat
  lc_maxEntries :: int

definition NewLocalWithMaxEntries :: "int \<Rightarrow> Local" where
  "NewLocalWithMaxEntries maxEntries =
     \<lparr>lc_items = [], lc_lru = [],
      lc_heap = (\<lambda>_. \<lparr>li_code = [], li_value = zero_ShortLink, li_expireAt = zero_time\<rparr>),
      lc_next = 0, lc_maxEntries = (if maxEntries \<le> 0 then 10000 else maxEntries)\<rparr>"

definition NewLocal :: Local where
  "NewLocal = NewLocalWithMaxEntries 10000"

text \<open>\<open>!item.expireAt.IsZero() && !item.expireAt.After(now)\<close>\<close>

definition stale :: "time \<Rightarrow> time \<Rightarrow> bool" where
  "stale expireAt t \<longleftrightarrow> \<not> time_is_zero expireAt \<and> \<not> time_after expireAt t"

definition moveToFront :: "nat \<Rightarrow> nat list \<Rightarrow> nat list" where
  "moveToFront e l = (if e \<in> set l then e # remove1 e l else l)"

definition removeElementLocked :: "nat \<Rightarrow> Local \<Rightarrow> Local" where
  "removeElementLocked e c =
     c\<lparr>lc_items := AList.delete (li_code (lc_heap c e)) (lc_items c),
       lc_lru := remove1 e (lc_lru c)\<rparr>"

definition evictOneLocked :: "clock \<Rightarrow> Local \<times> nat \<Rightarrow> Local \<times> nat" where
  "evictOneLocked now ck =
     (case ck of (c, k) \<Rightarrow>
        (case find (\<lambda>e. stale (li_expireAt (lc_heap c e)) (now k)) (rev (lc_lru c)) of
           Some e \<Rightarrow> (removeElementLocked e c, Suc k)
         | None \<Rightarrow>
             (if lc_lru c = [] then (c, Suc k)
              else (removeElementLocked (last (lc_lru c)) c, Suc k))))"

definition Local_Get ::
  "clock \<Rightarrow> string \<Rightarrow> Local \<times> nat \<Rightarrow> (ShortLink \<times> bool \<times> go_error option) \<times> Local \<times> nat" where
  "Local_Get now code ck =
     (case ck of (c, k) \<Rightarrow>
        (case map_of (lc_items c) code of
           None \<Rightarrow> ((zero_ShortLink, False, None), c, k)
         | Some e \<Rightarrow>
             (let item = lc_heap c e;
                  k' = (if time_is_zero (li_expireAt item) then k else Suc k)
              in if stale (li_expireAt item) (now k)
                 then ((zero_ShortLink, False, None), removeElementLocked e c, k')
                 else ((li_value item, True, None), c\<lparr>lc_lru := moveToFront e (lc_lru c)\<rparr>, k'))))"

text \<open>The two ways of \<open>Set\<close>: the element of the code gets the new value, or a new element is pushed.\<close>

definition refreshElement :: "nat \<Rightarrow> ShortLink \<Rightarrow> time \<Rightarrow> Local \<Rightarrow> Local" where
  "refreshElement e item expireAt c =
     c\<lparr>lc_heap := (lc_heap c)(e := (lc_heap c e)\<lparr>li_value := item, li_expireAt := expireAt\<rparr>),
       lc_lru := moveToFront e (lc_lru c)\<rparr>"

definition pushElement :: "ShortLink \<Rightarrow> time \<Rightarrow> Local \<Rightarrow> Local" where
  "pushElement item expireAt c =
     (let e = lc_next c
      in c\<lparr>lc_heap := (lc_heap c)(e := \<lparr>li_code = sl_Code item, li_value = item, li_expireAt = expireAt\<rparr>),
           lc_items := AList.update (sl_Code item) e (lc_items c),
           lc_lru := e # lc_lru c,
           lc_next := Suc e\<rparr>)"

text \<open>
  \<open>Set\<close> reads the clock before it takes the lock: \<open>setLocked\<close> is what it does under the lock, with the
  expiry it computed before; \<open>Local_Set\<close> is a call that gets the lock at once.
\<close>

definition setLocked ::
  "clock \<Rightarrow> ShortLink \<Rightarrow> time \<Rightarrow> Local \<times> nat \<Rightarrow> go_error option \<times> Local \<times> nat" where
  "setLocked now item expireAt ck =
     (case ck of (c, k) \<Rightarrow>
        (case map_of (lc_items c) (sl_Code item) of
           Some e \<Rightarrow> (None, refreshElement e item expireAt c, k)
         | None \<Rightarrow>
             (case (if int (length (lc_items c)) \<ge> lc_maxEntries c
                    then evictOneLocked now (c, k) else (c, k)) of
                (c1, k1) \<Rightarrow> (None, pushElement item expireAt c1, k1))))"

definition Local_Set ::
  "clock \<Rightarrow> ShortLink \<Rightarrow> duration \<Rightarrow> Local \<times> nat \<Rightarrow> go_error option \<times> Local \<times> nat" where
  "Local_Set now item ttl ck =
     (case ck of (c, k) \<Rightarrow>
        (if 0 < ttl then setLocked now item (time_add (now k) ttl) (c, Suc k)
         else setLocked now item zero_time (c, k)))"

fun delete_codes :: "string list \<Rightarrow> Local \<Rightarrow> Local" where
  "delete_codes [] c = c"
| "delete_codes (code # codes) c =
     (case map_of (lc_items c) code of
        None \<Rightarrow> delete_codes codes c
      | Some e \<Rightarrow> delete_codes codes (removeElementLocked e c))"

definition Local_Delete :: "string list \<Rightarrow> Local \<times> nat \<Rightarrow> go_error option \<times> Local \<times> nat" where
  "Local_Delete codes ck = (None, delete_codes codes (fst ck), snd ck)"

section \<open>The invariant\<close>

definition elem_code :: "Local \<Rightarrow> nat \<Rightarrow> string" where
  "elem_code c e = li_code (lc_heap c e)"

definition local_inv :: "Local \<Rightarrow> bool" where
  "local_inv c \<longleftrightarrow>
     distinct (lc_lru c) \<and> distinct (map fst (lc_items c)) \<and>
     set (lc_items c) = (\<lambda>e. (elem_code c e, e)) ` set (lc_lru c) \<and>
     (\<forall>e \<in> set (lc_lru c). e < lc_next c \<and> elem_code c e = sl_Code (li_value (lc_heap c e))) \<and>
     0 < lc_maxEntries c \<and> int (length (lc_lru c)) \<le> lc_maxEntries c"

lemma local_invD:
  assumes "local_inv c"
  shows "distinct (lc_lru c)" "distinct (map fst (lc_items c))"
    "set (lc_items c) = (\<lambda>e. (elem_code c e, e)) ` set (lc_lru c)"
    "\<And>e. e \<in> set (lc_lru c) \<Longrightarrow> e < lc_next c"
    "\<And>e. e \<in> set (lc_lru c) \<Longrightarrow> elem_code c e = sl_Code (li_value (lc_heap c e))"
    "0 < lc_maxEntries c" "int (length (lc_lru c)) \<le> lc_maxEntries c"
  using assms unfolding local_inv_def by blast+

lemma items_Some_iff:
  assumes "local_inv c"
  shows "map_of (lc_items c) code = Some e \<longleftrightarrow> e \<in> set (lc_lru c) \<and> elem_code c e = code"
  using local_invD(2,3) [OF assms] by (auto simp: map_of_eq_Some_iff)

lemma items_None_iff:
  assumes "local_inv c"
  shows "map_of (lc_items c) code = None \<longleftrightarrow> code \<notin> elem_code c ` set (lc_lru c)"
  using local_invD(3) [OF assms] by (auto simp: map_of_eq_None_iff image_image)

lemma elem_code_inj: "local_inv c \<Longrightarrow> inj_on (elem_code c) (set (lc_lru c))"
proof (rule inj_onI)
  fix x y
  assume inv: "local_inv c" and xy: "x \<in> set (lc_lru c)" "y \<in> set (lc_lru c)" "elem_code c x = elem_code c y"
  then have "map_of (lc_items c) (elem_code c x) = Some x" "map_of (lc_items c) (elem_code c x) = Some y"
    by (simp_all add: items_Some_iff)
  then show "x = y" by simp
qed

text \<open>The map and the list have the same size.\<close>

lemma length_items: 
  assumes "local_inv c"
  shows "length (lc_items c) = length (lc_lru c)"
proof -
  have "length (lc_items c) = card (set (lc_items c))"
    using card_distinct_keys [OF local_invD(2) [OF assms]] by simp
  also have "\<dots> = card (set (lc_lru c))"
    using local_invD(3) [OF assms] by (simp add: card_image inj_on_def)
  also have "\<dots> = length (lc_lru c)"
    using local_invD(1) [OF assms] by (rule distinct_card)
  finally show ?thesis .
qed

lemma NewLocal_inv [wf_intros]: "local_inv (NewLocalWithMaxEntries n)"
  by (simp add: local_inv_def NewLocalWithMaxEntries_def)

lemma removeElement_sel [simp]:
  "lc_heap (removeElementLocked e c) = lc_heap c"
  "lc_next (removeElementLocked e c) = lc_next c"
  "lc_maxEntries (removeElementLocked e c) = lc_maxEntries c"
  "lc_lru (removeElementLocked e c) = remove1 e (lc_lru c)"
  "elem_code (removeElementLocked e c) = elem_code c"
  by (simp_all add: removeElementLocked_def elem_code_def fun_eq_iff)

lemma removeElement_inv [wf_intros]:
  assumes inv: "local_inv c" and e: "e \<in> set (lc_lru c)"
  shows "local_inv (removeElementLocked e c)"
proof -
  note D = local_invD [OF inv]
  have items: "lc_items (removeElementLocked e c) = AList.delete (elem_code c e) (lc_items c)"
    by (simp add: removeElementLocked_def elem_code_def)
  have "set (AList.delete (elem_code c e) (lc_items c)) = (\<lambda>x. (elem_code c x, x)) ` (set (lc_lru c) - {e})"
    using D(3) elem_code_inj [OF inv] e by (auto simp: AList.delete_eq inj_on_def)
  with D items show ?thesis
    by (auto simp: local_inv_def set_remove1_eq length_remove1 distinct_delete)
qed

lemma evictOne_props:
  assumes inv: "local_inv c" and run: "evictOneLocked now (c, k) = (c', k')"
  shows "local_inv c'" and "lc_lru c \<noteq> [] \<Longrightarrow> length (lc_lru c) = Suc (length (lc_lru c'))"
    and "set (lc_lru c') \<subseteq> set (lc_lru c)" and "lc_heap c' = lc_heap c" and "k' = Suc k"
    and "lc_maxEntries c' = lc_maxEntries c"
proof -
  have step: "(c' = c \<and> lc_lru c = []) \<or> (\<exists>e \<in> set (lc_lru c). c' = removeElementLocked e c)"
    and "k' = Suc k"
    using run
    by (auto simp: evictOneLocked_def split: option.splits if_splits dest!: find_SomeD intro: last_in_set)
  with inv show "local_inv c'" and "lc_lru c \<noteq> [] \<Longrightarrow> length (lc_lru c) = Suc (length (lc_lru c'))"
    and "set (lc_lru c') \<subseteq> set (lc_lru c)" and "lc_heap c' = lc_heap c" and "k' = Suc k"
    and "lc_maxEntries c' = lc_maxEntries c"
    by (auto intro: removeElement_inv simp: length_remove1 length_pos_if_in_set dest: set_remove1_subset [THEN subsetD])
qed

lemma moveToFront_set [simp]: "set (moveToFront e l) = set l"
  by (auto simp: moveToFront_def dest: set_remove1_subset [THEN subsetD] intro: in_set_remove1 [THEN iffD2])

lemma moveToFront_distinct [simp]: "distinct l \<Longrightarrow> distinct (moveToFront e l)"
  by (auto simp: moveToFront_def)

lemma moveToFront_length [simp]: "length (moveToFront e l) = length l"
  by (auto simp: moveToFront_def length_remove1 dest!: length_pos_if_in_set)

lemma Local_Get_inv [wf_intros]:
  "local_inv c \<Longrightarrow> Local_Get now code (c, k) = (r, c', k') \<Longrightarrow> local_inv c'"
  by (auto simp: Local_Get_def Let_def items_Some_iff split: option.splits if_splits
      intro: removeElement_inv)
    (auto simp: local_inv_def elem_code_def)

lemma update_new_key: "k \<notin> fst ` set xs \<Longrightarrow> AList.update k v xs = xs @ [(k, v)]"
  by (induction xs) auto

text \<open>An element of the list gets a new value under the same code and moves to the front.\<close>

lemma refresh_inv [wf_intros]:
  assumes inv: "local_inv c" and e: "e \<in> set (lc_lru c)" "elem_code c e = sl_Code item"
  shows "local_inv (refreshElement e item x c)" (is "local_inv ?c")
proof -
  note D = local_invD [OF inv]
  have codes: "elem_code ?c = elem_code c"
    by (auto simp: refreshElement_def elem_code_def fun_eq_iff)
  have vals: "elem_code c a = sl_Code (li_value (lc_heap ?c a))" if "a \<in> set (lc_lru c)" for a
    using that e D(5) by (cases "a = e") (auto simp: refreshElement_def)
  show ?thesis
    using D vals unfolding local_inv_def codes by (simp add: refreshElement_def)
qed

text \<open>A new element at the front, under a code the cache does not hold and with room for it.\<close>

lemma push_inv [wf_intros]:
  assumes inv: "local_inv c" and new: "map_of (lc_items c) (sl_Code item) = None"
    and room: "int (length (lc_lru c)) < lc_maxEntries c"
  shows "local_inv (pushElement item x c)" (is "local_inv ?c")
proof -
  note D = local_invD [OF inv]
  have fresh: "lc_next c \<notin> set (lc_lru c)" using D(4) by blast
  have items: "set (lc_items ?c) = insert (sl_Code item, lc_next c) (set (lc_items c))"
  proof -
    have "sl_Code item \<notin> fst ` set (lc_items c)" using new by (simp add: map_of_eq_None_iff)
    then have "AList.update (sl_Code item) (lc_next c) (lc_items c) = lc_items c @ [(sl_Code item, lc_next c)]"
      by (rule update_new_key)
    then show ?thesis by (simp add: pushElement_def Let_def)
  qed
  have codes: "elem_code ?c e = elem_code c e" if "e \<in> set (lc_lru c)" for e
    using that fresh by (auto simp: elem_code_def pushElement_def Let_def)
  have code: "elem_code ?c (lc_next c) = sl_Code item" by (simp add: elem_code_def pushElement_def Let_def)
  have "set (lc_items ?c) = (\<lambda>e. (elem_code ?c e, e)) ` set (lc_lru ?c)"
    unfolding items using D(3) codes code by (auto simp: image_iff pushElement_def Let_def)
  moreover have "e < lc_next ?c \<and> elem_code ?c e = sl_Code (li_value (lc_heap ?c e))"
    if "e \<in> set (lc_lru ?c)" for e
    using that D(4,5) [of e] codes [of e] code fresh
    by (cases "e = lc_next c") (auto simp: pushElement_def Let_def)
  ultimately show ?thesis
    using D fresh room unfolding local_inv_def by (auto simp: distinct_update pushElement_def Let_def)
qed

lemma make_room:
  assumes inv: "local_inv c"
    and run: "(if int (length (lc_items c)) \<ge> lc_maxEntries c
      then evictOneLocked now (c, k) else (c, k)) = (c1, k1)"
  shows "local_inv c1 \<and> set (lc_lru c1) \<subseteq> set (lc_lru c) \<and> lc_heap c1 = lc_heap c \<and>
      int (length (lc_lru c1)) < lc_maxEntries c1"
proof (cases "int (length (lc_items c)) \<ge> lc_maxEntries c")
  case True
  with run have "evictOneLocked now (c, k) = (c1, k1)" by simp
  note props = evictOne_props [OF inv this]
  from True local_invD(6) [OF inv] have "lc_lru c \<noteq> []" by (auto simp: length_items [OF inv])
  with props(2) have "length (lc_lru c) = Suc (length (lc_lru c1))" by simp
  with props local_invD(7) [OF inv] show ?thesis by simp
next
  case False
  with run inv length_items [OF inv] show ?thesis by simp
qed

lemma setLocked_inv [wf_intros]:
  assumes inv: "local_inv c" and run: "setLocked now item x (c, k) = (r, c', k')"
  shows "local_inv c'"
proof (cases "map_of (lc_items c) (sl_Code item)")
  case (Some e)
  then have e: "e \<in> set (lc_lru c)" "elem_code c e = sl_Code item"
    using items_Some_iff [OF inv] by auto
  show ?thesis
    using Some run refresh_inv [OF inv e] by (auto simp: setLocked_def)
next
  case None
  obtain c1 k2 where evict: "(if int (length (lc_items c)) \<ge> lc_maxEntries c
      then evictOneLocked now (c, k) else (c, k)) = (c1, k2)" by fastforce
  with None run have c': "c' = pushElement item x c1"
    unfolding setLocked_def by (simp split: prod.splits)
  have made: "local_inv c1 \<and> set (lc_lru c1) \<subseteq> set (lc_lru c) \<and> lc_heap c1 = lc_heap c \<and>
      int (length (lc_lru c1)) < lc_maxEntries c1"
    by (rule make_room [OF inv evict])
  then have inv1: "local_inv c1" and sub: "set (lc_lru c1) \<subseteq> set (lc_lru c)" and heap: "lc_heap c1 = lc_heap c"
    and room: "int (length (lc_lru c1)) < lc_maxEntries c1" by simp_all
  have "map_of (lc_items c1) (sl_Code item) = None"
    using None sub heap by (auto simp: items_None_iff inv inv1 elem_code_def)
  with c' push_inv [OF inv1 _ room] show ?thesis by simp
qed

lemma Local_Set_inv [wf_intros]:
  "local_inv c \<Longrightarrow> Local_Set now item ttl (c, k) = (r, c', k') \<Longrightarrow> local_inv c'"
  by (auto simp: Local_Set_def intro: setLocked_inv split: if_splits)

lemma delete_codes_inv: "local_inv c \<Longrightarrow> local_inv (delete_codes codes c)"
  by (induction codes c rule: delete_codes.induct)
    (auto simp: items_Some_iff split: option.splits intro: removeElement_inv)

section \<open>The contract of a cache\<close>

definition Local_holds :: "Local \<times> nat \<Rightarrow> string \<Rightarrow> ShortLink option" where
  "Local_holds ck code =
     map_option (\<lambda>e. li_value (lc_heap (fst ck) e)) (map_of (lc_items (fst ck)) code)"

lemma Local_holds_Some_iff:
  "local_inv c \<Longrightarrow> Local_holds (c, k) code = Some it \<longleftrightarrow>
   (\<exists>e \<in> set (lc_lru c). elem_code c e = code \<and> li_value (lc_heap c e) = it)"
  by (auto simp: Local_holds_def items_Some_iff)

lemma holds_remove:
  "Local_holds (removeElementLocked e c, k) = (Local_holds (c, j)) (elem_code c e := None)"
  by (auto simp: Local_holds_def removeElementLocked_def elem_code_def fun_eq_iff AList.delete_conv')

lemma holds_moveToFront [simp]: "Local_holds (c\<lparr>lc_lru := l\<rparr>, k) = Local_holds (c, j)"
  by (simp add: Local_holds_def fun_eq_iff)

lemma map_le_delete: "m(k := None) \<subseteq>\<^sub>m m"
  by (simp add: map_le_def)

lemma Local_Get_holds:
  "Local_Get now code (c, k) = (r, c', k') \<Longrightarrow> Local_holds (c', k') \<subseteq>\<^sub>m Local_holds (c, k)"
  by (auto simp: Local_Get_def Let_def holds_remove map_le_delete split: option.splits if_splits)
    (metis holds_moveToFront holds_remove map_le_delete map_le_refl)+

lemma evict_holds:
  assumes "evictOneLocked now (c, k) = (c', k')"
  shows "Local_holds (c', k') \<subseteq>\<^sub>m Local_holds (c, k)"
  using assms
  by (auto simp: evictOneLocked_def split: option.splits if_splits)
    (metis holds_moveToFront holds_remove map_le_delete map_le_refl)+

lemma holds_push:
  assumes "local_inv c"
  shows "Local_holds (pushElement item x c, k) = (Local_holds (c, j)) (sl_Code item \<mapsto> item)"
proof -
  have "lc_next c \<notin> set (lc_lru c)" using local_invD(4) [OF assms] by blast
  then show ?thesis
    by (auto simp: Local_holds_def pushElement_def Let_def fun_eq_iff AList.update_conv'
        items_Some_iff [OF assms] split: option.splits intro!: map_option_cong)
qed

lemma holds_refresh:
  assumes inv: "local_inv c" and e: "map_of (lc_items c) (sl_Code item) = Some e"
  shows "Local_holds (refreshElement e item x c, k) = (Local_holds (c, j)) (sl_Code item \<mapsto> item)"
proof
  fix code
  show "Local_holds (refreshElement e item x c, k) code = ((Local_holds (c, j)) (sl_Code item \<mapsto> item)) code"
  proof (cases "code = sl_Code item")
    case True
    with e show ?thesis by (simp add: Local_holds_def refreshElement_def)
  next
    case False
    then have "map_of (lc_items c) code \<noteq> Some e"
      using e by (auto simp: items_Some_iff [OF inv])
    with False show ?thesis
      by (cases "map_of (lc_items c) code") (auto simp: Local_holds_def refreshElement_def)
  qed
qed

lemma setLocked_holds:
  assumes inv: "local_inv c" and run: "setLocked now item x (c, k) = (r, c', k')"
  shows "Local_holds (c', k') \<subseteq>\<^sub>m (Local_holds (c, k)) (sl_Code item \<mapsto> item)"
    and "Local_holds (c', k') (sl_Code item) = Some item"
proof -
  have "Local_holds (c', k') \<subseteq>\<^sub>m (Local_holds (c, k)) (sl_Code item \<mapsto> item) \<and>
    Local_holds (c', k') (sl_Code item) = Some item"
  proof (cases "map_of (lc_items c) (sl_Code item)")
    case (Some e)
    with run have "c' = refreshElement e item x c"
      by (auto simp: setLocked_def)
    then show ?thesis using holds_refresh [OF inv Some, of x k' k] by simp
  next
    case None
    obtain c1 k2 where evict: "(if int (length (lc_items c)) \<ge> lc_maxEntries c
        then evictOneLocked now (c, k) else (c, k)) = (c1, k2)" by fastforce
    with None run have c': "c' = pushElement item x c1"
      unfolding setLocked_def by (auto split: prod.splits)
    have "local_inv c1" using make_room [OF inv evict] by simp
    moreover have "Local_holds (c1, k) \<subseteq>\<^sub>m Local_holds (c, k)"
    proof -
      have "Local_holds (c1, k) = Local_holds (c1, k2)" and "Local_holds (c, k) = Local_holds (c, k)"
        by (simp_all add: Local_holds_def fun_eq_iff)
      then show ?thesis using evict evict_holds [of now c k c1 k2] by (auto split: if_splits)
    qed
    ultimately show ?thesis
      using holds_push [of c1 item x k' k] unfolding c' by (auto simp: map_le_def dom_def split: if_splits)
  qed
  then show "Local_holds (c', k') \<subseteq>\<^sub>m (Local_holds (c, k)) (sl_Code item \<mapsto> item)"
    and "Local_holds (c', k') (sl_Code item) = Some item" by simp_all
qed

lemma Local_Set_holds:
  assumes "local_inv c" and "Local_Set now item ttl (c, k) = (r, c', k')"
  shows "Local_holds (c', k') \<subseteq>\<^sub>m (Local_holds (c, k)) (sl_Code item \<mapsto> item)"
    and "Local_holds (c', k') (sl_Code item) = Some item"
proof -
  obtain x j where run: "setLocked now item x (c, j) = (r, c', k')"
    using assms(2) by (auto simp: Local_Set_def split: if_splits)
  have "Local_holds (c, j) = Local_holds (c, k)" by (simp add: Local_holds_def fun_eq_iff)
  with setLocked_holds [OF assms(1) run]
  show "Local_holds (c', k') \<subseteq>\<^sub>m (Local_holds (c, k)) (sl_Code item \<mapsto> item)"
    and "Local_holds (c', k') (sl_Code item) = Some item" by simp_all
qed

lemma delete_codes_holds:
  "local_inv c \<Longrightarrow> Local_holds (delete_codes codes c, k) = (Local_holds (c, k)) |` (- set codes)"
proof (induction codes c rule: delete_codes.induct)
  case (1 c)
  then show ?case by (simp add: restrict_map_def)
next
  case (2 code codes c)
  show ?case
  proof (cases "map_of (lc_items c) code")
    case None
    then have "Local_holds (c, k) code = None" by (simp add: Local_holds_def)
    with "2.IH"(1) [OF None "2.prems"] None show ?thesis
      by (auto simp: restrict_map_def fun_eq_iff)
  next
    case (Some e)
    then have e: "e \<in> set (lc_lru c)" "elem_code c e = code"
      using items_Some_iff [OF "2.prems"] by auto
    with "2.IH"(2) [OF Some removeElement_inv [OF "2.prems" e(1)]] Some show ?thesis
      by (auto simp: restrict_map_def fun_eq_iff holds_remove [where j = k])
  qed
qed

interpretation local_cache: link_cache "Local_Get now" "Local_Set now" Local_Delete
    "\<lambda>ck. local_inv (fst ck)" Local_holds "\<lambda>_. True"
  for now
proof (unfold_locales, goal_cases)
  case (1 ck c r ck')
  then show ?case using Local_Get_inv by (metis prod.collapse)
next
  case (2 ck c it ck')
  then show ?case
    by (cases ck) (auto simp: Local_Get_def Local_holds_def Let_def split: option.splits if_splits)
next
  case (3 ck c r ck')
  then show ?case using Local_Get_holds by (metis prod.collapse)
next
  case (4 ck it ttl e ck')
  then show ?case using Local_Set_inv by (metis prod.collapse)
next
  case (5 ck it ttl e ck' c x)
  then have "Local_holds ck' \<subseteq>\<^sub>m (Local_holds ck)(sl_Code it \<mapsto> it)"
    using Local_Set_holds(1) by (metis prod.collapse)
  with 5 have "((Local_holds ck)(sl_Code it \<mapsto> it)) c = Some x"
    unfolding map_le_def by (metis domI)
  then show ?case by (auto split: if_splits)
next
  case (6 ck cs e ck')
  then show ?case using delete_codes_inv by (auto simp: Local_Delete_def)
next
  case (7 ck cs e ck')
  then show ?case
    using delete_codes_holds [of "fst ck" cs "snd ck"] by (auto simp: Local_Delete_def map_le_def)
next
  case (8 ck cs ck' c)
  then show ?case
    using delete_codes_holds [of "fst ck" cs "snd ck"] by (auto simp: Local_Delete_def)
next
  case (9 ck c it)
  then show ?case
    using Local_holds_Some_iff [of "fst ck" "snd ck"] local_invD(5) [of "fst ck"] by auto
qed

section \<open>Refinement: a recency list\<close>

text \<open>
  What the cache is for its users: the entries from the most to the least recently used, with no
  pointers and no second index.
\<close>

type_synonym recency = "(string \<times> ShortLink \<times> time) list"

definition lru_entries :: "Local \<Rightarrow> recency" where
  "lru_entries c =
     map (\<lambda>e. (elem_code c e, li_value (lc_heap c e), li_expireAt (lc_heap c e))) (lc_lru c)"

definition drop_code :: "string \<Rightarrow> recency \<Rightarrow> recency" where
  "drop_code code l = filter (\<lambda>x. fst x \<noteq> code) l"

definition rec_get :: "time \<Rightarrow> string \<Rightarrow> recency \<Rightarrow> ShortLink option \<times> recency" where
  "rec_get t code l =
     (case map_of l code of
        None \<Rightarrow> (None, l)
      | Some (v, x) \<Rightarrow>
          (if stale x t then (None, drop_code code l) else (Some v, (code, v, x) # drop_code code l)))"

definition rec_evict :: "time \<Rightarrow> recency \<Rightarrow> recency" where
  "rec_evict t l =
     (case find (\<lambda>x. stale (snd (snd x)) t) (rev l) of
        Some x \<Rightarrow> drop_code (fst x) l
      | None \<Rightarrow> butlast l)"

definition rec_set :: "int \<Rightarrow> time \<Rightarrow> ShortLink \<Rightarrow> time \<Rightarrow> recency \<Rightarrow> recency" where
  "rec_set limit t item x l =
     (sl_Code item, item, x) #
     (if sl_Code item \<in> fst ` set l then drop_code (sl_Code item) l
      else if int (length l) \<ge> limit then rec_evict t l else l)"

definition rec_delete :: "string list \<Rightarrow> recency \<Rightarrow> recency" where
  "rec_delete codes l = filter (\<lambda>x. fst x \<notin> set codes) l"

lemma entries_lookup:
  assumes inv: "local_inv c"
  shows "map_of (lru_entries c) code =
    map_option (\<lambda>e. (li_value (lc_heap c e), li_expireAt (lc_heap c e))) (map_of (lc_items c) code)"
proof -
  have dist: "distinct (map fst (lru_entries c))"
    using local_invD(1) [OF inv] elem_code_inj [OF inv]
    by (simp add: lru_entries_def comp_def distinct_map)
  show ?thesis
  proof (cases "map_of (lc_items c) code")
    case None
    then have "code \<notin> fst ` set (lru_entries c)"
      by (auto simp: items_None_iff [OF inv] lru_entries_def)
    then have "map_of (lru_entries c) code = None" by (simp only: map_of_eq_None_iff not_False_eq_True)
    with None show ?thesis by simp
  next
    case (Some e)
    then have "(code, li_value (lc_heap c e), li_expireAt (lc_heap c e)) \<in> set (lru_entries c)"
      by (auto simp: items_Some_iff [OF inv] lru_entries_def)
    with Some dist show ?thesis by (simp add: map_of_eq_Some_iff)
  qed
qed

lemma keys_entries: "fst ` set (lru_entries c) = elem_code c ` set (lc_lru c)"
  by (auto simp: lru_entries_def image_iff)

lemma entries_remove:
  assumes inv: "local_inv c" and e: "e \<in> set (lc_lru c)"
  shows "lru_entries (removeElementLocked e c) = drop_code (elem_code c e) (lru_entries c)"
proof -
  have "filter (\<lambda>y. y \<noteq> e) (lc_lru c) = filter (\<lambda>y. elem_code c y \<noteq> elem_code c e) (lc_lru c)"
    using elem_code_inj [OF inv] e by (auto intro!: filter_cong simp: inj_on_def)
  then show ?thesis
    by (simp add: lru_entries_def drop_code_def filter_map comp_def
        remove1_filter [OF local_invD(1) [OF inv]])
qed

lemma entries_moveToFront:
  assumes inv: "local_inv c" and e: "e \<in> set (lc_lru c)"
  shows "lru_entries (c\<lparr>lc_lru := moveToFront e (lc_lru c)\<rparr>) =
    (elem_code c e, li_value (lc_heap c e), li_expireAt (lc_heap c e)) # drop_code (elem_code c e) (lru_entries c)"
  using entries_remove [OF inv e] e
  by (simp add: lru_entries_def moveToFront_def elem_code_def)

lemma Local_Get_refines:
  assumes inv: "local_inv c" and run: "Local_Get now code (c, k) = ((it, ok, e), c', k')"
  shows "rec_get (now k) code (lru_entries c) = ((if ok then Some it else None), lru_entries c') \<and> e = None"
proof (cases "map_of (lc_items c) code")
  case None
  with run entries_lookup [OF inv, of code] show ?thesis
    by (auto simp: Local_Get_def rec_get_def)
next
  case (Some a)
  then have a: "a \<in> set (lc_lru c)" "elem_code c a = code" using items_Some_iff [OF inv] by auto
  with Some run entries_lookup [OF inv, of code] entries_remove [OF inv a(1)] entries_moveToFront [OF inv a(1)]
  show ?thesis by (auto simp: Local_Get_def rec_get_def Let_def split: if_splits)
qed

lemma evict_refines:
  assumes inv: "local_inv c" and run: "evictOneLocked now (c, k) = (c', k')"
  shows "lru_entries c' = rec_evict (now k) (lru_entries c)"
proof -
  let ?entry = "\<lambda>e. (elem_code c e, li_value (lc_heap c e), li_expireAt (lc_heap c e))"
  have find: "find (\<lambda>x. stale (snd (snd x)) t) (map ?entry l) =
      map_option ?entry (find (\<lambda>e. stale (li_expireAt (lc_heap c e)) t) l)" for t l
    by (induction l) auto
  have oldest: "find (\<lambda>x. stale (snd (snd x)) (now k)) (rev (lru_entries c)) =
      map_option ?entry (find (\<lambda>e. stale (li_expireAt (lc_heap c e)) (now k)) (rev (lc_lru c)))"
    by (simp only: lru_entries_def rev_map find)
  show ?thesis
  proof (cases "find (\<lambda>e. stale (li_expireAt (lc_heap c e)) (now k)) (rev (lc_lru c))")
    case (Some e)
    then have e: "e \<in> set (lc_lru c)" by (auto dest: find_SomeD)
    from Some run have "c' = removeElementLocked e c" by (simp add: evictOneLocked_def)
    with Some entries_remove [OF inv e] show ?thesis
      by (simp add: rec_evict_def oldest)
  next
    case None
    then have evict: "rec_evict (now k) (lru_entries c) = map ?entry (butlast (lc_lru c))"
      by (simp add: rec_evict_def oldest) (simp add: lru_entries_def map_butlast)
    show ?thesis
    proof (cases "lc_lru c = []")
      case True
      with None run evict show ?thesis by (simp add: evictOneLocked_def lru_entries_def)
    next
      case False
      then obtain l e where l: "lc_lru c = l @ [e]" by (metis rev_exhaust)
      then have "e \<notin> set l" using local_invD(1) [OF inv] by simp
      then have "remove1 e (l @ [e]) = l" by (simp add: remove1_append)
      moreover from None run False have "c' = removeElementLocked (last (lc_lru c)) c"
        by (simp add: evictOneLocked_def)
      then have "lru_entries c' = map ?entry (remove1 e (l @ [e]))"
        using l by (simp add: lru_entries_def)
      ultimately show ?thesis using evict l by simp
    qed
  qed
qed

lemma entries_push:
  assumes "local_inv c"
  shows "lru_entries (pushElement item x c) = (sl_Code item, item, x) # lru_entries c"
proof -
  have "lc_next c \<notin> set (lc_lru c)" using local_invD(4) [OF assms] by blast
  then show ?thesis by (auto simp: lru_entries_def pushElement_def Let_def elem_code_def)
qed

lemma entries_refresh:
  assumes inv: "local_inv c" and e: "e \<in> set (lc_lru c)" "elem_code c e = sl_Code item"
  shows "lru_entries (refreshElement e item x c) = (sl_Code item, item, x) # drop_code (sl_Code item) (lru_entries c)"
proof -
  let ?c = "refreshElement e item x c"
  have "e \<notin> set (remove1 e (lc_lru c))" using local_invD(1) [OF inv] by simp
  then have "map (\<lambda>a. (elem_code ?c a, li_value (lc_heap ?c a), li_expireAt (lc_heap ?c a))) (remove1 e (lc_lru c)) =
      lru_entries (removeElementLocked e c)"
    by (auto simp: lru_entries_def refreshElement_def elem_code_def)
  with e entries_remove [OF inv e(1)] show ?thesis
    by (simp add: lru_entries_def [of ?c]) (simp add: refreshElement_def moveToFront_def elem_code_def)
qed

lemma setLocked_refines:
  assumes inv: "local_inv c" and run: "setLocked now item x (c, k) = (r, c', k')"
  shows "lru_entries c' = rec_set (lc_maxEntries c) (now k) item x (lru_entries c) \<and> r = None"
proof (cases "map_of (lc_items c) (sl_Code item)")
  case (Some e)
  then have e: "e \<in> set (lc_lru c)" "elem_code c e = sl_Code item"
    using items_Some_iff [OF inv] by auto
  then have "sl_Code item \<in> fst ` set (lru_entries c)" unfolding keys_entries by (metis imageI)
  with Some run entries_refresh [OF inv e] show ?thesis
    by (auto simp: setLocked_def rec_set_def)
next
  case None
  have new: "sl_Code item \<notin> fst ` set (lru_entries c)"
    using None by (simp add: keys_entries items_None_iff [OF inv])
  obtain c1 k2 where evict: "(if int (length (lc_items c)) \<ge> lc_maxEntries c
      then evictOneLocked now (c, k) else (c, k)) = (c1, k2)" by fastforce
  with None run have "c' = pushElement item x c1" and "r = None"
    unfolding setLocked_def by (auto split: prod.splits)
  moreover have "local_inv c1" using make_room [OF inv evict] by simp
  moreover have "lru_entries c1 =
      (if int (length (lru_entries c)) \<ge> lc_maxEntries c then rec_evict (now k) (lru_entries c) else lru_entries c)"
    using evict evict_refines [OF inv, of now k c1 k2]
    by (auto simp: length_items [OF inv] lru_entries_def split: if_splits)
  ultimately show ?thesis
    using new entries_push [of c1 item x] by (simp add: rec_set_def)
qed

text \<open>The time at which \<open>Set\<close> evicts: its second reading when the time to live is positive.\<close>

lemma Local_Set_refines:
  assumes "local_inv c" and "Local_Set now item ttl (c, k) = (r, c', k')"
  shows "lru_entries c' =
    rec_set (lc_maxEntries c) (now (if 0 < ttl then Suc k else k)) item
      (if 0 < ttl then time_add (now k) ttl else zero_time) (lru_entries c) \<and> r = None"
  using assms setLocked_refines by (auto simp: Local_Set_def split: if_splits)

lemma delete_codes_refines:
  "local_inv c \<Longrightarrow> lru_entries (delete_codes codes c) = rec_delete codes (lru_entries c)"
proof (induction codes c rule: delete_codes.induct)
  case (1 c)
  then show ?case by (simp add: rec_delete_def)
next
  case (2 code codes c)
  have split: "rec_delete (code # codes) l = rec_delete codes (drop_code code l)" for l
    by (auto simp: rec_delete_def drop_code_def intro: filter_cong)
  show ?case
  proof (cases "map_of (lc_items c) code")
    case None
    then have "code \<notin> fst ` set (lru_entries c)"
      by (simp add: keys_entries items_None_iff [OF "2.prems"])
    then have "drop_code code (lru_entries c) = lru_entries c"
      by (auto simp: drop_code_def filter_id_conv image_iff)
    with None "2.IH"(1) [OF None "2.prems"] show ?thesis by (simp add: split)
  next
    case (Some e)
    then have e: "e \<in> set (lc_lru c)" "elem_code c e = code"
      using items_Some_iff [OF "2.prems"] by auto
    with Some "2.IH"(2) [OF Some removeElement_inv [OF "2.prems" e(1)]] entries_remove [OF "2.prems" e(1)]
    show ?thesis by (simp add: split)
  qed
qed

section \<open>Runs of the cache\<close>

text \<open>\<open>OpLocked\<close>: a \<open>Set\<close> that read the clock before other operations got the lock.\<close>

datatype local_op = OpGet string | OpSet ShortLink duration | OpLocked ShortLink time | OpDelete "string list"

fun local_step :: "clock \<Rightarrow> local_op \<Rightarrow> Local \<times> nat \<Rightarrow> Local \<times> nat" where
  "local_step now (OpGet code) ck = snd (Local_Get now code ck)"
| "local_step now (OpSet item ttl) ck = snd (Local_Set now item ttl ck)"
| "local_step now (OpLocked item expireAt) ck = snd (setLocked now item expireAt ck)"
| "local_step now (OpDelete codes) ck = snd (Local_Delete codes ck)"

definition local_run :: "clock \<Rightarrow> local_op list \<Rightarrow> Local \<times> nat \<Rightarrow> Local \<times> nat" where
  "local_run now ops ck = fold (local_step now) ops ck"

fun mentions :: "string \<Rightarrow> local_op \<Rightarrow> bool" where
  "mentions code (OpGet c) = (c = code)"
| "mentions code (OpSet item ttl) = (sl_Code item = code)"
| "mentions code (OpLocked item expireAt) = (sl_Code item = code)"
| "mentions code (OpDelete codes) = (code \<in> set codes)"

lemma local_step_inv [wf_intros]: "local_inv (fst ck) \<Longrightarrow> local_inv (fst (local_step now op ck))"
proof (cases op)
  case (OpGet code)
  assume "local_inv (fst ck)"
  then show ?thesis
    using Local_Get_inv [of "fst ck" now code "snd ck"] by (simp add: OpGet) (metis prod.collapse)
next
  case (OpSet item ttl)
  assume "local_inv (fst ck)"
  then show ?thesis
    using Local_Set_inv [of "fst ck" now item ttl "snd ck"] by (simp add: OpSet) (metis prod.collapse)
next
  case (OpLocked item x)
  assume "local_inv (fst ck)"
  then show ?thesis
    using setLocked_inv [of "fst ck" now item x "snd ck"] by (simp add: OpLocked) (metis prod.collapse)
next
  case (OpDelete codes)
  assume "local_inv (fst ck)"
  then show ?thesis using delete_codes_inv by (simp add: OpDelete Local_Delete_def)
qed

lemma local_run_inv: "local_inv (fst ck) \<Longrightarrow> local_inv (fst (local_run now ops ck))"
  unfolding local_run_def by (induction ops arbitrary: ck) (simp_all only: fold.simps id_apply comp_apply local_step_inv)

lemma evict_max: "lc_maxEntries (fst (evictOneLocked now ck)) = lc_maxEntries (fst ck)"
  by (auto simp: evictOneLocked_def split: prod.splits option.splits)

lemma delete_codes_max: "lc_maxEntries (delete_codes codes c) = lc_maxEntries c"
  by (induction codes c rule: delete_codes.induct) (auto split: option.splits)

lemma setLocked_max: "lc_maxEntries (fst (snd (setLocked now item x ck))) = lc_maxEntries (fst ck)"
proof -
  have "lc_maxEntries c1 = lc_maxEntries c" if "evictOneLocked now (c, k) = (c1, k1)" for c k c1 k1
    using evict_max [of now "(c, k)"] that by simp
  then show ?thesis
    by (cases ck) (auto simp: setLocked_def Let_def refreshElement_def pushElement_def split: option.splits prod.splits)
qed

lemma local_step_max: "lc_maxEntries (fst (local_step now op ck)) = lc_maxEntries (fst ck)"
proof (cases op)
  case (OpSet item ttl)
  then show ?thesis by (cases ck) (simp add: Local_Set_def setLocked_max)
next
  case (OpLocked item x)
  then show ?thesis by (simp add: setLocked_max)
qed (auto simp: Local_Get_def Local_Delete_def Let_def delete_codes_max split: prod.splits option.splits)

lemma local_run_max: "lc_maxEntries (fst (local_run now ops ck)) = lc_maxEntries (fst ck)"
  unfolding local_run_def
  by (induction ops arbitrary: ck) (simp_all only: fold.simps id_apply comp_apply local_step_max)

lemma local_step_clock: "snd ck \<le> snd (local_step now op ck)"
  by (cases op; cases ck)
    (auto simp: Local_Get_def Local_Set_def setLocked_def Local_Delete_def evictOneLocked_def Let_def
      split: option.splits prod.splits if_splits)

lemma local_run_clock: "snd ck \<le> snd (local_run now ops ck)"
  unfolding local_run_def
proof (induction ops arbitrary: ck)
  case Nil
  then show ?case by simp
next
  case (Cons op ops)
  have "snd ck \<le> snd (local_step now op ck)" by (rule local_step_clock)
  also have "\<dots> \<le> snd (fold (local_step now) ops (local_step now op ck))" by (rule Cons.IH)
  finally show ?case by simp
qed

section \<open>Least recently used\<close>

text \<open>At depth at most \<open>d\<close>: fewer than \<open>d + 1\<close> entries were used after the entry.\<close>

definition at_depth :: "nat \<Rightarrow> string \<times> ShortLink \<times> time \<Rightarrow> recency \<Rightarrow> bool" where
  "at_depth d en l \<longleftrightarrow> (\<exists>xs ys. l = xs @ en # ys \<and> length xs \<le> d)"

lemma at_depth_mono: "at_depth d en l \<Longrightarrow> d \<le> d' \<Longrightarrow> at_depth d' en l"
  unfolding at_depth_def using order.trans by blast

lemma at_depth_Cons: "at_depth d en l \<Longrightarrow> at_depth (Suc d) en (x # l)"
  unfolding at_depth_def by (metis Suc_le_mono append_Cons length_Cons)

lemma at_depth_filter:
  assumes "at_depth d en l" and "P en"
  shows "at_depth d en (filter P l)"
proof -
  obtain xs ys where "l = xs @ en # ys" and "length xs \<le> d" using assms(1) by (auto simp: at_depth_def)
  then have "filter P l = filter P xs @ en # filter P ys" and "length (filter P xs) \<le> d"
    using assms(2) \<open>length xs \<le> d\<close> order.trans [OF length_filter_le [of P xs]] by auto
  then show ?thesis unfolding at_depth_def by blast
qed

lemma at_depth_drop: "at_depth d en l \<Longrightarrow> fst en \<noteq> code \<Longrightarrow> at_depth d en (drop_code code l)"
  unfolding drop_code_def by (rule at_depth_filter) simp

lemma at_depth_butlast:
  assumes "at_depth d en l" and "Suc d < length l"
  shows "at_depth d en (butlast l)"
proof -
  obtain xs ys where l: "l = xs @ en # ys" "length xs \<le> d" using assms(1) by (auto simp: at_depth_def)
  with assms(2) have "ys \<noteq> []" by auto
  with l show ?thesis unfolding at_depth_def by (auto simp: butlast_append)
qed

lemma at_depth_evict:
  assumes depth: "at_depth d en l" and room: "Suc d < length l"
    and keys: "distinct (map fst l)" and fresh: "\<not> stale (snd (snd en)) t"
  shows "at_depth d en (rec_evict t l)"
proof (cases "find (\<lambda>x. stale (snd (snd x)) t) (rev l)")
  case None
  then show ?thesis using at_depth_butlast [OF depth room] by (simp add: rec_evict_def)
next
  case (Some x)
  then have x: "x \<in> set l" "stale (snd (snd x)) t" by (auto dest: find_SomeD)
  have "en \<in> set l" using depth by (auto simp: at_depth_def)
  with keys x fresh have "fst en \<noteq> fst x" by (metis eq_key_imp_eq_value prod.collapse)
  with Some depth show ?thesis by (simp add: rec_evict_def at_depth_drop)
qed

lemma distinct_entries: "local_inv c \<Longrightarrow> distinct (map fst (lru_entries c))"
  using local_invD(1) elem_code_inj by (simp add: lru_entries_def comp_def distinct_map)

text \<open>One operation that does not mention the code moves the entry down by at most one place.\<close>

lemma setLocked_depth:
  assumes inv: "local_inv c" and code: "sl_Code item \<noteq> fst en"
    and depth: "at_depth d en (lru_entries c)" and room: "int (Suc d) < lc_maxEntries c"
    and fresh: "\<And>j. j \<le> snd (snd (setLocked now item x (c, k))) \<Longrightarrow> \<not> stale (snd (snd en)) (now j)"
  shows "at_depth (Suc d) en (lru_entries (fst (snd (setLocked now item x (c, k)))))"
proof -
  let ?l = "lru_entries c"
  obtain r c' k' where run: "setLocked now item x (c, k) = (r, c', k')" by (metis prod.collapse)
  have "k \<le> k'"
    using run by (auto simp: setLocked_def evictOneLocked_def split: option.splits prod.splits if_splits)
  with fresh run have fresh': "\<not> stale (snd (snd en)) (now k)" by simp
  have "at_depth d en (rec_evict (now k) ?l)" if "int (length ?l) \<ge> lc_maxEntries c"
    using at_depth_evict [OF depth _ distinct_entries [OF inv] fresh'] that room by linarith
  then have "at_depth (Suc d) en (rec_set (lc_maxEntries c) (now k) item x ?l)"
    using depth code by (auto simp: rec_set_def at_depth_Cons at_depth_drop)
  then show ?thesis using setLocked_refines [OF inv run] run by simp
qed

lemma local_step_depth:
  assumes inv: "local_inv (fst ck)" and op: "\<not> mentions (fst en) op"
    and depth: "at_depth d en (lru_entries (fst ck))" and room: "int (Suc d) < lc_maxEntries (fst ck)"
    and fresh: "\<And>j. j \<le> snd (local_step now op ck) \<Longrightarrow> \<not> stale (snd (snd en)) (now j)"
  shows "at_depth (Suc d) en (lru_entries (fst (local_step now op ck)))"
proof (cases op)
  case (OpGet code)
  with op have code: "fst en \<noteq> code" by simp
  obtain it ok e c' k' where run: "Local_Get now code (fst ck, snd ck) = ((it, ok, e), c', k')"
    by (metis prod.collapse)
  have "snd (rec_get (now (snd ck)) code (lru_entries (fst ck))) = lru_entries c'"
    using Local_Get_refines [OF inv run] by simp
  moreover have "at_depth (Suc d) en (snd (rec_get (now (snd ck)) code (lru_entries (fst ck))))"
    using depth code at_depth_drop [OF depth code]
    by (auto simp: rec_get_def at_depth_Cons split: option.splits intro: at_depth_mono)
  ultimately show ?thesis using run OpGet by simp
next
  case (OpDelete codes)
  with op have "fst en \<notin> set codes" by simp
  with depth have "at_depth d en (rec_delete codes (lru_entries (fst ck)))"
    unfolding rec_delete_def by (intro at_depth_filter)
  then show ?thesis
    using delete_codes_refines [OF inv, of codes] OpDelete
    by (auto simp: Local_Delete_def intro: at_depth_mono)
next
  case (OpSet item ttl)
  let ?k = "if 0 < ttl then Suc (snd ck) else snd ck"
  let ?x = "if 0 < ttl then time_add (now (snd ck)) ttl else zero_time"
  have "local_step now op ck = snd (setLocked now item ?x (fst ck, ?k))"
    unfolding OpSet by (cases ck) (simp add: Local_Set_def)
  with setLocked_depth [OF inv _ depth room, of item now ?x ?k] op fresh show ?thesis by (simp add: OpSet)
next
  case (OpLocked item x)
  with setLocked_depth [OF inv _ depth room, of item now x "snd ck"] op fresh show ?thesis by simp
qed

lemma local_run_depth:
  "local_inv (fst ck) \<Longrightarrow> \<forall>op \<in> set ops. \<not> mentions (fst en) op \<Longrightarrow>
   at_depth d en (lru_entries (fst ck)) \<Longrightarrow> int (d + length ops) < lc_maxEntries (fst ck) \<Longrightarrow>
   (\<And>j. j \<le> snd (local_run now ops ck) \<Longrightarrow> \<not> stale (snd (snd en)) (now j)) \<Longrightarrow>
   at_depth (d + length ops) en (lru_entries (fst (local_run now ops ck)))"
proof (induction ops arbitrary: ck d)
  case Nil
  then show ?case by (simp add: local_run_def)
next
  case (Cons op ops)
  let ?ck = "local_step now op ck"
  have run: "local_run now (op # ops) ck = local_run now ops ?ck" by (simp add: local_run_def)
  have "snd ?ck \<le> snd (local_run now ops ?ck)" by (rule local_run_clock)
  then have "at_depth (Suc d) en (lru_entries (fst ?ck))"
    using Cons.prems unfolding run by (intro local_step_depth) auto
  with Cons.IH [of ?ck "Suc d"] Cons.prems show ?case
    unfolding run by (simp add: local_step_inv local_step_max)
qed

lemma Local_Get_entry:
  assumes inv: "local_inv c" and en: "(code, item, x) \<in> set (lru_entries c)" and "\<not> stale x (now k)"
  shows "fst (Local_Get now code (c, k)) = (item, True, None)"
proof -
  obtain it ok e c' k' where run: "Local_Get now code (c, k) = ((it, ok, e), c', k')"
    by (metis prod.collapse)
  have "map_of (lru_entries c) code = Some (item, x)"
    using en distinct_entries [OF inv] by (simp add: map_of_eq_Some_iff)
  with Local_Get_refines [OF inv run] assms(3) run show ?thesis
    by (auto simp: rec_get_def split: if_splits)
qed

section \<open>Properties\<close>

text \<open>
  C10 (invariant). Whatever operations run on a new cache, insertions that read the clock long before they
  get the lock included, the map and the list of elements agree:
  the same elements, each once, each filed under the code of its own link; and the number of
  entries never exceeds the limit.
\<close>

theorem local_cache_invariant:
  "local_inv (fst (local_run now ops (NewLocalWithMaxEntries n, k))) \<and>
   int (length (lc_items (fst (local_run now ops (NewLocalWithMaxEntries n, k))))) \<le>
     (if n \<le> 0 then 10000 else n)"
proof -
  let ?c = "fst (local_run now ops (NewLocalWithMaxEntries n, k))"
  have inv: "local_inv ?c" by (rule local_run_inv) (simp add: NewLocal_inv)
  moreover have "lc_maxEntries ?c = (if n \<le> 0 then 10000 else n)"
    by (simp add: local_run_max) (simp add: NewLocalWithMaxEntries_def)
  ultimately show ?thesis using local_invD(7) [OF inv] by (simp add: length_items)
qed

text \<open>
  C7 (refinement). On a cache that satisfies the invariant, \<open>Get\<close>, \<open>Set\<close> and \<open>Delete\<close> are
  the operations of a plain list of entries in the order of their use: a lookup returns the entry's
  link and moves it to the front, or drops it when its time has passed; an insertion (the lock taken at
  once, or long after the clock was read for the expiry) into a full
  cache drops the least recently used entry whose time has passed, else the least recently
  used one; a deletion drops the codes.
\<close>

theorem local_cache_refines:
  assumes "local_inv c"
  shows "(case Local_Get now code (c, k) of ((it, ok, e), c', k') \<Rightarrow>
      rec_get (now k) code (lru_entries c) = ((if ok then Some it else None), lru_entries c') \<and> e = None) \<and>
    (case Local_Set now item ttl (c, k) of (e, c', k') \<Rightarrow>
      rec_set (lc_maxEntries c) (now (if 0 < ttl then Suc k else k)) item
        (if 0 < ttl then time_add (now k) ttl else zero_time) (lru_entries c) = lru_entries c' \<and> e = None) \<and>
    (case setLocked now item x (c, k) of (e, c', k') \<Rightarrow>
      rec_set (lc_maxEntries c) (now k) item x (lru_entries c) = lru_entries c' \<and> e = None) \<and>
    (case Local_Delete codes (c, k) of (e, c', k') \<Rightarrow>
      rec_delete codes (lru_entries c) = lru_entries c' \<and> e = None)"
  using Local_Get_refines [OF assms, of now code k] Local_Set_refines [OF assms, of now item ttl k] setLocked_refines [OF assms, of now item x k]
    delete_codes_refines [OF assms, of codes]
  by (auto simp: Local_Delete_def split: prod.splits)

text \<open>
  C9 (functional). The cache keeps what was used last: after \<open>Set\<close>, a link is found again with
  fewer than \<open>maxEntries\<close> operations in between, none of which mentions its code, as long as its
  time has not passed at any reading of the clock up to the lookup.
\<close>

theorem local_cache_keeps_recent:
  assumes "local_inv c" and "Local_Set now item ttl (c, k) = (e, ck)"
    and "\<forall>op \<in> set ops. \<not> mentions (sl_Code item) op" and "int (length ops) < lc_maxEntries c"
    and "\<forall>j \<le> snd (local_run now ops ck). ttl \<le> 0 \<or> now j < time_add (now k) ttl"
  shows "fst (Local_Get now (sl_Code item) (local_run now ops ck)) = (item, True, None)"
proof -
  define x where "x = (if 0 < ttl then time_add (now k) ttl else zero_time)"
  let ?en = "(sl_Code item, item, x)"
  obtain c1 k1 where ck: "ck = (c1, k1)" by (cases ck)
  note run = assms(2) [unfolded ck]
  have fresh: "\<not> stale x (now j)" if "j \<le> snd (local_run now ops ck)" for j
    using assms(5) that by (auto simp: x_def stale_def time_defs)
  have inv: "local_inv (fst ck)" using Local_Set_inv [OF assms(1) run] ck by simp
  have max: "lc_maxEntries (fst ck) = lc_maxEntries c"
    using local_step_max [of now "OpSet item ttl" "(c, k)"] run ck by simp
  have "at_depth 0 ?en (lru_entries (fst ck))"
    using Local_Set_refines [OF assms(1) run] ck by (simp add: rec_set_def x_def at_depth_def)
  then have "at_depth (0 + length ops) ?en (lru_entries (fst (local_run now ops ck)))"
    using assms(3,4) max fresh by (intro local_run_depth [OF inv]) auto
  then have "?en \<in> set (lru_entries (fst (local_run now ops ck)))"
    by (auto simp: at_depth_def)
  then show ?thesis
    using Local_Get_entry [OF local_run_inv [OF inv], of "sl_Code item" item x now ops now
        "snd (local_run now ops ck)"] fresh by simp
qed


text \<open>A cache of two entries: a full cache that loses the entry used least recently.\<close>

definition sample_link :: "string \<Rightarrow> ShortLink" where
  "sample_link code = zero_ShortLink\<lparr>sl_Code := code, sl_Status := ShortLinkStatusActive\<rparr>"

theorem local_cache_refines_witness:
  "rec_get 7 ''a'' (lru_entries (NewLocalWithMaxEntries 2)) = (None, lru_entries (NewLocalWithMaxEntries 2))"
  using local_cache_refines [OF NewLocal_inv [of 2], where now = "\<lambda>k. 7" and code = "''a''" and k = 0]
  by (simp add: Local_Get_def NewLocalWithMaxEntries_def)

theorem local_cache_keeps_recent_witness:
  "fst (Local_Get (\<lambda>k. 100 + int k) ''a''
     (local_run (\<lambda>k. 100 + int k) [OpSet (sample_link ''b'') 0]
       (snd (Local_Set (\<lambda>k. 100 + int k) (sample_link ''a'') 50 (NewLocalWithMaxEntries 2, 0))))) =
   (sample_link ''a'', True, None)"
proof -
  let ?now = "\<lambda>k. 100 + int k"
  let ?ck = "snd (Local_Set ?now (sample_link ''a'') 50 (NewLocalWithMaxEntries 2, 0))"
  have set: "Local_Set ?now (sample_link ''a'') 50 (NewLocalWithMaxEntries 2, 0) = (None, ?ck)"
    by (simp add: Local_Set_def setLocked_def NewLocalWithMaxEntries_def)
  have "snd (local_run ?now [OpSet (sample_link ''b'') 0] ?ck) = 1"
    by (simp add: local_run_def Local_Set_def setLocked_def NewLocalWithMaxEntries_def Let_def pushElement_def
        sample_link_def)
  moreover have "\<forall>op \<in> set [OpSet (sample_link ''b'') 0]. \<not> mentions (sl_Code (sample_link ''a'')) op"
    by (simp add: sample_link_def)
  moreover have "lc_maxEntries (NewLocalWithMaxEntries 2) = 2" by (simp add: NewLocalWithMaxEntries_def)
  ultimately show ?thesis
    using local_cache_keeps_recent [OF NewLocal_inv set, of "[OpSet (sample_link ''b'') 0]"]
    by (simp add: time_defs sample_link_def)
qed

end
