(* ===== verification/Redis_Client.thy ===== *)
theory Redis_Client
  imports Complex_Main Ports
begin

text \<open>
  The Redis client, a parameter of the model: the commands of \<open>go-redis\<close> that the code under
  \<open>internal/infrastructure\<close> calls, as a record of functions on the client's own state
  (\<open>'r\<close>: the server, the connection and the context of the call). The code uses nothing else of
  the client.

  \<open>redis_laws\<close> states what the Redis documentation says of these commands, over the key space
  \<open>db r\<close>: a command that reports success has had its documented effect; one that reports an
  error has had it or has had none (the reply may be lost); meanwhile only keys that carry a time
  to live may disappear. \<open>mem_redis\<close> is a client in memory that satisfies the laws.
\<close>

section \<open>The commands\<close>

record 'r redis =
  rd_Get :: "string \<Rightarrow> 'r \<Rightarrow> (go_error + string) \<times> 'r"
  rd_Set :: "string \<Rightarrow> string \<Rightarrow> duration \<Rightarrow> 'r \<Rightarrow> go_error option \<times> 'r"
  rd_Del :: "string list \<Rightarrow> 'r \<Rightarrow> go_error option \<times> 'r"
  rd_Rename :: "string \<Rightarrow> string \<Rightarrow> 'r \<Rightarrow> go_error option \<times> 'r"
  rd_Eval :: "('r \<Rightarrow> go_error option \<times> 'r) \<Rightarrow> 'r \<Rightarrow> go_error option \<times> 'r"
  rd_SAdd :: "string \<Rightarrow> string list \<Rightarrow> 'r \<Rightarrow> go_error option \<times> 'r"
  rd_SRem :: "string \<Rightarrow> string \<Rightarrow> 'r \<Rightarrow> go_error option \<times> 'r"
  rd_SIsMember :: "string \<Rightarrow> string \<Rightarrow> 'r \<Rightarrow> (go_error + bool) \<times> 'r"
  rd_BFAdd :: "string \<Rightarrow> string \<Rightarrow> 'r \<Rightarrow> go_error option \<times> 'r"
  rd_BFMAdd :: "string \<Rightarrow> string list \<Rightarrow> 'r \<Rightarrow> go_error option \<times> 'r"
  rd_BFExists :: "string \<Rightarrow> string \<Rightarrow> 'r \<Rightarrow> (go_error + bool) \<times> 'r"
  rd_BFReserve :: "string \<Rightarrow> float64 \<Rightarrow> int64 \<Rightarrow> 'r \<Rightarrow> go_error option \<times> 'r"
  rd_HasErrorPrefix :: "go_error \<Rightarrow> string \<Rightarrow> bool"

section \<open>The key space\<close>

text \<open>
  The value of a key, and whether the key carries a time to live. Of a Bloom filter only the items
  added to it are kept: those it is bound to report.
\<close>

datatype redis_value = RString string | RSet "string set" | RBloom "string set"

type_synonym keyspace = "string \<Rightarrow> (redis_value \<times> bool) option"

text \<open>Time passes: keys with a time to live may go, all others stay as they are.\<close>

definition evolves :: "keyspace \<Rightarrow> keyspace \<Rightarrow> bool" where
  "evolves m m' \<longleftrightarrow> m' \<subseteq>\<^sub>m m \<and> (\<forall>k v. m k = Some (v, False) \<longrightarrow> m' k = Some (v, False))"

text \<open>The effect of a command; \<open>None\<close> is a refusal by the server (a value of the wrong type, no such key).\<close>

type_synonym effect = "keyspace \<Rightarrow> keyspace option"

definition eff_set :: "string \<Rightarrow> string \<Rightarrow> duration \<Rightarrow> effect" where
  "eff_set k v ttl m = Some (m(k \<mapsto> (RString v, 0 < ttl)))"

definition eff_del :: "string list \<Rightarrow> effect" where
  "eff_del ks m = Some (m |` (- set ks))"

definition eff_rename :: "string \<Rightarrow> string \<Rightarrow> effect" where
  "eff_rename k k' m =
     (case m k of None \<Rightarrow> None | Some v \<Rightarrow> Some ((m(k := None))(k' \<mapsto> v)))"

definition eff_sadd :: "string \<Rightarrow> string list \<Rightarrow> effect" where
  "eff_sadd k vs m =
     (case m k of
        None \<Rightarrow> Some (m(k \<mapsto> (RSet (set vs), False)))
      | Some (RSet s, x) \<Rightarrow> Some (m(k \<mapsto> (RSet (s \<union> set vs), x)))
      | _ \<Rightarrow> None)"

definition eff_srem :: "string \<Rightarrow> string \<Rightarrow> effect" where
  "eff_srem k v m =
     (case m k of
        None \<Rightarrow> Some m
      | Some (RSet s, x) \<Rightarrow>
          Some (if s - {v} = {} then m(k := None) else m(k \<mapsto> (RSet (s - {v}), x)))
      | _ \<Rightarrow> None)"

definition eff_bfadd :: "string \<Rightarrow> string list \<Rightarrow> effect" where
  "eff_bfadd k vs m =
     (case m k of
        None \<Rightarrow> Some (m(k \<mapsto> (RBloom (set vs), False)))
      | Some (RBloom s, x) \<Rightarrow> Some (m(k \<mapsto> (RBloom (s \<union> set vs), x)))
      | _ \<Rightarrow> None)"

definition eff_reserve :: "string \<Rightarrow> effect" where
  "eff_reserve k m = (case m k of None \<Rightarrow> Some (m(k \<mapsto> (RBloom {}, False))) | Some _ \<Rightarrow> None)"

section \<open>The laws\<close>

definition write_law :: "('r \<Rightarrow> keyspace) \<Rightarrow> effect \<Rightarrow> ('r \<Rightarrow> go_error option \<times> 'r) \<Rightarrow> bool" where
  "write_law db eff cmd \<longleftrightarrow>
     (\<forall>r e r'. cmd r = (e, r') \<longrightarrow>
        (\<exists>m. eff (db r) = Some m \<and> evolves m (db r')) \<or> (e \<noteq> None \<and> evolves (db r) (db r')))"

definition get_law :: "('r \<Rightarrow> keyspace) \<Rightarrow> string \<Rightarrow> ('r \<Rightarrow> (go_error + string) \<times> 'r) \<Rightarrow> bool" where
  "get_law db k cmd \<longleftrightarrow>
     (\<forall>r v r'. cmd r = (v, r') \<longrightarrow> evolves (db r) (db r') \<and>
        (case v of Inr s \<Rightarrow> \<exists>x. db r k = Some (RString s, x)
                 | Inl e \<Rightarrow> errors_Is e RedisNil \<longrightarrow> db r' k = None))"

definition sismember_law :: "('r \<Rightarrow> keyspace) \<Rightarrow> string \<Rightarrow> string \<Rightarrow> ('r \<Rightarrow> (go_error + bool) \<times> 'r) \<Rightarrow> bool" where
  "sismember_law db k c cmd \<longleftrightarrow>
     (\<forall>r v r'. cmd r = (v, r') \<longrightarrow> evolves (db r) (db r') \<and>
        (\<forall>b. v = Inr b \<longrightarrow> b = (\<exists>s x. db r k = Some (RSet s, x) \<and> c \<in> s)))"

text \<open>\<open>BF.EXISTS\<close> may report an item that was never added, but never misses one that was.\<close>

definition bfexists_law :: "('r \<Rightarrow> keyspace) \<Rightarrow> string \<Rightarrow> string \<Rightarrow> ('r \<Rightarrow> (go_error + bool) \<times> 'r) \<Rightarrow> bool" where
  "bfexists_law db k c cmd \<longleftrightarrow>
     (\<forall>r v r'. cmd r = (v, r') \<longrightarrow> evolves (db r) (db r') \<and>
        (v = Inr False \<longrightarrow> \<not> (\<exists>s x. db r k = Some (RBloom s, x) \<and> c \<in> s)))"

text \<open>A script runs as one step on the server; its error is the client's.\<close>

definition eval_law :: "('r \<Rightarrow> keyspace) \<Rightarrow> 'r redis \<Rightarrow> bool" where
  "eval_law db R \<longleftrightarrow>
     (\<forall>script r e r'. rd_Eval R script r = (e, r') \<longrightarrow>
        (\<exists>es r1. script r = (es, r1) \<and> evolves (db r1) (db r') \<and> (e = None \<longrightarrow> es = None)) \<or>
        (e \<noteq> None \<and> evolves (db r) (db r')))"

definition redis_laws :: "('r \<Rightarrow> keyspace) \<Rightarrow> 'r redis \<Rightarrow> bool" where
  "redis_laws db R \<longleftrightarrow>
     (\<forall>k. get_law db k (rd_Get R k)) \<and>
     (\<forall>k v ttl. write_law db (eff_set k v ttl) (rd_Set R k v ttl)) \<and>
     (\<forall>ks. write_law db (eff_del ks) (rd_Del R ks)) \<and>
     (\<forall>k k'. write_law db (eff_rename k k') (rd_Rename R k k')) \<and>
     eval_law db R \<and>
     (\<forall>k vs. write_law db (eff_sadd k vs) (rd_SAdd R k vs)) \<and>
     (\<forall>k v. write_law db (eff_srem k v) (rd_SRem R k v)) \<and>
     (\<forall>k c. sismember_law db k c (rd_SIsMember R k c)) \<and>
     (\<forall>k v. write_law db (eff_bfadd k [v]) (rd_BFAdd R k v)) \<and>
     (\<forall>k vs. write_law db (eff_bfadd k vs) (rd_BFMAdd R k vs)) \<and>
     (\<forall>k c. bfexists_law db k c (rd_BFExists R k c)) \<and>
     (\<forall>k rate cap. write_law db (eff_reserve k) (rd_BFReserve R k rate cap))"

lemma redis_lawsD:
  assumes "redis_laws db R"
  shows "get_law db k (rd_Get R k)" "write_law db (eff_set k v ttl) (rd_Set R k v ttl)"
    "write_law db (eff_del ks) (rd_Del R ks)" "write_law db (eff_rename k k') (rd_Rename R k k')"
    "eval_law db R" "write_law db (eff_sadd k vs) (rd_SAdd R k vs)"
    "write_law db (eff_srem k v) (rd_SRem R k v)" "sismember_law db k v (rd_SIsMember R k v)"
    "write_law db (eff_bfadd k [v]) (rd_BFAdd R k v)" "write_law db (eff_bfadd k vs) (rd_BFMAdd R k vs)"
    "bfexists_law db k v (rd_BFExists R k v)" "write_law db (eff_reserve k) (rd_BFReserve R k rate cap)"
  using assms unfolding redis_laws_def by simp_all

lemma evolves_refl [simp]: "evolves m m"
  by (simp add: evolves_def)

lemma evolves_trans: "evolves m1 m2 \<Longrightarrow> evolves m2 m3 \<Longrightarrow> evolves m1 m3"
  by (auto simp: evolves_def intro: map_le_trans)

lemma write_lawE:
  assumes "write_law db eff cmd" and "cmd r = (e, r')"
  obtains (executed) m where "eff (db r) = Some m" "evolves m (db r')"
    | (unexecuted) "e \<noteq> None" "evolves (db r) (db r')"
  using assms unfolding write_law_def by blast

section \<open>What a filter key holds\<close>

text \<open>The items of a Bloom filter or of a set that is stored without a time to live.\<close>

definition bloom_items :: "keyspace \<Rightarrow> string \<Rightarrow> string set" where
  "bloom_items m k = (case m k of Some (RBloom s, False) \<Rightarrow> s | _ \<Rightarrow> {})"

definition set_items :: "keyspace \<Rightarrow> string \<Rightarrow> string set" where
  "set_items m k = (case m k of Some (RSet s, False) \<Rightarrow> s | _ \<Rightarrow> {})"

lemma evolves_persistent: "evolves m m' \<Longrightarrow> m' k = Some (v, False) \<longleftrightarrow> m k = Some (v, False)"
  unfolding evolves_def map_le_def by (metis domI)

lemma in_bloom_items: "x \<in> bloom_items m k \<longleftrightarrow> (\<exists>s. m k = Some (RBloom s, False) \<and> x \<in> s)"
  by (auto simp: bloom_items_def split: option.splits redis_value.splits bool.splits)

lemma in_set_items: "x \<in> set_items m k \<longleftrightarrow> (\<exists>s. m k = Some (RSet s, False) \<and> x \<in> s)"
  by (auto simp: set_items_def split: option.splits redis_value.splits bool.splits)

lemma evolves_items:
  assumes "evolves m m'"
  shows evolves_bloom: "bloom_items m' = bloom_items m" and evolves_set: "set_items m' = set_items m"
  using evolves_persistent [OF assms] by (auto simp: fun_eq_iff in_bloom_items in_set_items)

section \<open>A client in memory\<close>

definition mem_write :: "effect \<Rightarrow> keyspace \<Rightarrow> go_error option \<times> keyspace" where
  "mem_write eff m = (case eff m of None \<Rightarrow> (Some (Errorf ''ERR''), m) | Some m' \<Rightarrow> (None, m'))"

definition mem_redis :: "keyspace redis" where
  "mem_redis = \<lparr>
     rd_Get = (\<lambda>k m. (case m k of Some (RString s, x) \<Rightarrow> Inr s | None \<Rightarrow> Inl RedisNil
                                 | _ \<Rightarrow> Inl (Errorf ''WRONGTYPE''), m)),
     rd_Set = (\<lambda>k v ttl. mem_write (eff_set k v ttl)),
     rd_Del = (\<lambda>ks. mem_write (eff_del ks)),
     rd_Rename = (\<lambda>k k'. mem_write (eff_rename k k')),
     rd_Eval = (\<lambda>script. script),
     rd_SAdd = (\<lambda>k vs. mem_write (eff_sadd k vs)),
     rd_SRem = (\<lambda>k v. mem_write (eff_srem k v)),
     rd_SIsMember = (\<lambda>k c m. (Inr (case m k of Some (RSet s, x) \<Rightarrow> c \<in> s | _ \<Rightarrow> False), m)),
     rd_BFAdd = (\<lambda>k v. mem_write (eff_bfadd k [v])),
     rd_BFMAdd = (\<lambda>k vs. mem_write (eff_bfadd k vs)),
     rd_BFExists = (\<lambda>k c m. (Inr (case m k of Some (RBloom s, x) \<Rightarrow> c \<in> s | _ \<Rightarrow> False), m)),
     rd_BFReserve = (\<lambda>k rate cap. mem_write (eff_reserve k)),
     rd_HasErrorPrefix = (\<lambda>e p. case e of Errorf m \<Rightarrow> starts_with p m | _ \<Rightarrow> False)\<rparr>"

lemma mem_write_law: "write_law (\<lambda>m. m) eff (mem_write eff)"
  by (auto simp: write_law_def mem_write_def split: option.splits)

lemma mem_redis_laws: "redis_laws (\<lambda>m. m) mem_redis"
  unfolding redis_laws_def mem_redis_def
  by (auto simp: mem_write_law get_law_def sismember_law_def bfexists_law_def eval_law_def
      split: option.splits redis_value.splits)

end
