(* ===== verification/Redis_Cache.thy ===== *)
theory Redis_Cache
  imports Redis_Client
begin

text \<open>
  The Redis cache of links, \<open>internal/infrastructure/cache/redis.go\<close> with \<open>keys.go\<close>. The JSON
  encoding of a link (\<open>encoding/json\<close>) is the parameter \<open>J\<close>; what the cache needs of it is that
  a link it can encode is decoded to the same link, which \<open>encoding/json\<close> promises for links whose
  strings are valid UTF-8. The cache interprets the contract \<open>link_cache\<close> of the service.
\<close>

section \<open>Keys and operations\<close>

record codec =
  json_Marshal :: "ShortLink \<Rightarrow> go_error + string"
  json_Unmarshal :: "string \<Rightarrow> go_error + ShortLink"

definition keyPrefix :: string where "keyPrefix = ''flashlink''"

definition LinkKey :: "string \<Rightarrow> string" where
  "LinkKey code = keyPrefix @ '':link:'' @ code"

definition RedisCache_Get ::
  "'r redis \<Rightarrow> codec \<Rightarrow> string \<Rightarrow> 'r \<Rightarrow> (ShortLink \<times> bool \<times> go_error option) \<times> 'r" where
  "RedisCache_Get client J code r =
     (case rd_Get client (LinkKey code) r of
        (Inl e, r1) \<Rightarrow>
          (if errors_Is e RedisNil then ((zero_ShortLink, False, None), r1)
           else ((zero_ShortLink, False, Some e), r1))
      | (Inr raw, r1) \<Rightarrow>
          (case json_Unmarshal J raw of
             Inl e \<Rightarrow> ((zero_ShortLink, False, Some e), r1)
           | Inr item \<Rightarrow> ((item, True, None), r1)))"

definition RedisCache_Set ::
  "'r redis \<Rightarrow> codec \<Rightarrow> ShortLink \<Rightarrow> duration \<Rightarrow> 'r \<Rightarrow> go_error option \<times> 'r" where
  "RedisCache_Set client J item ttl r =
     (case json_Marshal J item of
        Inl e \<Rightarrow> (Some e, r)
      | Inr raw \<Rightarrow> rd_Set client (LinkKey (sl_Code item)) raw ttl r)"

definition RedisCache_Delete :: "'r redis \<Rightarrow> string list \<Rightarrow> 'r \<Rightarrow> go_error option \<times> 'r" where
  "RedisCache_Delete client codes r =
     (if codes = [] then (None, r) else rd_Del client (map LinkKey codes) r)"

lemma LinkKey_inject [simp]: "LinkKey c = LinkKey c' \<longleftrightarrow> c = c'"
  by (simp add: LinkKey_def)

section \<open>The contract of a cache\<close>

text \<open>The link stored under a code, and the links whose encoding decodes to the link again.\<close>

definition decoded :: "codec \<Rightarrow> (redis_value \<times> bool) option \<Rightarrow> ShortLink option" where
  "decoded J v =
     (case v of
        Some (RString raw, x) \<Rightarrow> (case json_Unmarshal J raw of Inr item \<Rightarrow> Some item | Inl e \<Rightarrow> None)
      | _ \<Rightarrow> None)"

definition cached_in :: "codec \<Rightarrow> keyspace \<Rightarrow> string \<Rightarrow> ShortLink option" where
  "cached_in J m code = decoded J (m (LinkKey code))"

definition encodable :: "codec \<Rightarrow> ShortLink \<Rightarrow> bool" where
  "encodable J item \<longleftrightarrow>
     (case json_Marshal J item of Inl e \<Rightarrow> True | Inr raw \<Rightarrow> json_Unmarshal J raw = Inr item)"

text \<open>What \<open>encoding/json\<close> promises; it replaces bytes that are not UTF-8, so that no more can be asked.\<close>

definition json_faithful :: "codec \<Rightarrow> bool" where
  "json_faithful J \<longleftrightarrow> (\<forall>item. utf8_link item \<longrightarrow> encodable J item)"

definition keyed_by_code :: "codec \<Rightarrow> keyspace \<Rightarrow> bool" where
  "keyed_by_code J m \<longleftrightarrow> (\<forall>c it. cached_in J m c = Some it \<longrightarrow> sl_Code it = c)"

definition redis_cache_ok :: "('r \<Rightarrow> keyspace) \<Rightarrow> 'r redis \<Rightarrow> codec \<Rightarrow> 'r \<Rightarrow> bool" where
  "redis_cache_ok db R J r \<longleftrightarrow> redis_laws db R \<and> keyed_by_code J (db r)"

lemma decoded_None [simp]: "decoded J None = None"
  by (simp add: decoded_def)

lemma cached_in_evolves: "evolves m m' \<Longrightarrow> cached_in J m' \<subseteq>\<^sub>m cached_in J m"
  unfolding map_le_def
proof
  fix c assume "evolves m m'" and c: "c \<in> dom (cached_in J m')"
  then have "m' (LinkKey c) \<noteq> None" by (cases "m' (LinkKey c)") (simp_all add: cached_in_def dom_def)
  with \<open>evolves m m'\<close> have "m' (LinkKey c) = m (LinkKey c)"
    unfolding evolves_def map_le_def by (metis domI option.exhaust)
  then show "cached_in J m' c = cached_in J m c" by (simp add: cached_in_def)
qed

lemma keyed_by_code_mono: "keyed_by_code J m \<Longrightarrow> cached_in J m' \<subseteq>\<^sub>m cached_in J m \<Longrightarrow> keyed_by_code J m'"
  unfolding keyed_by_code_def map_le_def by (metis domI)

lemma RedisCache_Get_result:
  assumes "redis_laws db R" and "RedisCache_Get R J c r = ((it, hit, e), r')"
  shows "evolves (db r) (db r')" and "hit \<Longrightarrow> e = None \<and> cached_in J (db r) c = Some it"
proof -
  obtain v r1 where get: "rd_Get R (LinkKey c) r = (v, r1)" by fastforce
  have "evolves (db r) (db r1) \<and>
      (case v of Inr s \<Rightarrow> \<exists>x. db r (LinkKey c) = Some (RString s, x)
               | Inl e \<Rightarrow> errors_Is e RedisNil \<longrightarrow> db r1 (LinkKey c) = None)"
    using redis_lawsD(1) [OF assms(1), of "LinkKey c", unfolded get_law_def] get by blast
  then have law: "evolves (db r) (db r1)" "\<And>s. v = Inr s \<Longrightarrow> \<exists>x. db r (LinkKey c) = Some (RString s, x)"
    by auto
  from assms(2) get have "r' = r1" by (auto simp: RedisCache_Get_def split: sum.splits if_splits)
  with law(1) show "evolves (db r) (db r')" by simp
  show "hit \<Longrightarrow> e = None \<and> cached_in J (db r) c = Some it"
    using assms(2) get law(2)
    by (auto simp: RedisCache_Get_def cached_in_def decoded_def split: sum.splits if_splits)
qed

lemma RedisCache_Set_result:
  assumes "redis_laws db R" and "encodable J it" and "RedisCache_Set R J it ttl r = (e, r')"
    and "cached_in J (db r') c = Some x"
  shows "cached_in J (db r) c = Some x \<or> c = sl_Code it \<and> x = it"
proof (cases "json_Marshal J it")
  case (Inl x)
  with assms(3,4) show ?thesis by (simp add: RedisCache_Set_def)
next
  case (Inr raw)
  let ?k = "LinkKey (sl_Code it)"
  from assms(3) Inr have set: "rd_Set R ?k raw ttl r = (e, r')" by (simp add: RedisCache_Set_def)
  have decode: "json_Unmarshal J raw = Inr it" using assms(2) Inr by (simp add: encodable_def)
  have mono: "evolves m (db r') \<Longrightarrow> cached_in J m c = Some x" for m
    using cached_in_evolves [of m "db r'" J] assms(4) unfolding map_le_def by (metis domI)
  from redis_lawsD(2) [OF assms(1)] set show ?thesis
  proof (rule write_lawE)
    fix m assume m: "eff_set ?k raw ttl (db r) = Some m" and "evolves m (db r')"
    then have "cached_in J m c = Some x" using mono by blast
    with m decode show ?thesis by (auto simp: eff_set_def cached_in_def decoded_def split: if_splits)
  next
    assume "evolves (db r) (db r')"
    with mono show ?thesis by blast
  qed
qed

lemma RedisCache_Delete_result:
  assumes "redis_laws db R" and "RedisCache_Delete R cs r = (e, r')"
  shows "cached_in J (db r') \<subseteq>\<^sub>m cached_in J (db r)"
    and "e = None \<Longrightarrow> c \<in> set cs \<Longrightarrow> cached_in J (db r') c = None"
proof -
  have "cached_in J (db r') \<subseteq>\<^sub>m cached_in J (db r) \<and> (e = None \<and> c \<in> set cs \<longrightarrow> cached_in J (db r') c = None)"
  proof (cases "cs = []")
    case True
    with assms(2) show ?thesis by (simp add: RedisCache_Delete_def)
  next
    case False
    with assms(2) have del: "rd_Del R (map LinkKey cs) r = (e, r')" by (simp add: RedisCache_Delete_def)
    from redis_lawsD(3) [OF assms(1)] del show ?thesis
    proof (rule write_lawE)
      fix m assume m: "eff_del (map LinkKey cs) (db r) = Some m" and ev: "evolves m (db r')"
      have gone: "m (LinkKey x) = (if x \<in> set cs then None else db r (LinkKey x))" for x
        using m by (auto simp: eff_del_def restrict_map_def)
      then have le: "cached_in J m \<subseteq>\<^sub>m cached_in J (db r)"
        by (auto simp: map_le_def cached_in_def split: if_splits)
      have "c \<in> set cs \<Longrightarrow> cached_in J (db r') c = None"
      proof -
        assume "c \<in> set cs"
        then have "m (LinkKey c) = None" using gone by simp
        with ev have "db r' (LinkKey c) = None" unfolding evolves_def map_le_def by (metis domIff)
        then show ?thesis by (simp add: cached_in_def)
      qed
      with map_le_trans [OF cached_in_evolves [OF ev] le] show ?thesis by blast
    next
      assume "e \<noteq> None" and "evolves (db r) (db r')"
      then show ?thesis using cached_in_evolves by blast
    qed
  qed
  then show "cached_in J (db r') \<subseteq>\<^sub>m cached_in J (db r)"
    and "e = None \<Longrightarrow> c \<in> set cs \<Longrightarrow> cached_in J (db r') c = None" by blast+
qed

interpretation redis_cache: link_cache "RedisCache_Get R J" "RedisCache_Set R J" "RedisCache_Delete R"
    "redis_cache_ok db R J" "\<lambda>r. cached_in J (db r)" "encodable J"
  for R J db
proof (unfold_locales, goal_cases)
  case (1 r c res r')
  then show ?case
    using RedisCache_Get_result(1) [of db R J c r] cached_in_evolves keyed_by_code_mono
    unfolding redis_cache_ok_def by (metis prod.collapse)
next
  case (2 r c it r')
  then show ?case using RedisCache_Get_result(2) [OF _ 2(2)] unfolding redis_cache_ok_def by blast
next
  case (3 r c res r')
  then show ?case
    using RedisCache_Get_result(1) [of db R J c r] cached_in_evolves
    unfolding redis_cache_ok_def by (metis prod.collapse)
next
  case (4 r it ttl e r')
  then show ?case
    using RedisCache_Set_result [of db R J it ttl r e r'] unfolding redis_cache_ok_def keyed_by_code_def by blast
next
  case (5 r it ttl e r' c x)
  then have "redis_laws db R" by (simp add: redis_cache_ok_def)
  then show ?case by (rule RedisCache_Set_result) (rule 5(2), rule 5(3), rule 5(4))
next
  case (6 r cs e r')
  then have laws: "redis_laws db R" and keyed: "keyed_by_code J (db r)" by (simp_all add: redis_cache_ok_def)
  from keyed_by_code_mono [OF keyed RedisCache_Delete_result(1) [OF laws 6(2)]] laws
  show ?case by (simp add: redis_cache_ok_def)
next
  case (7 r cs e r')
  then have "redis_laws db R" by (simp add: redis_cache_ok_def)
  from RedisCache_Delete_result(1) [OF this 7(2)] show ?case .
next
  case (8 r cs r' c)
  then have "redis_laws db R" by (simp add: redis_cache_ok_def)
  from RedisCache_Delete_result(2) [OF this 8(2) refl 8(3)] show ?case .
next
  case (9 r c it)
  then show ?case by (simp add: redis_cache_ok_def keyed_by_code_def)
qed

section \<open>What the cache gives back\<close>

text \<open>
  C26 (roundtrip). A link that was set without an error is read back unchanged as long as its key is
  there: the next \<open>Get\<close> of its code that reports no error returns this link or, if the time to
  live has run out, nothing, and it never returns a link for another code. After a \<open>Delete\<close>
  without error every \<open>Get\<close> of a deleted code misses.
\<close>

theorem redis_cache_roundtrip:
  assumes "redis_cache_ok db R J r" and "json_Marshal J it = Inr raw" and "json_Unmarshal J raw = Inr it"
    and "RedisCache_Set R J it ttl r = (None, r1)"
  shows "(case RedisCache_Get R J c r1 of ((x, hit, e), r2) \<Rightarrow>
      (hit \<longrightarrow> e = None \<and> sl_Code x = c \<and> (c = sl_Code it \<longrightarrow> x = it))) \<and>
    (case RedisCache_Delete R cs r1 of (e, r2) \<Rightarrow>
      e = None \<and> c \<in> set cs \<longrightarrow> \<not> fst (snd (fst (RedisCache_Get R J c r2))))"
proof -
  have laws: "redis_laws db R" using assms(1) by (simp add: redis_cache_ok_def)
  have fits: "encodable J it" using assms(2,3) by (simp add: encodable_def)
  have ok1: "redis_cache_ok db R J r1" by (rule redis_cache.set_ok [OF assms(1) fits assms(4)])
  from assms(2,4) have set: "rd_Set R (LinkKey (sl_Code it)) raw ttl r = (None, r1)"
    by (simp add: RedisCache_Set_def)
  have stored: "cached_in J (db r1) (sl_Code it) \<in> {Some it, None}"
    using redis_lawsD(2) [OF laws] set
  proof (rule write_lawE)
    fix m assume m: "eff_set (LinkKey (sl_Code it)) raw ttl (db r) = Some m" and "evolves m (db r1)"
    then have "cached_in J (db r1) \<subseteq>\<^sub>m cached_in J m" using cached_in_evolves by blast
    moreover have "cached_in J m (sl_Code it) = Some it"
      using m assms(3) by (auto simp: eff_set_def cached_in_def decoded_def)
    ultimately show ?thesis unfolding map_le_def by (cases "cached_in J (db r1) (sl_Code it)") (auto, metis domI option.inject)
  qed simp
  obtain x hit e r2 where get: "RedisCache_Get R J c r1 = ((x, hit, e), r2)" by (metis prod.collapse)
  have hit: "hit \<Longrightarrow> e = None \<and> cached_in J (db r1) c = Some x"
    using RedisCache_Get_result(2) [OF laws get] by blast
  have first: "hit \<longrightarrow> e = None \<and> sl_Code x = c \<and> (c = sl_Code it \<longrightarrow> x = it)"
  proof
    assume "hit"
    with hit have h: "e = None" "cached_in J (db r1) c = Some x" by simp_all
    from ok1 h(2) have "sl_Code x = c" unfolding redis_cache_ok_def keyed_by_code_def by blast
    moreover have "x = it" if c: "c = sl_Code it"
    proof -
      have "Some x \<in> {Some it, None}" using stored unfolding h(2) [unfolded c] .
      then show ?thesis by simp
    qed
    ultimately show "e = None \<and> sl_Code x = c \<and> (c = sl_Code it \<longrightarrow> x = it)"
      using h(1) by blast
  qed
  obtain e' r3 where del: "RedisCache_Delete R cs r1 = (e', r3)" by fastforce
  obtain y hit' e'' r4 where get': "RedisCache_Get R J c r3 = ((y, hit', e''), r4)" by (metis prod.collapse)
  have "e' = None \<and> c \<in> set cs \<longrightarrow> \<not> hit'"
    using RedisCache_Delete_result(2) [OF laws del, of c J] RedisCache_Get_result(2) [OF laws get'] by auto
  with first get del get' show ?thesis by simp
qed

text \<open>A codec that knows one link.\<close>

definition one_link_codec :: "ShortLink \<Rightarrow> codec" where
  "one_link_codec l = \<lparr>
     json_Marshal = (\<lambda>it. if it = l then Inr ''{}'' else Inl (Errorf ''unsupported'')),
     json_Unmarshal = (\<lambda>raw. if raw = ''{}'' then Inr l else Inl (Errorf ''invalid character''))\<rparr>"

definition sample_link :: ShortLink where
  "sample_link = zero_ShortLink\<lparr>sl_ID := 7, sl_Code := ''7'', sl_LongURL := ''http://a'', sl_Status := ShortLinkStatusActive\<rparr>"

lemma empty_redis_cache_ok: "redis_cache_ok (\<lambda>m. m) mem_redis J (\<lambda>_. None)"
  by (simp add: redis_cache_ok_def mem_redis_laws keyed_by_code_def cached_in_def)

lemma redis_cache_roundtrip_witness:
  "\<exists>r1. RedisCache_Set mem_redis (one_link_codec sample_link) sample_link second (\<lambda>_. None) = (None, r1) \<and>
    fst (RedisCache_Get mem_redis (one_link_codec sample_link) ''7'' r1) = (sample_link, True, None)"
proof -
  let ?J = "one_link_codec sample_link"
  have json: "json_Marshal ?J sample_link = Inr ''{}''" "json_Unmarshal ?J ''{}'' = Inr sample_link"
    by (simp_all add: one_link_codec_def)
  have code: "sl_Code sample_link = ''7''" by (simp add: sample_link_def)
  let ?r1 = "[LinkKey ''7'' \<mapsto> (RString ''{}'', True)]"
  have set: "RedisCache_Set mem_redis ?J sample_link second (\<lambda>_. None) = (None, ?r1)"
    unfolding RedisCache_Set_def json code by (simp add: mem_redis_def mem_write_def eff_set_def second_def)
  have hit: "fst (snd (fst (RedisCache_Get mem_redis ?J ''7'' ?r1)))"
    unfolding RedisCache_Get_def by (simp add: mem_redis_def json)
  obtain x h e r2 where get: "RedisCache_Get mem_redis ?J ''7'' ?r1 = ((x, h, e), r2)" by (metis prod.collapse)
  from conjunct1 [OF redis_cache_roundtrip [OF empty_redis_cache_ok json set, of "''7''"]] hit code
  have "x = sample_link \<and> h \<and> e = None" unfolding get by simp
  with get set show ?thesis by auto
qed

end
