(* ===== verification/Filters.thy ===== *)
theory Filters
  imports Redis_Client
begin

text \<open>
  \<open>internal/infrastructure/filter\<close>: the three existence filters, a set in memory
  (\<open>memory.go\<close>), a Redis set (\<open>redis.go\<close>) and a Redis Bloom filter (\<open>bloom.go\<close>), each with
  \<open>Add\<close>, \<open>MightContain\<close> and \<open>Rebuild\<close>. The clients are the parameter of \<open>Redis_Client\<close>; the
  source of codes is an \<open>ActiveCodeRepository\<close>. Each filter interprets \<open>existence_filter\<close>, so none
  of them ever misses a code that was added; a rebuild that succeeds holds every active code.
\<close>

section \<open>The filter in memory (memory.go)\<close>

record Memory =
  mf_codes :: "string set"

definition NewMemory :: Memory where
  "NewMemory = \<lparr>mf_codes = {}\<rparr>"

definition Memory_Add :: "string \<Rightarrow> Memory \<Rightarrow> go_error option \<times> Memory" where
  "Memory_Add code f = (None, f\<lparr>mf_codes := insert code (mf_codes f)\<rparr>)"

definition Memory_MightContain :: "string \<Rightarrow> Memory \<Rightarrow> (go_error + bool) \<times> Memory" where
  "Memory_MightContain code f = (Inr (code \<in> mf_codes f), f)"

text \<open>The callback of \<open>Rebuild\<close> fills the new map; the filter gets it only when the listing succeeds.\<close>

definition memory_collect :: "(string set) code_handler" where
  "memory_collect codes next_codes = (None, next_codes \<union> set codes)"

definition Memory_Rebuild ::
  "('d, string set) code_lister \<Rightarrow> int \<Rightarrow> 'd \<times> Memory \<Rightarrow> (go_error option \<times> 'd \<times> Memory) option" where
  "Memory_Rebuild source batchSize df =
     (case df of (d, f) \<Rightarrow>
        (case source (if batchSize \<le> 0 then 1000 else batchSize) memory_collect (d, {}) of
           None \<Rightarrow> None
         | Some (Some e, d', next_codes) \<Rightarrow> Some (Some e, d', f)
         | Some (None, d', next_codes) \<Rightarrow> Some (None, d', f\<lparr>mf_codes := next_codes\<rparr>)))"

interpretation memory_filter: existence_filter Memory_Add Memory_MightContain "\<lambda>_. True" mf_codes
  by unfold_locales (auto simp: Memory_Add_def Memory_MightContain_def)

lemma Memory_Rebuild_members:
  assumes "code_source source ok active" and "ok d"
    and "Memory_Rebuild source b (d, f) = Some (e, d', f')"
  shows "mf_codes f' = (if e = None then active d else mf_codes f)"
proof (cases e)
  case None
  with assms(3) obtain b' where
    "source b' memory_collect (d, {}) = Some (None, d', mf_codes f')"
    by (auto simp: Memory_Rebuild_def split: option.splits)
  then have "mf_codes f' = active d"
    by (rule code_source.list_complete [OF assms(1,2), where I = "\<lambda>C s. s = C"])
      (auto simp: memory_collect_def)
  with None show ?thesis by simp
next
  case (Some x)
  with assms(3) show ?thesis by (auto simp: Memory_Rebuild_def split: option.splits)
qed

section \<open>The Redis set (redis.go)\<close>

definition redisFilterKey :: string where "redisFilterKey = ''flashlink:filter:codes''"
definition redisFilterTempKey :: string where "redisFilterTempKey = ''flashlink:filter:codes:rebuild''"
definition redisFilterMarker :: string where "redisFilterMarker = ''__flashlink_marker__''"

definition RedisSet_Add :: "'r redis \<Rightarrow> string \<Rightarrow> 'r \<Rightarrow> go_error option \<times> 'r" where
  "RedisSet_Add client code = rd_SAdd client redisFilterKey [code]"

definition RedisSet_MightContain :: "'r redis \<Rightarrow> string \<Rightarrow> 'r \<Rightarrow> (go_error + bool) \<times> 'r" where
  "RedisSet_MightContain client code = rd_SIsMember client redisFilterKey code"

definition redis_set_batch :: "'r redis \<Rightarrow> 'r code_handler" where
  "redis_set_batch client codes r =
     (if codes = [] then (None, r) else rd_SAdd client redisFilterTempKey codes r)"

definition RedisSet_Rebuild ::
  "'r redis \<Rightarrow> ('d, 'r) code_lister \<Rightarrow> int \<Rightarrow> 'd \<times> 'r \<Rightarrow> (go_error option \<times> 'd \<times> 'r) option" where
  "RedisSet_Rebuild client source batchSize dr =
     (case dr of (d, r) \<Rightarrow>
      (case rd_Del client [redisFilterTempKey] r of
         (Some e, r1) \<Rightarrow> Some (Some e, d, r1)
       | (None, r1) \<Rightarrow>
      (case rd_SAdd client redisFilterTempKey [redisFilterMarker] r1 of
         (Some e, r2) \<Rightarrow> Some (Some e, d, r2)
       | (None, r2) \<Rightarrow>
      (case source (if batchSize \<le> 0 then 1000 else batchSize) (redis_set_batch client) (d, r2) of
         None \<Rightarrow> None
       | Some (Some e, d', r3) \<Rightarrow> Some (Some e, d', snd (rd_Del client [redisFilterTempKey] r3))
       | Some (None, d', r3) \<Rightarrow>
      (case rd_Rename client redisFilterTempKey redisFilterKey r3 of
         (Some e, r4) \<Rightarrow> Some (Some e, d', r4)
       | (None, r4) \<Rightarrow>
      (case rd_SRem client redisFilterKey redisFilterMarker r4 of
         (e, r5) \<Rightarrow> Some (e, d', r5)))))))"

section \<open>The Bloom filter (bloom.go)\<close>

definition defaultBloomFilterKey :: string where
  "defaultBloomFilterKey = ''flashlink:filter:codes''"

definition defaultBloomFilterCapacity :: uint64 where
  "defaultBloomFilterCapacity = 10000000"

definition defaultBloomFilterErrorRate :: float64 where
  "defaultBloomFilterErrorRate = Finite (1 / 100)"

text \<open>The script of \<open>finishRebuild\<close>; \<open>redis.call\<close> raises an error that ends the script.\<close>

definition finishBloomRebuildScript ::
  "'r redis \<Rightarrow> string \<Rightarrow> string \<Rightarrow> string \<Rightarrow> string \<Rightarrow> 'r \<Rightarrow> go_error option \<times> 'r" where
  "finishBloomRebuildScript server key1 key2 key3 arg1 r =
     (case rd_Get server key3 r of
        (Inl e, r1) \<Rightarrow> (if errors_Is e RedisNil then (None, r1) else (Some e, r1))
      | (Inr v, r1) \<Rightarrow>
          (if v = arg1
           then (case rd_Rename server key1 key2 r1 of
                   (Some e, r2) \<Rightarrow> (Some e, r2)
                 | (None, r2) \<Rightarrow> rd_Del server [key3] r2)
           else (None, r1)))"

record RedisBloomOptions =
  bo_Key :: string
  bo_Capacity :: uint64
  bo_ErrorRate :: float64

record RedisBloom =
  rb_key :: string
  rb_tempKey :: string
  rb_markerKey :: string
  rb_capacity :: int64
  rb_errorRate :: float64

definition NewRedisBloom :: "RedisBloomOptions \<Rightarrow> RedisBloom" where
  "NewRedisBloom options =
     (let key = (if bo_Key options = [] then defaultBloomFilterKey else bo_Key options);
          capacity = (if bo_Capacity options = 0 then defaultBloomFilterCapacity else bo_Capacity options);
          errorRate = (if float_le (bo_ErrorRate options) (Finite 0) \<or> float_le (Finite 1) (bo_ErrorRate options)
                       then defaultBloomFilterErrorRate else bo_ErrorRate options)
      in \<lparr>rb_key = key, rb_tempKey = key @ '':rebuild'', rb_markerKey = key @ '':rebuilding'',
          rb_capacity = capacity, rb_errorRate = errorRate\<rparr>)"

fun dedupe_loop :: "string set \<Rightarrow> string list \<Rightarrow> string list" where
  "dedupe_loop seen [] = []"
| "dedupe_loop seen (v # vs) =
     (if v = [] \<or> v \<in> seen then dedupe_loop seen vs else v # dedupe_loop (insert v seen) vs)"

definition dedupeStrings :: "string list \<Rightarrow> string list" where
  "dedupeStrings vs = dedupe_loop {} vs"

definition addKeys :: "'r redis \<Rightarrow> RedisBloom \<Rightarrow> 'r \<Rightarrow> (go_error + string list) \<times> 'r" where
  "addKeys client f r =
     (case rd_Get client (rb_markerKey f) r of
        (Inl e, r1) \<Rightarrow> ((if errors_Is e RedisNil then Inr [rb_key f] else Inl e), r1)
      | (Inr tempKey, r1) \<Rightarrow>
          ((if tempKey = [] then Inr [rb_key f] else Inr [rb_key f, tempKey]), r1))"

fun add_each :: "'r redis \<Rightarrow> string list \<Rightarrow> string \<Rightarrow> 'r \<Rightarrow> go_error option \<times> 'r" where
  "add_each client [] code r = (None, r)"
| "add_each client (k # ks) code r =
     (case rd_BFAdd client k code r of
        (Some e, r1) \<Rightarrow> (Some e, r1)
      | (None, r1) \<Rightarrow> add_each client ks code r1)"

definition addToKeys :: "'r redis \<Rightarrow> string list \<Rightarrow> string \<Rightarrow> 'r \<Rightarrow> go_error option \<times> 'r" where
  "addToKeys client keys code r = add_each client (dedupeStrings keys) code r"

definition RedisBloom_Add :: "'r redis \<Rightarrow> RedisBloom \<Rightarrow> string \<Rightarrow> 'r \<Rightarrow> go_error option \<times> 'r" where
  "RedisBloom_Add client f code r =
     (case addKeys client f r of
        (Inl e, r1) \<Rightarrow> (Some e, r1)
      | (Inr keys, r1) \<Rightarrow> addToKeys client keys code r1)"

definition RedisBloom_MightContain ::
  "'r redis \<Rightarrow> RedisBloom \<Rightarrow> string \<Rightarrow> 'r \<Rightarrow> (go_error + bool) \<times> 'r" where
  "RedisBloom_MightContain client f code = rd_BFExists client (rb_key f) code"

definition addBatchToKey :: "'r redis \<Rightarrow> string \<Rightarrow> 'r code_handler" where
  "addBatchToKey client key codes r =
     (if codes = [] then (None, r) else rd_BFMAdd client key codes r)"

definition reserve :: "'r redis \<Rightarrow> RedisBloom \<Rightarrow> string \<Rightarrow> 'r \<Rightarrow> go_error option \<times> 'r" where
  "reserve client f key r =
     (case rd_BFReserve client key (rb_errorRate f) (rb_capacity f) r of
        (None, r1) \<Rightarrow> (None, r1)
      | (Some e, r1) \<Rightarrow> ((if rd_HasErrorPrefix client e ''ERR item exists'' then None else Some e), r1))"

definition rebuildTempKey :: "RedisBloom \<Rightarrow> time \<Rightarrow> string" where
  "rebuildTempKey f now = rb_tempKey f @ '':'' @ FormatInt (sint (unix_nano now))"

definition finishRebuild :: "'r redis \<Rightarrow> RedisBloom \<Rightarrow> string \<Rightarrow> 'r \<Rightarrow> go_error option \<times> 'r" where
  "finishRebuild client f tempKey =
     rd_Eval client (finishBloomRebuildScript client tempKey (rb_key f) (rb_markerKey f) tempKey)"

text \<open>\<open>now\<close> is what \<open>time.Now\<close> returns to \<open>rebuildTempKey\<close>.\<close>

definition RedisBloom_Rebuild ::
  "'r redis \<Rightarrow> RedisBloom \<Rightarrow> time \<Rightarrow> ('d, 'r) code_lister \<Rightarrow> int \<Rightarrow> 'd \<times> 'r \<Rightarrow>
   (go_error option \<times> 'd \<times> 'r) option" where
  "RedisBloom_Rebuild client f now source batchSize dr =
     (case dr of (d, r) \<Rightarrow>
      (let tempKey = rebuildTempKey f now
       in case rd_Set client (rb_markerKey f) tempKey 0 r of
            (Some e, r1) \<Rightarrow> Some (Some e, d, r1)
          | (None, r1) \<Rightarrow>
       (case reserve client f tempKey r1 of
            (Some e, r2) \<Rightarrow> Some (Some e, d, snd (rd_Del client [rb_markerKey f] r2))
          | (None, r2) \<Rightarrow>
       (case source (if batchSize \<le> 0 then 1000 else batchSize) (addBatchToKey client tempKey) (d, r2) of
            None \<Rightarrow> None
          | Some (Some e, d', r3) \<Rightarrow>
              Some (Some e, d', snd (rd_Del client [rb_markerKey f] (snd (rd_Del client [tempKey] r3))))
          | Some (None, d', r3) \<Rightarrow>
              (case finishRebuild client f tempKey r3 of (e, r4) \<Rightarrow> Some (e, d', r4))))))"

section \<open>Keys without a time to live\<close>

definition persistent :: "keyspace \<Rightarrow> string \<Rightarrow> bool" where
  "persistent m k \<longleftrightarrow> (\<forall>v. m k \<noteq> Some (v, True))"

lemma persistent_evolves: "persistent m k \<Longrightarrow> evolves m m' \<Longrightarrow> persistent m' k"
  unfolding persistent_def evolves_def map_le_def by (metis domI)

text \<open>What every write leaves true, because its effect and the passing of time do.\<close>

lemma write_keeps:
  assumes "write_law db eff cmd" and "cmd r = (e, r')" and "Q (db r)"
    and "\<And>m m'. Q m \<Longrightarrow> evolves m m' \<Longrightarrow> Q m'" and "\<And>m m'. Q m \<Longrightarrow> eff m = Some m' \<Longrightarrow> Q m'"
  shows "Q (db r')"
  using assms(1,2) by (rule write_lawE) (use assms(3-5) in blast)+

lemma eff_bfadd_other: "eff_bfadd k vs m = Some m' \<Longrightarrow> k' \<noteq> k \<Longrightarrow> m' k' = m k'"
  by (auto simp: eff_bfadd_def split: option.splits prod.splits redis_value.splits)

lemma eff_bfadd_persistent: "persistent m k' \<Longrightarrow> eff_bfadd k vs m = Some m' \<Longrightarrow> persistent m' k'"
  by (auto simp: eff_bfadd_def persistent_def split: option.splits prod.splits redis_value.splits if_splits)

lemma eff_bfadd_items:
  "persistent m k \<Longrightarrow> eff_bfadd k vs m = Some m' \<Longrightarrow> bloom_items m' k = bloom_items m k \<union> set vs"
  by (auto simp: eff_bfadd_def persistent_def bloom_items_def
      split: option.splits prod.splits redis_value.splits if_splits bool.splits)

lemma eff_bfadd_grows: "persistent m k' \<Longrightarrow> eff_bfadd k vs m = Some m' \<Longrightarrow> bloom_items m k' \<subseteq> bloom_items m' k'"
  using eff_bfadd_items [of m k vs m'] eff_bfadd_other [of k vs m m' k']
  by (cases "k' = k") (auto simp: bloom_items_def)

lemma eff_sadd_persistent: "persistent m k' \<Longrightarrow> eff_sadd k vs m = Some m' \<Longrightarrow> persistent m' k'"
  by (auto simp: eff_sadd_def persistent_def split: option.splits prod.splits redis_value.splits if_splits)

lemma eff_sadd_other: "eff_sadd k vs m = Some m' \<Longrightarrow> k' \<noteq> k \<Longrightarrow> m' k' = m k'"
  by (auto simp: eff_sadd_def split: option.splits prod.splits redis_value.splits)

lemma eff_sadd_items:
  "persistent m k \<Longrightarrow> eff_sadd k vs m = Some m' \<Longrightarrow> set_items m' k = set_items m k \<union> set vs"
  by (auto simp: eff_sadd_def persistent_def set_items_def
      split: option.splits prod.splits redis_value.splits if_splits bool.splits)

text \<open>A key of a filter: without a time to live, holding at least some items.\<close>

definition bloom_key :: "string \<Rightarrow> string set \<Rightarrow> keyspace \<Rightarrow> bool" where
  "bloom_key k C m \<longleftrightarrow> persistent m k \<and> C \<subseteq> bloom_items m k"

definition set_key :: "string \<Rightarrow> string set \<Rightarrow> keyspace \<Rightarrow> bool" where
  "set_key k C m \<longleftrightarrow> persistent m k \<and> C \<subseteq> set_items m k"

lemma bloom_key_evolves: "bloom_key k C m \<Longrightarrow> evolves m m' \<Longrightarrow> bloom_key k C m'"
  using persistent_evolves by (auto simp: bloom_key_def evolves_bloom)

lemma bloom_key_add: "bloom_key k' C m \<Longrightarrow> eff_bfadd k vs m = Some m' \<Longrightarrow> bloom_key k' C m'"
  using eff_bfadd_persistent eff_bfadd_grows by (fastforce simp: bloom_key_def)

lemma bloom_key_added: "bloom_key k C m \<Longrightarrow> eff_bfadd k vs m = Some m' \<Longrightarrow> bloom_key k (C \<union> set vs) m'"
  using eff_bfadd_persistent eff_bfadd_items by (fastforce simp: bloom_key_def)

lemma set_key_evolves: "set_key k C m \<Longrightarrow> evolves m m' \<Longrightarrow> set_key k C m'"
  using persistent_evolves by (auto simp: set_key_def evolves_set)

lemma set_key_added: "set_key k C m \<Longrightarrow> eff_sadd k vs m = Some m' \<Longrightarrow> set_key k (C \<union> set vs) m'"
  using eff_sadd_persistent eff_sadd_items by (fastforce simp: set_key_def)

lemma set_key_grows: "set_key k' C m \<Longrightarrow> eff_sadd k vs m = Some m' \<Longrightarrow> set_key k' C m'"
  using set_key_added [of k' C m vs m'] eff_sadd_other [of k vs m m' k']
  by (cases "k' = k") (auto simp: set_key_def persistent_def set_items_def)

text \<open>The commands of the filters.\<close>

lemma sadd_keeps:
  "redis_laws db R \<Longrightarrow> rd_SAdd R k vs r = (e, r') \<Longrightarrow> set_key k' C (db r) \<Longrightarrow> set_key k' C (db r')"
  by (rule write_keeps [OF redis_lawsD(6)]) (auto intro: set_key_evolves set_key_grows)

lemma sadd_done:
  "redis_laws db R \<Longrightarrow> rd_SAdd R k vs r = (None, r') \<Longrightarrow> set_key k C (db r) \<Longrightarrow> set_key k (C \<union> set vs) (db r')"
  by (rule write_lawE [OF redis_lawsD(6)]) (auto intro: set_key_evolves set_key_added)

lemma bfmadd_keeps:
  "redis_laws db R \<Longrightarrow> rd_BFMAdd R k vs r = (e, r') \<Longrightarrow> bloom_key k' C (db r) \<Longrightarrow> bloom_key k' C (db r')"
  by (rule write_keeps [OF redis_lawsD(10)]) (auto intro: bloom_key_evolves bloom_key_add)

lemma bfmadd_done:
  "redis_laws db R \<Longrightarrow> rd_BFMAdd R k vs r = (None, r') \<Longrightarrow> bloom_key k C (db r) \<Longrightarrow>
   bloom_key k (C \<union> set vs) (db r')"
  by (rule write_lawE [OF redis_lawsD(10)]) (auto intro: bloom_key_evolves bloom_key_added)

lemma bfadd_keeps:
  "redis_laws db R \<Longrightarrow> rd_BFAdd R k v r = (e, r') \<Longrightarrow> bloom_key k' C (db r) \<Longrightarrow> bloom_key k' C (db r')"
  by (rule write_keeps [OF redis_lawsD(9)]) (auto intro: bloom_key_evolves bloom_key_add)

lemma bfadd_done:
  "redis_laws db R \<Longrightarrow> rd_BFAdd R k v r = (None, r') \<Longrightarrow> bloom_key k C (db r) \<Longrightarrow>
   bloom_key k (insert v C) (db r')"
  by (rule write_lawE [OF redis_lawsD(9)]) (use bloom_key_added [of k C "db r" "[v]"] in \<open>auto intro: bloom_key_evolves\<close>)

lemma read_evolves:
  assumes "redis_laws db R"
  shows "rd_Get R k r = (v, r') \<Longrightarrow> evolves (db r) (db r')"
    and "rd_SIsMember R k c r = (b, r') \<Longrightarrow> evolves (db r) (db r')"
    and "rd_BFExists R k c r = (b, r') \<Longrightarrow> evolves (db r) (db r')"
  using redis_lawsD(1,8,11) [OF assms]
  by (auto simp: get_law_def sismember_law_def bfexists_law_def)

section \<open>The Redis set as a filter\<close>

definition redis_set_ok :: "('r \<Rightarrow> keyspace) \<Rightarrow> 'r redis \<Rightarrow> 'r \<Rightarrow> bool" where
  "redis_set_ok db R r \<longleftrightarrow> redis_laws db R \<and> persistent (db r) redisFilterKey"

lemma redis_set_ok_key:
  "redis_set_ok db R r \<longleftrightarrow> redis_laws db R \<and> set_key redisFilterKey (set_items (db r) redisFilterKey) (db r)"
  by (simp add: redis_set_ok_def set_key_def)

interpretation redis_set_filter: existence_filter "RedisSet_Add R" "RedisSet_MightContain R"
    "redis_set_ok db R" "\<lambda>r. set_items (db r) redisFilterKey"
  for R db
proof (unfold_locales, goal_cases)
  case (1 r c e r')
  then show ?case
    using sadd_keeps unfolding redis_set_ok_key RedisSet_Add_def by (metis order_refl set_key_def)
next
  case (2 r c r')
  then show ?case
    using sadd_done unfolding redis_set_ok_key RedisSet_Add_def set_key_def by fastforce
next
  case (3 r c e r')
  then show ?case
    using sadd_keeps unfolding redis_set_ok_key RedisSet_Add_def set_key_def by metis
next
  case (4 r c v r')
  then show ?case
    using read_evolves(2) persistent_evolves unfolding redis_set_ok_def RedisSet_MightContain_def by metis
next
  case (5 r c v r')
  then show ?case
    using read_evolves(2) evolves_set unfolding redis_set_ok_def RedisSet_MightContain_def by metis
next
  case (6 r c b r')
  then have "b = (\<exists>s x. db r redisFilterKey = Some (RSet s, x) \<and> c \<in> s)"
    using redis_lawsD(8) [of db R redisFilterKey c]
    unfolding redis_set_ok_def RedisSet_MightContain_def sismember_law_def by blast
  with 6(3) show ?case by (auto simp: in_set_items)
qed

section \<open>The Bloom filter as a filter\<close>

definition redis_bloom_ok :: "('r \<Rightarrow> keyspace) \<Rightarrow> 'r redis \<Rightarrow> RedisBloom \<Rightarrow> 'r \<Rightarrow> bool" where
  "redis_bloom_ok db R f r \<longleftrightarrow> redis_laws db R \<and> rb_key f \<noteq> [] \<and> persistent (db r) (rb_key f)"

lemma redis_bloom_ok_key:
  "redis_bloom_ok db R f r \<longleftrightarrow>
   redis_laws db R \<and> rb_key f \<noteq> [] \<and> bloom_key (rb_key f) (bloom_items (db r) (rb_key f)) (db r)"
  by (simp add: redis_bloom_ok_def bloom_key_def)

lemma dedupe_loop_set: "set (dedupe_loop seen vs) = set vs - seen - {[]}"
  by (induction seen vs rule: dedupe_loop.induct) auto

lemma dedupe_loop_distinct: "distinct (dedupe_loop seen vs)"
  by (induction seen vs rule: dedupe_loop.induct) (auto simp: dedupe_loop_set)

lemma dedupeStrings_set: "set (dedupeStrings vs) = set vs - {[]}"
  and dedupeStrings_distinct: "distinct (dedupeStrings vs)"
  by (simp_all add: dedupeStrings_def dedupe_loop_set dedupe_loop_distinct)

lemma add_each_keeps:
  "redis_laws db R \<Longrightarrow> add_each R ks code r = (e, r') \<Longrightarrow> bloom_key k C (db r) \<Longrightarrow> bloom_key k C (db r')"
proof (induction R ks code r rule: add_each.induct)
  case (2 R k' ks code r)
  obtain e1 r1 where hd: "rd_BFAdd R k' code r = (e1, r1)" by fastforce
  have "bloom_key k C (db r1)" by (rule bfadd_keeps [OF "2.prems"(1) hd "2.prems"(3)])
  with 2 hd show ?case by (cases e1) auto
qed simp

lemma add_each_done:
  "redis_laws db R \<Longrightarrow> add_each R ks code r = (None, r') \<Longrightarrow> k \<in> set ks \<Longrightarrow> bloom_key k C (db r) \<Longrightarrow>
   bloom_key k (insert code C) (db r')"
proof (induction R ks code r rule: add_each.induct)
  case (2 R k' ks code r)
  from "2.prems"(2) obtain r1 where hd: "rd_BFAdd R k' code r = (None, r1)"
    and tl: "add_each R ks code r1 = (None, r')" by (auto split: prod.splits option.splits)
  show ?case
  proof (cases "k' = k")
    case True
    with "2.prems"(4) have "bloom_key k (insert code C) (db r1)"
      using bfadd_done [OF "2.prems"(1) hd] by simp
    with add_each_keeps [OF "2.prems"(1) tl] show ?thesis by blast
  next
    case False
    have "bloom_key k C (db r1)" by (rule bfadd_keeps [OF "2.prems"(1) hd "2.prems"(4)])
    with False "2.IH" [OF hd [symmetric]] hd tl "2.prems" show ?thesis by auto
  qed
qed simp

lemma addKeys_result:
  assumes "redis_laws db R" and "addKeys R f r = (res, r')"
  shows "evolves (db r) (db r')" and "res = Inr ks \<Longrightarrow> rb_key f \<in> set ks"
proof -
  obtain v r1 where "rd_Get R (rb_markerKey f) r = (v, r1)" by fastforce
  then show "evolves (db r) (db r')" and "res = Inr ks \<Longrightarrow> rb_key f \<in> set ks"
    using assms read_evolves(1) by (auto simp: addKeys_def split: sum.splits if_splits)
qed

lemma RedisBloom_Add_keeps:
  assumes "redis_laws db R" and "RedisBloom_Add R f code r = (e, r')" and "bloom_key k C (db r)"
  shows "bloom_key k C (db r')"
proof -
  obtain res r1 where keys: "addKeys R f r = (res, r1)" by fastforce
  then have "bloom_key k C (db r1)"
    using addKeys_result(1) [OF assms(1)] bloom_key_evolves assms(3) by blast
  with keys assms add_each_keeps show ?thesis
    by (fastforce simp: RedisBloom_Add_def addToKeys_def split: sum.splits)
qed

lemma RedisBloom_Add_done:
  assumes laws: "redis_laws db R" and run: "RedisBloom_Add R f code r = (None, r')"
    and key: "bloom_key (rb_key f) C (db r)" and "rb_key f \<noteq> []"
  shows "bloom_key (rb_key f) (insert code C) (db r')"
proof -
  obtain ks r1 where keys: "addKeys R f r = (Inr ks, r1)"
    and add: "add_each R (dedupeStrings ks) code r1 = (None, r')"
    using run by (auto simp: RedisBloom_Add_def addToKeys_def split: prod.splits sum.splits)
  from keys have "bloom_key (rb_key f) C (db r1)" and "rb_key f \<in> set (dedupeStrings ks)"
    using addKeys_result [OF laws] bloom_key_evolves key \<open>rb_key f \<noteq> []\<close>
    by (auto simp: dedupeStrings_set)
  with add_each_done [OF laws add] show ?thesis by blast
qed

interpretation redis_bloom_filter: existence_filter "RedisBloom_Add R f" "RedisBloom_MightContain R f"
    "redis_bloom_ok db R f" "\<lambda>r. bloom_items (db r) (rb_key f)"
  for R f db
proof (unfold_locales, goal_cases)
  case (1 r c e r')
  then show ?case
    using RedisBloom_Add_keeps unfolding redis_bloom_ok_key by (metis order_refl bloom_key_def)
next
  case (2 r c r')
  then show ?case
    using RedisBloom_Add_done unfolding redis_bloom_ok_key bloom_key_def by fastforce
next
  case (3 r c e r')
  then show ?case
    using RedisBloom_Add_keeps unfolding redis_bloom_ok_key bloom_key_def by metis
next
  case (4 r c v r')
  then show ?case
    using read_evolves(3) persistent_evolves unfolding redis_bloom_ok_def RedisBloom_MightContain_def by metis
next
  case (5 r c v r')
  then show ?case
    using read_evolves(3) evolves_bloom unfolding redis_bloom_ok_def RedisBloom_MightContain_def by metis
next
  case (6 r c b r')
  then have "b = False \<longrightarrow> \<not> (\<exists>s x. db r (rb_key f) = Some (RBloom s, x) \<and> c \<in> s)"
    using redis_lawsD(11) [of db R "rb_key f" c]
    unfolding redis_bloom_ok_def RedisBloom_MightContain_def bfexists_law_def by blast
  with 6(3) show ?case by (auto simp: in_bloom_items)
qed

section \<open>Rebuilding the Bloom filter\<close>

text \<open>What a rebuild is about: the key of the filter, the temporary key and the marker are different keys.\<close>

lemma NewRedisBloom_keys:
  assumes "f = NewRedisBloom options"
  shows "rb_key f \<noteq> []" and "rb_markerKey f \<noteq> rb_key f" and "rebuildTempKey f t \<noteq> rb_key f"
    and "rebuildTempKey f t \<noteq> rb_markerKey f"
  by (auto simp: assms NewRedisBloom_def Let_def defaultBloomFilterKey_def rebuildTempKey_def)

definition marked :: "string \<Rightarrow> string \<Rightarrow> keyspace \<Rightarrow> bool" where
  "marked k v m \<longleftrightarrow> m k = Some (RString v, False)"

lemma marked_evolves: "marked k v m \<Longrightarrow> evolves m m' \<Longrightarrow> marked k v m'"
  by (simp add: marked_def evolves_persistent)

lemma bloom_key_absent: "m k = None \<Longrightarrow> bloom_key k {} m"
  by (simp add: bloom_key_def persistent_def)

lemma del_keeps:
  assumes "redis_laws db R" and "rd_Del R ks r = (e, r')" and "bloom_key k C (db r)" and "k \<notin> set ks"
  shows "bloom_key k C (db r')"
  using redis_lawsD(3) [OF assms(1)] assms(2,3) bloom_key_evolves
  by (rule write_keeps) (use assms(4) in \<open>auto simp: eff_del_def bloom_key_def persistent_def bloom_items_def\<close>)

lemma rename_bloom:
  assumes "redis_laws db R" and "rd_Rename R k k' r = (e, r')" and "k \<noteq> k'"
    and "bloom_key k A (db r)" and "bloom_key k' C (db r)"
  shows "if e = None then bloom_key k' A (db r') else bloom_key k' C (db r') \<or> bloom_key k' A (db r')"
  using redis_lawsD(4) [OF assms(1)] assms(2)
proof (cases rule: write_lawE)
  case (executed m)
  from executed(1) assms(3,4) have "bloom_key k' A m"
    by (fastforce simp: eff_rename_def bloom_key_def persistent_def in_bloom_items subset_iff
        split: option.splits)
  with executed(2) show ?thesis using bloom_key_evolves by auto
next
  case unexecuted
  then show ?thesis using bloom_key_evolves [OF assms(5)] by auto
qed

lemma script_result:
  assumes laws: "redis_laws db R" and run: "finishBloomRebuildScript R k k' mk t r = (e, r')"
    and keys: "k \<noteq> k'" "mk \<noteq> k'" and marked: "marked mk t (db r)"
    and bloom: "bloom_key k A (db r)" "bloom_key k' C (db r)"
  shows "if e = None then bloom_key k' A (db r') else bloom_key k' C (db r') \<or> bloom_key k' A (db r')"
proof -
  obtain v r1 where get: "rd_Get R mk r = (v, r1)" by fastforce
  have ev: "evolves (db r) (db r1)" by (rule read_evolves(1) [OF laws get])
  note bloom1 = bloom_key_evolves [OF bloom(1) ev] bloom_key_evolves [OF bloom(2) ev]
  have "marked mk t (db r1)" using marked ev by (rule marked_evolves)
  show ?thesis
  proof (cases v)
    case (Inl x)
    have "\<not> errors_Is x RedisNil"
      using redis_lawsD(1) [OF laws, of mk] get Inl \<open>marked mk t (db r1)\<close>
      unfolding get_law_def marked_def by fastforce
    with Inl get run bloom1 show ?thesis by (auto simp: finishBloomRebuildScript_def)
  next
    case (Inr x)
    have "x = t"
      using redis_lawsD(1) [OF laws, of mk] get Inr marked unfolding get_law_def marked_def by fastforce
    obtain e2 r2 where ren: "rd_Rename R k k' r1 = (e2, r2)" by fastforce
    note renamed = rename_bloom [OF laws ren keys(1) bloom1]
    show ?thesis
    proof (cases e2)
      case None
      with Inr get run ren \<open>x = t\<close> have del: "rd_Del R [mk] r2 = (e, r')"
        by (simp add: finishBloomRebuildScript_def)
      from None renamed have "bloom_key k' A (db r2)" by simp
      with del_keeps [OF laws del] keys(2) show ?thesis by simp
    next
      case (Some y)
      with Inr get run ren \<open>x = t\<close> have "e = Some y" "r' = r2"
        by (simp_all add: finishBloomRebuildScript_def)
      with Some renamed show ?thesis by simp
    qed
  qed
qed

text \<open>The state of the key space while the codes are listed into the temporary key.\<close>

definition rebuilding :: "RedisBloom \<Rightarrow> string \<Rightarrow> string set \<Rightarrow> string set \<Rightarrow> keyspace \<Rightarrow> bool" where
  "rebuilding f t C A m \<longleftrightarrow> marked (rb_markerKey f) t m \<and> bloom_key t A m \<and> bloom_key (rb_key f) C m"

lemma rebuilding_evolves: "rebuilding f t C A m \<Longrightarrow> evolves m m' \<Longrightarrow> rebuilding f t C A m'"
  using bloom_key_evolves marked_evolves by (auto simp: rebuilding_def)

lemma rebuilding_add:
  assumes "rebuilding f t C A m" and "t \<noteq> rb_markerKey f" and "eff_bfadd t vs m = Some m'"
  shows "rebuilding f t C (A \<union> set vs) m'"
  using assms eff_bfadd_other [OF assms(3), of "rb_markerKey f"] bloom_key_added [OF _ assms(3)]
    bloom_key_add [OF _ assms(3)]
  by (auto simp: rebuilding_def marked_def)

lemma rebuilding_mono: "rebuilding f t C A m \<Longrightarrow> A' \<subseteq> A \<Longrightarrow> rebuilding f t C A' m"
  by (auto simp: rebuilding_def bloom_key_def)

lemma addBatchToKey_rebuilding:
  assumes laws: "redis_laws db R" and t: "t \<noteq> rb_markerKey f" and run: "addBatchToKey R t vs r = (e, r')"
    and inv: "rebuilding f t C A (db r)"
  shows "rebuilding f t C (if e = None then A \<union> set vs else A) (db r')"
proof (cases "vs = []")
  case True
  with run inv show ?thesis by (simp add: addBatchToKey_def)
next
  case False
  with run have "rd_BFMAdd R t vs r = (e, r')" by (simp add: addBatchToKey_def)
  with redis_lawsD(10) [OF laws] show ?thesis
  proof (cases rule: write_lawE)
    case (executed m)
    with rebuilding_evolves [OF rebuilding_add [OF inv t]] show ?thesis
      by (auto intro: rebuilding_mono)
  next
    case unexecuted
    with rebuilding_evolves [OF inv] show ?thesis by auto
  qed
qed

lemma reserve_rebuilding:
  assumes laws: "redis_laws db R" and run: "reserve R f t r = (e, r')" and t: "t \<noteq> rb_key f" "t \<noteq> rb_markerKey f"
    and absent: "db r t = None" and marked: "marked (rb_markerKey f) t (db r)" and key: "bloom_key (rb_key f) C (db r)"
  shows "rebuilding f t C {} (db r')"
proof -
  obtain e1 where res: "rd_BFReserve R t (rb_errorRate f) (rb_capacity f) r = (e1, r')"
    using run by (auto simp: reserve_def split: prod.splits option.splits)
  have now: "rebuilding f t C {} (db r)"
    using marked key bloom_key_absent [of "db r" t] absent by (simp add: rebuilding_def)
  from redis_lawsD(12) [OF laws] res show ?thesis
  proof (cases rule: write_lawE)
    case (executed m)
    from executed(1) absent have "m = (db r)(t \<mapsto> (RBloom {}, False))" by (simp add: eff_reserve_def)
    with now t have "rebuilding f t C {} m"
      by (auto simp: rebuilding_def marked_def bloom_key_def persistent_def bloom_items_def)
    with executed(2) show ?thesis using rebuilding_evolves by blast
  next
    case unexecuted
    with now show ?thesis using rebuilding_evolves by blast
  qed
qed

lemma finish_result:
  assumes laws: "redis_laws db R" and run: "finishRebuild R f t r = (e, r')"
    and keys: "t \<noteq> rb_key f" "rb_markerKey f \<noteq> rb_key f" and inv: "rebuilding f t C A (db r)"
  shows "if e = None then bloom_key (rb_key f) A (db r')
    else bloom_key (rb_key f) C (db r') \<or> bloom_key (rb_key f) A (db r')"
proof -
  let ?script = "finishBloomRebuildScript R t (rb_key f) (rb_markerKey f) t"
  note parts = inv [unfolded rebuilding_def]
  from redis_lawsD(5) [OF laws] run consider
    (ran) es r1 where "?script r = (es, r1)" "evolves (db r1) (db r')" "e = None \<longrightarrow> es = None"
    | (lost) "e \<noteq> None" "evolves (db r) (db r')"
    unfolding eval_law_def finishRebuild_def by blast
  then show ?thesis
  proof cases
    case ran
    have "if es = None then bloom_key (rb_key f) A (db r1)
        else bloom_key (rb_key f) C (db r1) \<or> bloom_key (rb_key f) A (db r1)"
      using script_result [OF laws ran(1) keys] parts by blast
    with ran(2,3) show ?thesis using bloom_key_evolves by (auto split: if_splits)
  next
    case lost
    with parts show ?thesis using bloom_key_evolves by auto
  qed
qed

text \<open>
  A rebuild keeps what the filter was bound to answer for, or replaces it by the active codes of
  the source; when it reports success it has replaced it (\<open>C\<close>: any codes the filter held before).
\<close>

lemma RedisBloom_Rebuild_result:
  assumes source: "code_source source ok active" "ok d" and laws: "redis_laws db R"
    and f: "f = NewRedisBloom options" and fresh: "db r (rebuildTempKey f now) = None"
    and key: "bloom_key (rb_key f) C (db r)"
    and run: "RedisBloom_Rebuild R f now source b (d, r) = Some (e, d', r')"
  shows "if e = None then bloom_key (rb_key f) (active d) (db r')
    else bloom_key (rb_key f) C (db r') \<or> bloom_key (rb_key f) (active d) (db r')"
proof -
  define t where "t = rebuildTempKey f now"
  define n where "n = (if b \<le> 0 then 1000 else b)"
  note run = run [unfolded RedisBloom_Rebuild_def, folded t_def n_def]
  note keys = NewRedisBloom_keys [OF f]
  have t: "t \<noteq> rb_key f" "t \<noteq> rb_markerKey f" using keys by (simp_all add: t_def)
  obtain e1 r1 where set: "rd_Set R (rb_markerKey f) t 0 r = (e1, r1)" by fastforce
  have key1: "bloom_key (rb_key f) C (db r1)" and absent1: "db r1 t = None"
    and marked1: "e1 = None \<Longrightarrow> marked (rb_markerKey f) t (db r1)"
    using redis_lawsD(2) [OF laws] set
  proof (atomize (full), cases rule: write_lawE)
    case (executed m)
    from executed(1) have m: "m = (db r)(rb_markerKey f \<mapsto> (RString t, False))" by (simp add: eff_set_def)
    with key keys(2) have "bloom_key (rb_key f) C m"
      by (auto simp: bloom_key_def persistent_def bloom_items_def)
    moreover have "m t = None" using m fresh t by (simp add: t_def)
    moreover have "marked (rb_markerKey f) t m" by (simp add: m marked_def)
    ultimately show "bloom_key (rb_key f) C (db r1) \<and> db r1 t = None \<and>
        (e1 = None \<longrightarrow> marked (rb_markerKey f) t (db r1))"
      using executed(2) bloom_key_evolves marked_evolves
      by (auto simp: evolves_def map_le_def) (metis domI option.exhaust)
  next
    case unexecuted
    then show "bloom_key (rb_key f) C (db r1) \<and> db r1 t = None \<and>
        (e1 = None \<longrightarrow> marked (rb_markerKey f) t (db r1))"
      using bloom_key_evolves [OF key] fresh unfolding t_def [symmetric]
      by (auto simp: evolves_def map_le_def) (metis domI option.exhaust)
  qed
  show ?thesis
  proof (cases e1)
    case (Some x)
    with run set key1 show ?thesis by auto
  next
    case e1: None
    obtain e2 r2 where res: "reserve R f t r1 = (e2, r2)" by fastforce
    have inv2: "rebuilding f t C {} (db r2)"
      using reserve_rebuilding [OF laws res t absent1 marked1 [OF e1] key1] .
    show ?thesis
    proof (cases e2)
      case (Some x)
      obtain e3 r3 where del: "rd_Del R [rb_markerKey f] r2 = (e3, r3)" by fastforce
      with Some e1 run set res have "e = Some x" "r' = r3"
        by auto
      moreover have "bloom_key (rb_key f) C (db r3)"
        using del_keeps [OF laws del, of "rb_key f" C] inv2 keys(2) by (auto simp: rebuilding_def)
      ultimately show ?thesis by simp
    next
      case e2: None
      from run e1 e2 set res obtain e3 r3 where
        list: "source n (addBatchToKey R t) (d, r2) = Some (e3, d', r3)"
        by (auto split: option.splits prod.splits)
      have step: "rebuilding f t C (if e = None then A \<union> set codes else A) (db s')"
        if "rebuilding f t C A (db s)" and "addBatchToKey R t codes s = (e, s')" for A codes s e s'
        using addBatchToKey_rebuilding [OF laws t(2) that(2,1)] .
      show ?thesis
      proof (cases e3)
        case (Some x)
        have "rebuilding f t C {} (db r3)"
          using code_source.list_invariant [OF source list, where I = "\<lambda>r. rebuilding f t C {} (db r)"]
            inv2 step rebuilding_mono by blast
        obtain e4 r4 where del1: "rd_Del R [t] r3 = (e4, r4)" by fastforce
        obtain e5 r5 where del2: "rd_Del R [rb_markerKey f] r4 = (e5, r5)" by fastforce
        have "bloom_key (rb_key f) C (db r4)"
          using del_keeps [OF laws del1] \<open>rebuilding f t C {} (db r3)\<close> t by (simp add: rebuilding_def)
        then have "bloom_key (rb_key f) C (db r5)" using del_keeps [OF laws del2] keys(2) by simp
        moreover from Some run e1 e2 set res list del1 del2 have "e = Some x" "r' = r5"
          by (auto split: option.splits prod.splits)
        ultimately show ?thesis by simp
      next
        case e3: None
        have inv3: "rebuilding f t C (active d) (db r3)"
          by (rule code_source.list_complete [OF source list [unfolded e3],
                where I = "\<lambda>A r. rebuilding f t C A (db r)"]) (use inv2 step in fastforce)+
        have finish: "finishRebuild R f t r3 = (e, r')"
          using run e1 e2 e3 set res list
          by (auto split: option.splits prod.splits)
        show ?thesis by (rule finish_result [OF laws finish t(1) keys(2) inv3])
      qed
    qed
  qed
qed

section \<open>Rebuilding the Redis set\<close>

lemma redis_set_keys: "redisFilterTempKey \<noteq> redisFilterKey"
  by (simp add: redisFilterTempKey_def redisFilterKey_def)

text \<open>While a set is rebuilt: the codes listed so far and the old set.\<close>

definition set_rebuilding :: "string set \<Rightarrow> string set \<Rightarrow> keyspace \<Rightarrow> bool" where
  "set_rebuilding C A m \<longleftrightarrow> set_key redisFilterTempKey A m \<and> set_key redisFilterKey C m"

lemma sadd_rebuilding:
  assumes "redis_laws db R" and "rd_SAdd R redisFilterTempKey vs r = (e, r')"
    and "set_rebuilding C A (db r)"
  shows "set_rebuilding C (if e = None then A \<union> set vs else A) (db r')"
  using assms sadd_keeps [OF assms(1,2)] sadd_done [OF assms(1), of redisFilterTempKey vs r r' A]
  by (auto simp: set_rebuilding_def)

lemma redis_set_batch_rebuilding:
  assumes "redis_laws db R" and "redis_set_batch R vs r = (e, r')" and "set_rebuilding C A (db r)"
  shows "set_rebuilding C (if e = None then A \<union> set vs else A) (db r')"
  using assms sadd_rebuilding [OF assms(1) _ assms(3), of vs e r']
  by (cases "vs = []") (simp_all add: redis_set_batch_def)

lemma set_del_keeps:
  assumes "redis_laws db R" and "rd_Del R ks r = (e, r')" and "set_key k C (db r)" and "k \<notin> set ks"
  shows "set_key k C (db r')"
  using redis_lawsD(3) [OF assms(1)] assms(2,3) set_key_evolves
  by (rule write_keeps) (use assms(4) in \<open>auto simp: eff_del_def set_key_def persistent_def set_items_def\<close>)

lemma del_done:
  assumes "redis_laws db R" and "rd_Del R ks r = (None, r')" and "k \<in> set ks"
  shows "db r' k = None"
  using redis_lawsD(3) [OF assms(1)] assms(2)
proof (cases rule: write_lawE)
  case (executed m)
  with assms(3) have "m k = None" by (auto simp: eff_del_def)
  with executed(2) show ?thesis by (metis domIff evolves_def map_le_implies_dom_le subsetD)
qed simp

lemma rename_set:
  assumes "redis_laws db R" and "rd_Rename R k k' r = (e, r')" and "k \<noteq> k'"
    and "set_key k A (db r)" and "set_key k' C (db r)"
  shows "if e = None then set_key k' A (db r') else set_key k' C (db r') \<or> set_key k' A (db r')"
  using redis_lawsD(4) [OF assms(1)] assms(2)
proof (cases rule: write_lawE)
  case (executed m)
  from executed(1) assms(3,4) have "set_key k' A m"
    by (fastforce simp: eff_rename_def set_key_def persistent_def in_set_items subset_iff
        split: option.splits)
  with executed(2) show ?thesis using set_key_evolves by auto
next
  case unexecuted
  then show ?thesis using set_key_evolves [OF assms(5)] by auto
qed

lemma eff_srem_items:
  assumes "persistent m k" and "eff_srem k v m = Some m'"
  shows "persistent m' k \<and> set_items m' k = set_items m k - {v}"
proof (cases "m k")
  case None
  with assms show ?thesis by (auto simp: eff_srem_def set_items_def)
next
  case (Some p)
  with assms obtain s where "m k = Some (RSet s, False)"
    by (cases p) (auto simp: eff_srem_def persistent_def split: redis_value.splits)
  with assms(2) show ?thesis
    by (auto simp: eff_srem_def persistent_def set_items_def split: if_splits)
qed

lemma srem_keeps:
  assumes "redis_laws db R" and "rd_SRem R k v r = (e, r')" and "set_key k C (db r)"
  shows "set_key k (C - {v}) (db r')"
proof -
  have start: "set_key k (C - {v}) (db r)" using assms(3) by (auto simp: set_key_def)
  show ?thesis
    using redis_lawsD(7) [OF assms(1)] assms(2) start set_key_evolves
  proof (rule write_keeps)
    fix m m'
    assume "set_key k (C - {v}) m" and "eff_srem k v m = Some m'"
    with eff_srem_items [of m k v m'] show "set_key k (C - {v}) m'" by (auto simp: set_key_def)
  qed
qed

lemma RedisSet_Rebuild_result:
  assumes source: "code_source source ok active" "ok d" and laws: "redis_laws db R"
    and key: "set_key redisFilterKey C (db r)"
    and run: "RedisSet_Rebuild R source b (d, r) = Some (e, d', r')"
  shows "if e = None then set_key redisFilterKey (active d - {redisFilterMarker}) (db r')
    else set_key redisFilterKey (C - {redisFilterMarker}) (db r') \<or>
      set_key redisFilterKey (active d - {redisFilterMarker}) (db r')"
proof -
  let ?C = "C - {redisFilterMarker}" and ?A = "active d - {redisFilterMarker}"
  define n where "n = (if b \<le> 0 then 1000 else b)"
  note run = run [unfolded RedisSet_Rebuild_def, folded n_def]
  have less: "set_key redisFilterKey (D - X) m" if "set_key redisFilterKey D m" for D X m
    using that by (auto simp: set_key_def)
  obtain e1 r1 where del: "rd_Del R [redisFilterTempKey] r = (e1, r1)" by fastforce
  have key1: "set_key redisFilterKey C (db r1)"
    using set_del_keeps [OF laws del key] redis_set_keys by simp
  show ?thesis
  proof (cases e1)
    case (Some x)
    with run del have "e = Some x" "r' = r1" by auto
    with less [OF key1] show ?thesis by simp
  next
    case e1: None
    have "set_rebuilding C {} (db r1)"
      using key1 del_done [OF laws del [unfolded e1]]
      by (simp add: set_rebuilding_def set_key_def persistent_def)
    obtain e2 r2 where add: "rd_SAdd R redisFilterTempKey [redisFilterMarker] r1 = (e2, r2)" by fastforce
    have inv2: "set_rebuilding C {} (db r2)"
      using sadd_rebuilding [OF laws add \<open>set_rebuilding C {} (db r1)\<close>]
      by (auto simp: set_rebuilding_def set_key_def split: if_splits)
    show ?thesis
    proof (cases e2)
      case (Some x)
      with run del e1 add have "e = Some x" "r' = r2" by auto
      with less inv2 show ?thesis by (simp add: set_rebuilding_def)
    next
      case e2: None
      from run e1 e2 del add obtain e3 r3 where
        list: "source n (redis_set_batch R) (d, r2) = Some (e3, d', r3)"
        by (auto split: option.splits prod.splits)
      have step: "set_rebuilding C (if e = None then A \<union> set codes else A) (db s')"
        if "set_rebuilding C A (db s)" and "redis_set_batch R codes s = (e, s')" for A codes s e s'
        using redis_set_batch_rebuilding [OF laws that(2,1)] .
      show ?thesis
      proof (cases e3)
        case (Some x)
        have "set_key redisFilterKey C (db r3)"
          by (rule code_source.list_invariant [OF source list, where I = "\<lambda>r. set_key redisFilterKey C (db r)"])
            (use inv2 sadd_keeps [OF laws] in \<open>auto simp: set_rebuilding_def redis_set_batch_def split: if_splits\<close>)
        moreover obtain e4 r4 where del1: "rd_Del R [redisFilterTempKey] r3 = (e4, r4)" by fastforce
        ultimately have "set_key redisFilterKey C (db r4)"
          using set_del_keeps [OF laws del1] redis_set_keys by simp
        moreover from Some run e1 e2 del add list del1 have "e = Some x" "r' = r4"
          by (auto split: option.splits prod.splits)
        ultimately show ?thesis using less by simp
      next
        case e3: None
        have inv3: "set_rebuilding C (active d) (db r3)"
          by (rule code_source.list_complete [OF source list [unfolded e3],
                where I = "\<lambda>A r. set_rebuilding C A (db r)"]) (use inv2 step in fastforce)+
        obtain e4 r4 where ren: "rd_Rename R redisFilterTempKey redisFilterKey r3 = (e4, r4)" by fastforce
        have renamed: "if e4 = None then set_key redisFilterKey (active d) (db r4)
            else set_key redisFilterKey C (db r4) \<or> set_key redisFilterKey (active d) (db r4)"
          using rename_set [OF laws ren redis_set_keys] inv3 unfolding set_rebuilding_def by blast
        show ?thesis
        proof (cases e4)
          case (Some x)
          with run e1 e2 e3 del add list ren have "e = Some x" "r' = r4"
            by (auto split: option.splits prod.splits)
          with Some renamed less show ?thesis by auto
        next
          case None
          with run e1 e2 e3 del add list ren have "rd_SRem R redisFilterKey redisFilterMarker r4 = (e, r')"
            by (auto split: option.splits prod.splits)
          with None renamed srem_keeps [OF laws this] show ?thesis by simp
        qed
      qed
    qed
  qed
qed

end
