(* ===== verification/Short_Link_Repo.thy ===== *)
theory Short_Link_Repo
  imports Ports "HOL-Library.Product_Lexorder" "HOL-Library.Option_ord"
begin

text \<open>
  \<open>internal/infrastructure/mysql/model.go\<close> and \<open>short_link_repository.go\<close>: the store of links,
  sixteen tables of one shape behind gorm.

  The database is a parameter of the model (\<open>link_db\<close>): the gorm calls the repository makes, on
  the database's own state \<open>'d\<close>. A \<open>Where\<close> clause is a predicate on rows, with the comparison of
  two texts as the server makes it (\<open>db_text_eq\<close>, the collation of the column). \<open>db_laws\<close>
  states what the MySQL documentation says of these calls, over the rows \<open>tb d t\<close> of a table:
  keys are unique, a call that reports success has had its effect, and one that reports an error
  has had it or not. The clock and the context of a call are read from the state, too.
  \<open>ListActiveCodes\<close> and \<open>DeleteExpired\<close> loop over batches; their loops are partial functions, and
  that they return is a theorem. \<open>CreateBatch\<close> runs one transaction per shard concurrently; the
  order in which they take effect is an argument.
\<close>

section \<open>Records (model.go)\<close>

record ShortLinkRecord =
  sr_ID :: uint64
  sr_Code :: string
  sr_LongURL :: string
  sr_Domain :: string
  sr_ExpireAt :: "time option"
  sr_Status :: uint8
  sr_CreatedAt :: time
  sr_UpdatedAt :: time

definition shortLinkToRecord :: "ShortLink \<Rightarrow> ShortLinkRecord" where
  "shortLinkToRecord item =
     \<lparr>sr_ID = sl_ID item, sr_Code = sl_Code item, sr_LongURL = sl_LongURL item,
      sr_Domain = sl_Domain item, sr_ExpireAt = sl_ExpireAt item, sr_Status = sl_Status item,
      sr_CreatedAt = sl_CreatedAt item, sr_UpdatedAt = sl_UpdatedAt item\<rparr>"

definition recordToShortLink :: "ShortLinkRecord \<Rightarrow> ShortLink" where
  "recordToShortLink r =
     \<lparr>sl_ID = sr_ID r, sl_Code = sr_Code r, sl_LongURL = sr_LongURL r,
      sl_Domain = sr_Domain r, sl_ExpireAt = sr_ExpireAt r, sl_Status = sr_Status r,
      sl_CreatedAt = sr_CreatedAt r, sl_UpdatedAt = sr_UpdatedAt r\<rparr>"

section \<open>The database\<close>

datatype row_order = ById | ByExpireAt

record 'd link_db =
  db_text_eq :: "string \<Rightarrow> string \<Rightarrow> bool"
  db_insert :: "string \<Rightarrow> ShortLinkRecord \<Rightarrow> 'd \<Rightarrow> go_error option \<times> 'd"
  db_insert_batch :: "string \<Rightarrow> ShortLinkRecord list \<Rightarrow> 'd \<Rightarrow> go_error option \<times> 'd"
  db_first :: "string \<Rightarrow> (ShortLinkRecord \<Rightarrow> bool) \<Rightarrow> 'd \<Rightarrow> (go_error + ShortLinkRecord) \<times> 'd"
  db_find :: "string \<Rightarrow> (ShortLinkRecord \<Rightarrow> bool) \<Rightarrow> row_order \<Rightarrow> int \<Rightarrow> 'd \<Rightarrow>
    (go_error + ShortLinkRecord list) \<times> 'd"
  db_delete :: "string \<Rightarrow> (ShortLinkRecord \<Rightarrow> bool) \<Rightarrow> 'd \<Rightarrow> (go_error + int) \<times> 'd"
  db_now :: "'d \<Rightarrow> time \<times> 'd"
  db_ctx_Err :: "'d \<Rightarrow> go_error option \<times> 'd"

section \<open>The repository\<close>

definition Create :: "'d link_db \<Rightarrow> ShortLink \<Rightarrow> 'd \<Rightarrow> go_error option \<times> 'd" where
  "Create D item d =
     (case ValidateShortCode (sl_Code item) of
        Some e \<Rightarrow> (Some e, d)
      | None \<Rightarrow>
          (case ShardTableNameForCode (sl_Code item) of
             Inl e \<Rightarrow> (Some e, d)
           | Inr tableName \<Rightarrow> db_insert D tableName (shortLinkToRecord item) d))"

definition group_one ::
  "ShortLink \<Rightarrow> ShortLinkRecord list list \<Rightarrow> go_error + ShortLinkRecord list list" where
  "group_one item groups =
     (case ValidateShortCode (sl_Code item) of
        Some e \<Rightarrow> Inl e
      | None \<Rightarrow>
          (case ShardIndexFromCode (sl_Code item) of
             Inl e \<Rightarrow> Inl e
           | Inr shard \<Rightarrow>
               Inr (groups[nat shard := groups ! nat shard @ [shortLinkToRecord item]])))"

fun group_items ::
  "ShortLink list \<Rightarrow> ShortLinkRecord list list \<Rightarrow> go_error + ShortLinkRecord list list" where
  "group_items [] groups = Inr groups"
| "group_items (item # items) groups =
     (case group_one item groups of Inl e \<Rightarrow> Inl e | Inr groups' \<Rightarrow> group_items items groups')"

definition groupShortLinksByShard :: "ShortLink list \<Rightarrow> go_error + ShortLinkRecord list list" where
  "groupShortLinksByShard items = group_items items (replicate ShardCount [])"

text \<open>One goroutine of \<open>CreateBatch\<close>: the transaction of a shard.\<close>

definition insert_shard ::
  "'d link_db \<Rightarrow> nat \<Rightarrow> ShortLinkRecord list \<Rightarrow> 'd \<Rightarrow> go_error option \<times> 'd" where
  "insert_shard D shard records d =
     (case ShardTableName (int shard) of
        Inl e \<Rightarrow> (Some e, d)
      | Inr tableName \<Rightarrow> db_insert_batch D tableName records d)"

text \<open>The group's result is the error that came first; every goroutine is run.\<close>

fun insert_shards ::
  "'d link_db \<Rightarrow> ShortLinkRecord list list \<Rightarrow> nat list \<Rightarrow> 'd \<Rightarrow> go_error option \<times> 'd" where
  "insert_shards D groups [] d = (None, d)"
| "insert_shards D groups (shard # shards) d =
     (if groups ! shard = [] then insert_shards D groups shards d
      else (case insert_shard D shard (groups ! shard) d of
              (e, d1) \<Rightarrow>
                (case insert_shards D groups shards d1 of
                   (e', d2) \<Rightarrow> ((case e of None \<Rightarrow> e' | Some x \<Rightarrow> Some x), d2))))"

definition CreateBatch ::
  "'d link_db \<Rightarrow> nat list \<Rightarrow> ShortLink list \<Rightarrow> 'd \<Rightarrow> go_error option \<times> 'd" where
  "CreateBatch D order items d =
     (if items = [] then (None, d)
      else (case groupShortLinksByShard items of
              Inl e \<Rightarrow> (Some e, d)
            | Inr groups \<Rightarrow> insert_shards D groups order d))"

definition FindByCode :: "'d link_db \<Rightarrow> string \<Rightarrow> 'd \<Rightarrow> (go_error + ShortLink) \<times> 'd" where
  "FindByCode D code d =
     (case ValidateShortCode code of
        Some e \<Rightarrow> (Inl e, d)
      | None \<Rightarrow>
          (case ShardTableNameForCode code of
             Inl e \<Rightarrow> (Inl e, d)
           | Inr tableName \<Rightarrow>
               (case db_first D tableName (\<lambda>r. db_text_eq D (sr_Code r) code) d of
                  (Inl e, d1) \<Rightarrow>
                    ((if errors_Is e ErrRecordNotFound then Inl ErrNotFound else Inl e), d1)
                | (Inr record, d1) \<Rightarrow> (Inr (recordToShortLink record), d1))))"

definition FindActiveByCode :: "'d link_db \<Rightarrow> string \<Rightarrow> 'd \<Rightarrow> (go_error + ShortLink) \<times> 'd" where
  "FindActiveByCode D code d =
     (case FindByCode D code d of
        (Inl e, d1) \<Rightarrow> (Inl e, d1)
      | (Inr item, d1) \<Rightarrow>
          (case db_now D d1 of
             (now, d2) \<Rightarrow>
               (if IsExpired item now then (Inl ErrExpired, d2)
                else if sl_Status item \<noteq> ShortLinkStatusActive then (Inl ErrNotFound, d2)
                else (Inr item, d2))))"

text \<open>\<open>id > ? AND status = ? AND (expire_at IS NULL OR expire_at > ?)\<close>\<close>

definition active_after :: "uint64 \<Rightarrow> time \<Rightarrow> ShortLinkRecord \<Rightarrow> bool" where
  "active_after lastID now r \<longleftrightarrow>
     lastID < sr_ID r \<and> sr_Status r = ShortLinkStatusActive \<and>
     (case sr_ExpireAt r of None \<Rightarrow> True | Some x \<Rightarrow> now < x)"

partial_function (option) list_shard ::
  "'d link_db \<Rightarrow> string \<Rightarrow> time \<Rightarrow> int \<Rightarrow> 'h code_handler \<Rightarrow> uint64 \<Rightarrow> 'd \<times> 'h \<Rightarrow>
   (go_error option \<times> 'd \<times> 'h) option" where
  "list_shard D tableName now batchSize handle lastID dh =
     (case db_ctx_Err D (fst dh) of
        (Some e, d1) \<Rightarrow> Some (Some e, d1, snd dh)
      | (None, d1) \<Rightarrow>
     (case db_find D tableName (active_after lastID now) ById batchSize d1 of
        (Inl e, d2) \<Rightarrow> Some (Some e, d2, snd dh)
      | (Inr rows, d2) \<Rightarrow>
          (if rows = [] then Some (None, d2, snd dh)
           else (case handle (map sr_Code rows) (snd dh) of
                   (Some e, h1) \<Rightarrow> Some (Some e, d2, h1)
                 | (None, h1) \<Rightarrow>
                     (if int (length rows) < batchSize then Some (None, d2, h1)
                      else list_shard D tableName now batchSize handle (sr_ID (last rows)) (d2, h1))))))"

fun list_shards ::
  "'d link_db \<Rightarrow> time \<Rightarrow> int \<Rightarrow> 'h code_handler \<Rightarrow> nat list \<Rightarrow> 'd \<times> 'h \<Rightarrow>
   (go_error option \<times> 'd \<times> 'h) option" where
  "list_shards D now batchSize handle [] dh = Some (None, dh)"
| "list_shards D now batchSize handle (shard # shards) dh =
     (case ShardTableName (int shard) of
        Inl e \<Rightarrow> Some (Some e, dh)
      | Inr tableName \<Rightarrow>
          (case list_shard D tableName now batchSize handle 0 dh of
             None \<Rightarrow> None
           | Some (Some e, dh1) \<Rightarrow> Some (Some e, dh1)
           | Some (None, dh1) \<Rightarrow> list_shards D now batchSize handle shards dh1))"

definition ListActiveCodes ::
  "'d link_db \<Rightarrow> int \<Rightarrow> 'h code_handler \<Rightarrow> 'd \<times> 'h \<Rightarrow> (go_error option \<times> 'd \<times> 'h) option" where
  "ListActiveCodes D batchSize handle dh =
     (case db_now D (fst dh) of
        (now, d1) \<Rightarrow>
          list_shards D now (if batchSize \<le> 0 then 1000 else batchSize) handle [0..<ShardCount] (d1, snd dh))"

text \<open>\<open>expire_at IS NOT NULL AND expire_at <= ?\<close>, and the condition of the cursor when it is set.\<close>

definition expired_by :: "time \<Rightarrow> ShortLinkRecord \<Rightarrow> bool" where
  "expired_by before r \<longleftrightarrow> (case sr_ExpireAt r of None \<Rightarrow> False | Some x \<Rightarrow> x \<le> before)"

definition past_cursor :: "time \<Rightarrow> uint64 \<Rightarrow> ShortLinkRecord \<Rightarrow> bool" where
  "past_cursor cursorExpireAt cursorID r \<longleftrightarrow>
     time_is_zero cursorExpireAt \<or>
     (case sr_ExpireAt r of None \<Rightarrow> False
      | Some x \<Rightarrow> cursorExpireAt < x \<or> (x = cursorExpireAt \<and> cursorID < sr_ID r))"

text \<open>A NULL cannot be scanned into \<open>expiredCodeRow.ExpireAt\<close>; the clause excludes it.\<close>

definition row_expire_at :: "ShortLinkRecord \<Rightarrow> time" where
  "row_expire_at r = (case sr_ExpireAt r of None \<Rightarrow> zero_time | Some x \<Rightarrow> x)"

partial_function (option) delete_shard ::
  "'d link_db \<Rightarrow> string \<Rightarrow> time \<Rightarrow> int \<Rightarrow> 'h code_handler option \<Rightarrow> time \<Rightarrow> uint64 \<Rightarrow> int \<Rightarrow> 'd \<times> 'h \<Rightarrow>
   ((int \<times> go_error option) \<times> 'd \<times> 'h) option" where
  "delete_shard D tableName before batchSize handleCodes cursorExpireAt cursorID deleted dh =
     (case db_ctx_Err D (fst dh) of
        (Some e, d1) \<Rightarrow> Some ((deleted, Some e), d1, snd dh)
      | (None, d1) \<Rightarrow>
     (case db_find D tableName (\<lambda>r. expired_by before r \<and> past_cursor cursorExpireAt cursorID r)
             ByExpireAt batchSize d1 of
        (Inl e, d2) \<Rightarrow> Some ((deleted, Some e), d2, snd dh)
      | (Inr rows, d2) \<Rightarrow>
          (if rows = [] then Some ((deleted, None), d2, snd dh)
           else (case (case handleCodes of None \<Rightarrow> (None, snd dh)
                       | Some handle \<Rightarrow> handle (map sr_Code rows) (snd dh)) of
                   (Some e, h1) \<Rightarrow> Some ((deleted, Some e), d2, h1)
                 | (None, h1) \<Rightarrow>
                     (case db_delete D tableName (\<lambda>r. sr_ID r \<in> set (map sr_ID rows)) d2 of
                        (Inl e, d3) \<Rightarrow> Some ((deleted, Some e), d3, h1)
                      | (Inr affected, d3) \<Rightarrow>
                          (if int (length rows) < batchSize then Some ((deleted + affected, None), d3, h1)
                           else delete_shard D tableName before batchSize handleCodes
                                  (row_expire_at (last rows)) (sr_ID (last rows)) (deleted + affected) (d3, h1)))))))"

fun delete_shards ::
  "'d link_db \<Rightarrow> time \<Rightarrow> int \<Rightarrow> 'h code_handler option \<Rightarrow> nat list \<Rightarrow> int \<Rightarrow> 'd \<times> 'h \<Rightarrow>
   ((int \<times> go_error option) \<times> 'd \<times> 'h) option" where
  "delete_shards D before batchSize handleCodes [] deleted dh = Some ((deleted, None), dh)"
| "delete_shards D before batchSize handleCodes (shard # shards) deleted dh =
     (case ShardTableName (int shard) of
        Inl e \<Rightarrow> Some ((deleted, Some e), dh)
      | Inr tableName \<Rightarrow>
          (case delete_shard D tableName before batchSize handleCodes zero_time 0 deleted dh of
             None \<Rightarrow> None
           | Some ((deleted1, Some e), dh1) \<Rightarrow> Some ((deleted1, Some e), dh1)
           | Some ((deleted1, None), dh1) \<Rightarrow>
               delete_shards D before batchSize handleCodes shards deleted1 dh1))"

definition DeleteExpired ::
  "'d link_db \<Rightarrow> time \<Rightarrow> int \<Rightarrow> 'h code_handler option \<Rightarrow> 'd \<times> 'h \<Rightarrow>
   ((int \<times> go_error option) \<times> 'd \<times> 'h) option" where
  "DeleteExpired D before batchSize handleCodes dh =
     delete_shards D before (if batchSize \<le> 0 then 1000 else batchSize) handleCodes [0..<ShardCount] 0 dh"

definition DeleteExpiredCode :: "'d link_db \<Rightarrow> string \<Rightarrow> time \<Rightarrow> 'd \<Rightarrow> (go_error + bool) \<times> 'd" where
  "DeleteExpiredCode D code before d =
     (case ValidateShortCode code of
        Some e \<Rightarrow> (Inl e, d)
      | None \<Rightarrow>
          (case ShardTableNameForCode code of
             Inl e \<Rightarrow> (Inl e, d)
           | Inr tableName \<Rightarrow>
               (case db_delete D tableName
                       (\<lambda>r. db_text_eq D (sr_Code r) code \<and> expired_by before r) d of
                  (Inl e, d1) \<Rightarrow> (Inl e, d1)
                | (Inr affected, d1) \<Rightarrow> (Inr (affected > 0), d1))))"

section \<open>The laws of the database\<close>

text \<open>
  \<open>ORDER BY\<close>: the key of a row; NULL comes first. \<open>tb d t\<close> are the rows of the table \<open>t\<close>, \<open>ok d\<close>
  says that the server is in a legal state, and \<open>nf r\<close> is what a row holds after it was
  stored (\<open>DATETIME(3)\<close> rounds to milliseconds). The columns are \<open>utf8mb4\<close>: a row holds valid UTF-8,
  and the insertion of other bytes is an error.
\<close>

definition row_key :: "row_order \<Rightarrow> ShortLinkRecord \<Rightarrow> time option \<times> uint64" where
  "row_key ord r = (case ord of ById \<Rightarrow> (None, sr_ID r) | ByExpireAt \<Rightarrow> (sr_ExpireAt r, sr_ID r))"

definition utf8_record :: "ShortLinkRecord \<Rightarrow> bool" where
  "utf8_record r \<longleftrightarrow> utf8_valid (sr_Code r) \<and> utf8_valid (sr_LongURL r) \<and> utf8_valid (sr_Domain r)"

definition table_ok :: "'d link_db \<Rightarrow> ShortLinkRecord set \<Rightarrow> bool" where
  "table_ok D T \<longleftrightarrow> finite T \<and> (\<forall>r \<in> T. utf8_record r) \<and>
     (\<forall>r \<in> T. \<forall>r' \<in> T. sr_ID r = sr_ID r' \<or> db_text_eq D (sr_Code r) (sr_Code r') \<longrightarrow> r = r')"

definition stores_as :: "(ShortLinkRecord \<Rightarrow> ShortLinkRecord) \<Rightarrow> bool" where
  "stores_as nf \<longleftrightarrow>
     (\<forall>r. sr_ID (nf r) = sr_ID r \<and> sr_Code (nf r) = sr_Code r \<and> sr_LongURL (nf r) = sr_LongURL r \<and>
          sr_Domain (nf r) = sr_Domain r \<and> sr_Status (nf r) = sr_Status r \<and>
          (sr_ExpireAt (nf r) = None \<longleftrightarrow> sr_ExpireAt r = None))"

text \<open>The rows of a \<open>SELECT\<close> with \<open>ORDER BY\<close> and \<open>LIMIT\<close> over the matching rows \<open>S\<close>.\<close>

definition selected :: "row_order \<Rightarrow> int \<Rightarrow> ShortLinkRecord set \<Rightarrow> ShortLinkRecord list \<Rightarrow> bool" where
  "selected ord limit S rows \<longleftrightarrow>
     set rows \<subseteq> S \<and> sorted_wrt (\<lambda>x y. row_key ord x < row_key ord y) rows \<and>
     length rows = min (nat limit) (card S) \<and>
     (\<forall>x \<in> set rows. \<forall>y \<in> S - set rows. row_key ord x < row_key ord y)"

definition insert_law ::
  "(ShortLinkRecord \<Rightarrow> ShortLinkRecord) \<Rightarrow> ('d \<Rightarrow> string \<Rightarrow> ShortLinkRecord set) \<Rightarrow> ('d \<Rightarrow> bool) \<Rightarrow> 'd link_db \<Rightarrow> bool" where
  "insert_law nf tb ok D \<longleftrightarrow>
     (\<forall>t r d e d'. ok d \<longrightarrow> db_insert D t r d = (e, d') \<longrightarrow> ok d' \<and>
        ((tb d' = (tb d)(t := insert (nf r) (tb d t)) \<and>
          (\<forall>x \<in> tb d t. sr_ID x \<noteq> sr_ID r \<and> \<not> db_text_eq D (sr_Code x) (sr_Code r))) \<or>
         (e \<noteq> None \<and> tb d' = tb d))) \<and>
     (\<forall>t rs d e d'. ok d \<longrightarrow> db_insert_batch D t rs d = (e, d') \<longrightarrow> ok d' \<and>
        (tb d' = (tb d)(t := nf ` set rs \<union> tb d t) \<or> (e \<noteq> None \<and> tb d' = tb d)))"

definition query_law ::
  "('d \<Rightarrow> string \<Rightarrow> ShortLinkRecord set) \<Rightarrow> ('d \<Rightarrow> bool) \<Rightarrow> 'd link_db \<Rightarrow> bool" where
  "query_law tb ok D \<longleftrightarrow>
     (\<forall>t P d v d'. ok d \<longrightarrow> db_first D t P d = (v, d') \<longrightarrow> ok d' \<and> tb d' = tb d \<and>
        (\<forall>r. v = Inr r \<longrightarrow> r \<in> tb d t \<and> P r) \<and>
        (\<forall>e. v = Inl e \<longrightarrow> errors_Is e ErrRecordNotFound \<longrightarrow> (\<forall>r \<in> tb d t. \<not> P r))) \<and>
     (\<forall>t P ord n d v d'. ok d \<longrightarrow> db_find D t P ord n d = (v, d') \<longrightarrow> ok d' \<and> tb d' = tb d \<and>
        (\<forall>rows. v = Inr rows \<longrightarrow> selected ord n {r \<in> tb d t. P r} rows)) \<and>
     (\<forall>d x d'. ok d \<longrightarrow> db_now D d = (x, d') \<longrightarrow> ok d' \<and> tb d' = tb d) \<and>
     (\<forall>d x d'. ok d \<longrightarrow> db_ctx_Err D d = (x, d') \<longrightarrow> ok d' \<and> tb d' = tb d)"

definition delete_law ::
  "('d \<Rightarrow> string \<Rightarrow> ShortLinkRecord set) \<Rightarrow> ('d \<Rightarrow> bool) \<Rightarrow> 'd link_db \<Rightarrow> bool" where
  "delete_law tb ok D \<longleftrightarrow>
     (\<forall>t P d v d'. ok d \<longrightarrow> db_delete D t P d = (v, d') \<longrightarrow> ok d' \<and>
        (case v of
           Inr n \<Rightarrow> tb d' = (tb d)(t := {r \<in> tb d t. \<not> P r}) \<and> n = int (card {r \<in> tb d t. P r})
         | Inl e \<Rightarrow> tb d' = (tb d)(t := {r \<in> tb d t. \<not> P r}) \<or> tb d' = tb d))"

definition db_laws ::
  "(ShortLinkRecord \<Rightarrow> ShortLinkRecord) \<Rightarrow> ('d \<Rightarrow> string \<Rightarrow> ShortLinkRecord set) \<Rightarrow> ('d \<Rightarrow> bool) \<Rightarrow> 'd link_db \<Rightarrow> bool" where
  "db_laws nf tb ok D \<longleftrightarrow>
     stores_as nf \<and> equivp (db_text_eq D) \<and> (\<forall>d t. ok d \<longrightarrow> table_ok D (tb d t)) \<and>
     insert_law nf tb ok D \<and> query_law tb ok D \<and> delete_law tb ok D"

lemma db_lawsD:
  assumes "db_laws nf tb ok D"
  shows "stores_as nf" "equivp (db_text_eq D)" "ok d \<Longrightarrow> table_ok D (tb d t)"
    "insert_law nf tb ok D" "query_law tb ok D" "delete_law tb ok D"
  using assms by (simp_all add: db_laws_def)

lemma utf8_recordToShortLink [simp]: "utf8_link (recordToShortLink r) = utf8_record r"
  by (simp add: utf8_link_def utf8_record_def recordToShortLink_def)

lemma utf8_shortLinkToRecord [simp]: "utf8_record (shortLinkToRecord it) = utf8_link it"
  by (simp add: utf8_link_def utf8_record_def shortLinkToRecord_def)

text \<open>What is in a table is UTF-8, and so is what was stored there.\<close>

lemma stored_utf8:
  assumes "db_laws nf tb ok D" and "ok d" and "r \<in> tb d t"
  shows "utf8_record r" and "r = nf r' \<Longrightarrow> utf8_record r'"
proof -
  show "utf8_record r" using db_lawsD(3) [OF assms(1,2)] assms(3) by (auto simp: table_ok_def)
  then show "r = nf r' \<Longrightarrow> utf8_record r'"
    using db_lawsD(1) [OF assms(1)] by (simp add: utf8_record_def stores_as_def)
qed

lemma insert_done:
  assumes "db_laws nf tb ok D" and "ok d" and "db_insert D t r d = (e, d')"
  obtains (inserted) "ok d'" "tb d' = (tb d)(t := insert (nf r) (tb d t))"
      "\<And>x. x \<in> tb d t \<Longrightarrow> sr_ID x \<noteq> sr_ID r \<and> \<not> db_text_eq D (sr_Code x) (sr_Code r)"
    | (refused) "ok d'" "e \<noteq> None" "tb d' = tb d"
  using db_lawsD(4) [OF assms(1)] assms(2,3) unfolding insert_law_def by blast

lemma insert_batch_done:
  assumes "db_laws nf tb ok D" and "ok d" and "db_insert_batch D t rs d = (e, d')"
  shows "ok d'" and "tb d' = (tb d)(t := nf ` set rs \<union> tb d t) \<or> (e \<noteq> None \<and> tb d' = tb d)"
  using db_lawsD(4) [OF assms(1)] assms(2,3) unfolding insert_law_def by blast+

lemma first_done:
  assumes "db_laws nf tb ok D" and "ok d" and "db_first D t P d = (v, d')"
  shows "ok d'" and "tb d' = tb d" and "v = Inr r \<Longrightarrow> r \<in> tb d t \<and> P r"
    and "v = Inl e \<Longrightarrow> errors_Is e ErrRecordNotFound \<Longrightarrow> x \<in> tb d t \<Longrightarrow> \<not> P x"
  using db_lawsD(5) [OF assms(1), unfolded query_law_def, THEN conjunct1, rule_format, OF assms(2,3)]
  by simp_all

lemma find_done:
  assumes "db_laws nf tb ok D" and "ok d" and "db_find D t P ord n d = (v, d')"
  shows "ok d'" and "tb d' = tb d" and "v = Inr rows \<Longrightarrow> selected ord n {r \<in> tb d t. P r} rows"
  using db_lawsD(5) [OF assms(1), unfolded query_law_def, THEN conjunct2, THEN conjunct1, rule_format,
      OF assms(2,3)]
  by simp_all

lemma read_done:
  assumes "db_laws nf tb ok D" and "ok d"
  shows "db_now D d = (x, d') \<Longrightarrow> ok d' \<and> tb d' = tb d"
    and "db_ctx_Err D d = (y, d') \<Longrightarrow> ok d' \<and> tb d' = tb d"
  using db_lawsD(5) [OF assms(1)] assms(2) unfolding query_law_def by blast+

lemma delete_done:
  assumes "db_laws nf tb ok D" and "ok d" and "db_delete D t P d = (v, d')"
  shows "ok d'"
    and "v = Inr n \<Longrightarrow> tb d' = (tb d)(t := {r \<in> tb d t. \<not> P r}) \<and> n = int (card {r \<in> tb d t. P r})"
    and "v = Inl e \<Longrightarrow> tb d' = (tb d)(t := {r \<in> tb d t. \<not> P r}) \<or> tb d' = tb d"
proof -
  have "ok d' \<and> (case v of
      Inr n \<Rightarrow> tb d' = (tb d)(t := {r \<in> tb d t. \<not> P r}) \<and> n = int (card {r \<in> tb d t. P r})
    | Inl e \<Rightarrow> tb d' = (tb d)(t := {r \<in> tb d t. \<not> P r}) \<or> tb d' = tb d)"
    using db_lawsD(6) [OF assms(1), unfolded delete_law_def, rule_format, OF assms(2,3)] .
  then show "ok d'"
    and "v = Inr n \<Longrightarrow> tb d' = (tb d)(t := {r \<in> tb d t. \<not> P r}) \<and> n = int (card {r \<in> tb d t. P r})"
    and "v = Inl e \<Longrightarrow> tb d' = (tb d)(t := {r \<in> tb d t. \<not> P r}) \<or> tb d' = tb d"
    by simp_all
qed

text \<open>Paging: a page shorter than the limit is all there is, and a full page leaves the later rows.\<close>

lemma selected_short:
  assumes "selected ord n S rows" and "int (length rows) < n" and "finite S"
  shows "set rows = S"
proof -
  have "distinct rows"
    using assms(1) unfolding selected_def by (auto simp: distinct_conv_nth sorted_wrt_iff_nth_less)
      (metis less_irrefl linorder_neqE_nat)
  moreover have "length rows = card S" using assms(1,2) by (auto simp: selected_def)
  ultimately have "card (set rows) = card S" by (simp add: distinct_card)
  with assms(1,3) show ?thesis by (intro card_subset_eq) (auto simp: selected_def)
qed

lemma selected_rest:
  assumes "selected ord n S rows" and "rows \<noteq> []"
  shows "S - set rows = {r \<in> S. row_key ord (last rows) < row_key ord r}"
proof -
  have rows: "rows = butlast rows @ [last rows]" using assms(2) by simp
  have "\<not> row_key ord (last rows) < row_key ord x" if "x \<in> set rows" for x
  proof (cases "x = last rows")
    case False
    with that have "x \<in> set (butlast rows)" by (metis rotate1.simps(2) rows set_ConsD set_rotate1)
    moreover have "sorted_wrt (\<lambda>x y. row_key ord x < row_key ord y) (butlast rows @ [last rows])"
      using assms(1) rows by (simp add: selected_def)
    ultimately show ?thesis by (auto simp: sorted_wrt_append)
  qed simp
  moreover have "last rows \<in> set rows" using assms(2) by simp
  ultimately show ?thesis using assms(1) unfolding selected_def by blast
qed

lemma selected_last: "selected ord n S rows \<Longrightarrow> rows \<noteq> [] \<Longrightarrow> last rows \<in> S"
  unfolding selected_def using last_in_set by blast

lemma selected_subset: "selected ord n S rows \<Longrightarrow> set rows \<subseteq> S"
  by (simp add: selected_def)

lemma selected_empty: "selected ord n S [] \<Longrightarrow> 0 < n \<Longrightarrow> finite S \<Longrightarrow> S = {}"
  using selected_short [of ord n S "[]"] by simp

section \<open>Listing the active codes\<close>

lemma row_key_ById [simp]: "row_key ById x < row_key ById y \<longleftrightarrow> sr_ID x < sr_ID y"
  by (simp add: row_key_def)

text \<open>
  What a listing does to the states of the database and of the callback: the tables stay as they
  are, the callback gets batches, and without an error these are together the codes \<open>C\<close>.
\<close>

definition hands_over ::
  "('d \<Rightarrow> string \<Rightarrow> ShortLinkRecord set) \<Rightarrow> ('d \<Rightarrow> bool) \<Rightarrow> 'h code_handler \<Rightarrow> 'd \<times> 'h \<Rightarrow> string set \<Rightarrow>
   go_error option \<times> 'd \<times> 'h \<Rightarrow> bool" where
  "hands_over tb ok handle dh C res \<longleftrightarrow>
     ok (fst (snd res)) \<and> tb (fst (snd res)) = tb (fst dh) \<and>
     (\<exists>bs e'. run_batches handle bs (snd dh) = (e', snd (snd res)) \<and>
        (fst res = None \<longrightarrow> e' = None \<and> set (concat bs) = C))"

lemma hands_over_stop: "ok d' \<Longrightarrow> tb d' = tb d \<Longrightarrow> hands_over tb ok handle (d, s) C (Some x, d', s)"
  unfolding hands_over_def by (auto intro!: exI [of _ "[]"])

lemma hands_over_none: "ok d' \<Longrightarrow> tb d' = tb d \<Longrightarrow> hands_over tb ok handle (d, s) {} (None, d', s)"
  unfolding hands_over_def by (auto intro!: exI [of _ "[]"])

lemma hands_over_batch:
  "ok d' \<Longrightarrow> tb d' = tb d \<Longrightarrow> handle codes s = (e, s') \<Longrightarrow> hands_over tb ok handle (d, s) (set codes) (e, d', s')"
  unfolding hands_over_def by (auto intro!: exI [of _ "[codes]"] split: option.splits)

lemma hands_over_error: "hands_over tb ok handle dh C (Some x, d', s') \<Longrightarrow> hands_over tb ok handle dh C' (Some x, d', s')"
  by (simp add: hands_over_def)

lemma run_batches_append:
  "run_batches h (bs @ bs') s =
     (case run_batches h bs s of (Some e, s') \<Rightarrow> (Some e, s') | (None, s') \<Rightarrow> run_batches h bs' s')"
  by (induction bs arbitrary: s) (auto split: prod.splits option.splits)

lemma hands_over_seq:
  assumes "hands_over tb ok handle dh C1 (None, d1, s1)" and "hands_over tb ok handle (d1, s1) C2 res"
  shows "hands_over tb ok handle dh (C1 \<union> C2) res"
proof -
  obtain bs1 where 1: "run_batches handle bs1 (snd dh) = (None, s1)" "set (concat bs1) = C1" "tb d1 = tb (fst dh)"
    using assms(1) by (auto simp: hands_over_def)
  obtain bs2 e2 where 2: "run_batches handle bs2 s1 = (e2, snd (snd res))" "ok (fst (snd res))"
    "tb (fst (snd res)) = tb d1" "fst res = None \<longrightarrow> e2 = None \<and> set (concat bs2) = C2"
    using assms(2) by (auto simp: hands_over_def)
  have "run_batches handle (bs1 @ bs2) (snd dh) = (e2, snd (snd res))"
    using 1 2 by (simp add: run_batches_append)
  moreover have "fst res = None \<longrightarrow> e2 = None \<and> set (concat (bs1 @ bs2)) = C1 \<union> C2" using 1 2 by auto
  ultimately show ?thesis unfolding hands_over_def using 1(3) 2(2,3) by metis
qed

text \<open>The rest of a table after a full page.\<close>

lemma active_page_rest:
  assumes sel: "selected ById b {r \<in> T. active_after lastID now r} rows" and "rows \<noteq> []"
  shows "{r \<in> T. active_after (sr_ID (last rows)) now r} = {r \<in> T. active_after lastID now r} - set rows"
proof -
  have "last rows \<in> {r \<in> T. active_after lastID now r}"
    using selected_last [OF sel assms(2)] .
  then have "lastID < sr_ID (last rows)" by (simp add: active_after_def)
  then have "{r \<in> T. active_after (sr_ID (last rows)) now r} =
      {r \<in> {r \<in> T. active_after lastID now r}. row_key ById (last rows) < row_key ById r}"
    by (auto simp: active_after_def)
  with selected_rest [OF sel assms(2)] show ?thesis by simp
qed

text \<open>The listing of one table returns, whatever the database reports.\<close>

lemma list_shard_total:
  fixes D :: "'d link_db" and handle :: "'h code_handler"
  assumes laws: "db_laws nf tb ok D" and b: "0 < b"
  shows "ok d \<Longrightarrow> \<exists>res. list_shard D t now b handle lastID (d, s) = Some res \<and>
    hands_over tb ok handle (d, s) (sr_Code ` {r \<in> tb d t. active_after lastID now r}) res"
proof (induction "card {r \<in> tb d t. active_after lastID now r}" arbitrary: lastID d s rule: less_induct)
  case less
  let ?S = "{r \<in> tb d t. active_after lastID now r}"
  have fin: "finite ?S" using db_lawsD(3) [OF laws less.prems] by (simp add: table_ok_def)
  note unfold = list_shard.simps [of D t now b handle lastID "(d, s)"]
  obtain ce d1 where ctx: "db_ctx_Err D d = (ce, d1)" by fastforce
  note d1 = read_done(2) [OF laws less.prems ctx]
  obtain v d2 where find: "db_find D t (active_after lastID now) ById b d1 = (v, d2)" by fastforce
  note found = find_done [OF laws _ find]
  have d2: "ok d2" "tb d2 = tb d" using found d1 by auto
  show ?case
  proof (cases ce)
    case (Some x)
    with ctx unfold have "list_shard D t now b handle lastID (d, s) = Some (Some x, d1, s)" by simp
    moreover have "hands_over tb ok handle (d, s) (sr_Code ` ?S) (Some x, d1, s)"
      using d1 by (intro hands_over_stop) auto
    ultimately show ?thesis by simp
  next
    case ce: None
    show ?thesis
    proof (cases v)
      case (Inl x)
      with ce ctx find unfold have "list_shard D t now b handle lastID (d, s) = Some (Some x, d2, s)" by simp
      moreover have "hands_over tb ok handle (d, s) (sr_Code ` ?S) (Some x, d2, s)"
        using d2 by (intro hands_over_stop) auto
      ultimately show ?thesis by simp
    next
      case (Inr rows)
      have sel: "selected ById b ?S rows" using found(3) [OF _ Inr] d1 by simp
      show ?thesis
      proof (cases "rows = []")
        case True
        with sel b fin have none: "?S = {}" using selected_empty by blast
        have "list_shard D t now b handle lastID (d, s) = Some (None, d2, s)"
          using True Inr ce ctx find unfold by simp
        then show ?thesis
          unfolding none using hands_over_none [of ok d2 tb d handle s] d2 by simp
      next
        case False
        obtain he h1 where handle: "handle (map sr_Code rows) s = (he, h1)" by fastforce
        have batch: "hands_over tb ok handle (d, s) (sr_Code ` set rows) (he, d2, h1)"
          using hands_over_batch [of ok d2 tb d handle "map sr_Code rows" s he h1] d2 handle by simp
        show ?thesis
        proof (cases he)
          case (Some x)
          with batch have "hands_over tb ok handle (d, s) (sr_Code ` ?S) (Some x, d2, h1)" by (auto intro: hands_over_error)
          moreover have "list_shard D t now b handle lastID (d, s) = Some (Some x, d2, h1)"
            using Some False Inr ce ctx find unfold handle by simp
          ultimately show ?thesis by blast
        next
          case he: None
          show ?thesis
          proof (cases "int (length rows) < b")
            case True
            have "list_shard D t now b handle lastID (d, s) = Some (None, d2, h1)"
              using True False Inr ce ctx find unfold handle he by simp
            with batch he selected_short [OF sel True fin] show ?thesis by simp
          next
            case full: False
            let ?last = "sr_ID (last rows)"
            let ?S' = "{r \<in> tb d2 t. active_after ?last now r}"
            have S': "?S' = ?S - set rows" using active_page_rest [OF sel False] d2 by simp
            have "last rows \<in> ?S" "last rows \<in> set rows" using selected_last [OF sel False] False by simp_all
            then have "?S' \<subset> ?S" unfolding S' by blast
            then have "card ?S' < card ?S" by (rule psubset_card_mono [OF fin])
            from less.hyps [OF this d2(1), of h1] obtain res where
              rec: "list_shard D t now b handle ?last (d2, h1) = Some res"
              and post: "hands_over tb ok handle (d2, h1) (sr_Code ` ?S') res" by blast
            have "sr_Code ` set rows \<union> sr_Code ` ?S' = sr_Code ` ?S"
              unfolding S' using selected_subset [OF sel] by blast
            with hands_over_seq [OF batch [unfolded he] post] have "hands_over tb ok handle (d, s) (sr_Code ` ?S) res" by simp
            moreover have "list_shard D t now b handle lastID (d, s) = Some res"
              using rec False Inr ce ctx find unfold handle he full by simp
            ultimately show ?thesis by blast
          qed
        qed
      qed
    qed
  qed
qed

definition active_in :: "('d \<Rightarrow> string \<Rightarrow> ShortLinkRecord set) \<Rightarrow> time \<Rightarrow> 'd \<Rightarrow> nat list \<Rightarrow> string set" where
  "active_in tb now d shards = (\<Union>i \<in> set shards. sr_Code ` {r \<in> tb d (shard_tables ! i). active_after 0 now r})"

lemma list_shards_total:
  fixes D :: "'d link_db" and handle :: "'h code_handler"
  assumes laws: "db_laws nf tb ok D" and b: "0 < b"
  shows "ok d \<Longrightarrow> set shards \<subseteq> {..<16} \<Longrightarrow>
    \<exists>res. list_shards D now b handle shards (d, s) = Some res \<and>
      hands_over tb ok handle (d, s) (active_in tb now d shards) res"
proof (induction shards arbitrary: d s)
  case Nil
  then show ?case using hands_over_none [of ok d tb d] by (simp add: active_in_def)
next
  case (Cons i shards)
  have table: "ShardTableName (int i) = Inr (shard_tables ! i)"
    using Cons.prems ShardTableName_in_range [of "int i"] by simp
  let ?C = "sr_Code ` {r \<in> tb d (shard_tables ! i). active_after 0 now r}"
  from list_shard_total [OF laws b Cons.prems(1), of "shard_tables ! i" now handle 0 s]
  obtain e1 d1 s1 where one: "list_shard D (shard_tables ! i) now b handle 0 (d, s) = Some (e1, d1, s1)"
    and post1: "hands_over tb ok handle (d, s) ?C (e1, d1, s1)"
    by auto
  show ?case
  proof (cases e1)
    case (Some x)
    with one table have "list_shards D now b handle (i # shards) (d, s) = Some (Some x, d1, s1)" by simp
    with post1 Some show ?thesis by (auto intro: hands_over_error)
  next
    case None
    have d1: "ok d1" "tb d1 = tb d" using post1 by (simp_all add: hands_over_def)
    from Cons.IH [OF d1(1), of s1] Cons.prems(2) obtain res where
      rest: "list_shards D now b handle shards (d1, s1) = Some res"
      and post2: "hands_over tb ok handle (d1, s1) (active_in tb now d1 shards) res"
      by auto
    have "?C \<union> active_in tb now d1 shards = active_in tb now d (i # shards)"
      by (simp add: active_in_def d1)
    with hands_over_seq [OF post1 [unfolded None] post2]
    have "hands_over tb ok handle (d, s) (active_in tb now d (i # shards)) res" by simp
    moreover have "list_shards D now b handle (i # shards) (d, s) = Some res"
      using table one None rest by simp
    ultimately show ?thesis by blast
  qed
qed

text \<open>The codes of the rows that are active by the clock of the repository.\<close>

definition active_codes :: "('d \<Rightarrow> string \<Rightarrow> ShortLinkRecord set) \<Rightarrow> 'd link_db \<Rightarrow> 'd \<Rightarrow> string set" where
  "active_codes tb D d =
     {sr_Code r | r t. t \<in> set shard_tables \<and> r \<in> tb d t \<and> active_after 0 (fst (db_now D d)) r}"

lemma active_in_all: "active_in tb (fst (db_now D d)) d [0..<16] = active_codes tb D d"
proof -
  have "set shard_tables = (!) shard_tables ` {..<16}"
    using nth_image [of 16 shard_tables] by (simp add: atLeast0LessThan)
  then show ?thesis unfolding active_in_def active_codes_def by fastforce
qed

lemma ListActiveCodes_total:
  fixes D :: "'d link_db" and handle :: "'h code_handler"
  assumes laws: "db_laws nf tb ok D" and "ok d"
  shows "\<exists>res. ListActiveCodes D b handle (d, s) = Some res \<and> hands_over tb ok handle (d, s) (active_codes tb D d) res"
proof -
  obtain now d1 where now: "db_now D d = (now, d1)" by fastforce
  note d1 = read_done(1) [OF laws \<open>ok d\<close> now]
  let ?b = "if b \<le> 0 then 1000 else b"
  have b: "0 < ?b" by simp
  have "set [0..<16] \<subseteq> {..<16::nat}" by auto
  from list_shards_total [OF laws b conjunct1 [OF d1] this, of now handle s]
  obtain res where run: "list_shards D now ?b handle [0..<16] (d1, s) = Some res"
    and post: "hands_over tb ok handle (d1, s) (active_in tb now d1 [0..<16]) res" by blast
  have "active_in tb now d1 [0..<16] = active_codes tb D d"
    using active_in_all [of tb D d] now d1 by (simp add: active_in_def)
  with post d1 have "hands_over tb ok handle (d, s) (active_codes tb D d) res" by (simp add: hands_over_def)
  with run now show ?thesis by (simp add: ListActiveCodes_def ShardCount_def)
qed

interpretation repo_codes: code_source "ListActiveCodes D" "\<lambda>d. db_laws nf tb ok D \<and> ok d"
    "active_codes tb D"
  for D :: "'d link_db" and nf tb ok
proof (unfold_locales, goal_cases)
  case (1 d b h s e d' s')
  with ListActiveCodes_total [of nf tb ok D d b h s] have "hands_over tb ok h (d, s) (active_codes tb D d) (e, d', s')"
    by auto
  then show ?case by (auto simp: hands_over_def)
qed

section \<open>Deleting expired links\<close>

text \<open>
  From \<open>d\<close> to \<open>d'\<close> only expired rows went, and the code of every row that went was handed to the
  callback before.
\<close>

definition removes ::
  "('d \<Rightarrow> string \<Rightarrow> ShortLinkRecord set) \<Rightarrow> ('d \<Rightarrow> bool) \<Rightarrow> 'h code_handler \<Rightarrow> time \<Rightarrow> 'd \<times> 'h \<Rightarrow>
   go_error option \<Rightarrow> 'd \<times> 'h \<Rightarrow> bool" where
  "removes tb ok handle before dh e' dh' \<longleftrightarrow>
     ok (fst dh') \<and>
     (\<forall>t. tb (fst dh') t \<subseteq> tb (fst dh) t \<and> (\<forall>r \<in> tb (fst dh) t - tb (fst dh') t. expired_by before r)) \<and>
     (\<exists>bs. run_batches handle bs (snd dh) = (e', snd dh') \<and>
        (\<forall>t. sr_Code ` (tb (fst dh) t - tb (fst dh') t) \<subseteq> set (concat bs)))"

lemma removes_none: "ok d' \<Longrightarrow> tb d' = tb d \<Longrightarrow> removes tb ok handle before (d, s) None (d', s)"
  unfolding removes_def by (auto intro!: exI [of _ "[]"])

lemma removes_batch:
  assumes "ok d'" and "handle (map sr_Code rows) s = (e, s')"
    and "tb d' = tb d \<or> tb d' = (tb d)(t := tb d t - set rows)"
    and "\<forall>r \<in> set rows. expired_by before r"
  shows "removes tb ok handle before (d, s) e (d', s')"
  unfolding removes_def
proof (intro conjI)
  show "\<exists>bs. run_batches handle bs (snd (d, s)) = (e, snd (d', s')) \<and>
      (\<forall>t. sr_Code ` (tb (fst (d, s)) t - tb (fst (d', s')) t) \<subseteq> set (concat bs))"
    using assms(2,3) by (intro exI [of _ "[map sr_Code rows]"]) (auto split: option.splits if_splits)
qed (use assms in \<open>auto split: if_splits\<close>)

lemma removes_trans:
  assumes "removes tb ok handle before dh None dh1" and "removes tb ok handle before dh1 e' dh'"
  shows "removes tb ok handle before dh e' dh'"
  unfolding removes_def
proof (intro conjI allI)
  fix t
  have "tb (fst dh1) t \<subseteq> tb (fst dh) t" and sub: "tb (fst dh') t \<subseteq> tb (fst dh1) t"
    and 1: "\<forall>r \<in> tb (fst dh) t - tb (fst dh1) t. expired_by before r"
      "\<forall>r \<in> tb (fst dh1) t - tb (fst dh') t. expired_by before r"
    using assms by (simp_all add: removes_def)
  then show "tb (fst dh') t \<subseteq> tb (fst dh) t" by blast
  from 1 show "\<forall>r \<in> tb (fst dh) t - tb (fst dh') t. expired_by before r" by blast
next
  show "ok (fst dh')" using assms(2) by (simp add: removes_def)
next
  obtain bs1 where 1: "run_batches handle bs1 (snd dh) = (None, snd dh1)"
    "\<And>t. sr_Code ` (tb (fst dh) t - tb (fst dh1) t) \<subseteq> set (concat bs1)"
    using assms(1) by (auto simp: removes_def)
  obtain bs2 where 2: "run_batches handle bs2 (snd dh1) = (e', snd dh')"
    "\<And>t. sr_Code ` (tb (fst dh1) t - tb (fst dh') t) \<subseteq> set (concat bs2)"
    using assms(2) by (auto simp: removes_def)
  have run: "run_batches handle (bs1 @ bs2) (snd dh) = (e', snd dh')"
    using 1 2 by (simp add: run_batches_append)
  have codes: "sr_Code ` (tb (fst dh) t - tb (fst dh') t) \<subseteq> set (concat (bs1 @ bs2))" for t
  proof -
    have "tb (fst dh) t - tb (fst dh') t \<subseteq> (tb (fst dh) t - tb (fst dh1) t) \<union> (tb (fst dh1) t - tb (fst dh') t)"
      by blast
    with 1(2) [of t] 2(2) [of t] show ?thesis unfolding concat_append set_append by blast
  qed
  show "\<exists>bs. run_batches handle bs (snd dh) = (e', snd dh') \<and>
      (\<forall>t. sr_Code ` (tb (fst dh) t - tb (fst dh') t) \<subseteq> set (concat bs))"
    using run codes by (intro exI [of _ "bs1 @ bs2"] conjI allI)
qed

text \<open>The rows with the ids of some rows of a table are these rows.\<close>

lemma rows_by_id:
  assumes "table_ok D T" and "set rows \<subseteq> T"
  shows "{r \<in> T. sr_ID r \<in> set (map sr_ID rows)} = set rows"
proof
  show "{r \<in> T. sr_ID r \<in> set (map sr_ID rows)} \<subseteq> set rows"
  proof
    fix r
    assume r: "r \<in> {r \<in> T. sr_ID r \<in> set (map sr_ID rows)}"
    then obtain r' where "r' \<in> set rows" "sr_ID r = sr_ID r'" by auto
    with r assms show "r \<in> set rows" unfolding table_ok_def by (metis (no_types, lifting) mem_Collect_eq subsetD)
  qed
qed (use assms(2) in auto)

lemma distinct_selected: "selected ord n S rows \<Longrightarrow> distinct rows"
  unfolding selected_def by (auto simp: distinct_conv_nth sorted_wrt_iff_nth_less)
    (metis less_irrefl linorder_neqE_nat)

text \<open>What is left after a full page is past the new cursor.\<close>

lemma expired_page_rest:
  assumes sel: "selected ByExpireAt b X rows" and "rows \<noteq> []" and X: "\<forall>r \<in> X. expired_by before r"
    and r: "r \<in> X - set rows"
  shows "past_cursor (row_expire_at (last rows)) (sr_ID (last rows)) r"
proof -
  from selected_rest [OF sel assms(2)] r have less: "row_key ByExpireAt (last rows) < row_key ByExpireAt r"
    by blast
  obtain x y where "sr_ExpireAt (last rows) = Some x" "sr_ExpireAt r = Some y"
    using X r selected_last [OF sel assms(2)] by (metis DiffD1 expired_by_def option.case_eq_if option.exhaust_sel)
  with less show ?thesis by (auto simp: past_cursor_def row_expire_at_def row_key_def)
qed

definition the_handler :: "'h code_handler option \<Rightarrow> 'h code_handler" where
  "the_handler h = (case h of None \<Rightarrow> (\<lambda>_ s. (None, s)) | Some f \<Rightarrow> f)"

lemma the_handler_run:
  "(case h of None \<Rightarrow> (None, s) | Some f \<Rightarrow> f codes s) = the_handler h codes s"
  by (simp add: the_handler_def split: option.split)

lemma delete_shard_total:
  fixes D :: "'d link_db" and handle :: "'h code_handler option"
  assumes laws: "db_laws nf tb ok D" and b: "0 < b"
  shows "ok d \<Longrightarrow> (\<forall>r \<in> tb d t. expired_by before r \<longrightarrow> past_cursor c i r) \<Longrightarrow>
    \<exists>n e e' d' s'. delete_shard D t before b handle c i n0 (d, s) = Some ((n, e), d', s') \<and>
      removes tb ok (the_handler handle) before (d, s) e' (d', s') \<and> (\<forall>t'. t' \<noteq> t \<longrightarrow> tb d' t' = tb d t') \<and>
      (e = None \<longrightarrow> e' = None \<and> tb d' t = {r \<in> tb d t. \<not> expired_by before r} \<and>
        n = n0 + int (card {r \<in> tb d t. expired_by before r}))"
proof (induction "card {r \<in> tb d t. expired_by before r}" arbitrary: c i n0 d s rule: less_induct)
  case less
  let ?X = "{r \<in> tb d t. expired_by before r}"
  have tok: "table_ok D (tb d t)" using db_lawsD(3) [OF laws less.prems(1)] .
  then have fin: "finite ?X" by (simp add: table_ok_def)
  note unfold = delete_shard.simps [of D t before b handle c i n0 "(d, s)", unfolded the_handler_run]
  obtain ce d1 where ctx: "db_ctx_Err D d = (ce, d1)" by fastforce
  note d1 = read_done(2) [OF laws less.prems(1) ctx]
  obtain v d2 where find: "db_find D t (\<lambda>r. expired_by before r \<and> past_cursor c i r) ByExpireAt b d1 = (v, d2)"
    by fastforce
  note found = find_done [OF laws _ find]
  have d2: "ok d2" "tb d2 = tb d" using found d1 by auto
  have X: "{r \<in> tb d t. expired_by before r \<and> past_cursor c i r} = ?X" using less.prems(2) by blast
  show ?case
  proof (cases ce)
    case (Some x)
    with ctx unfold have "delete_shard D t before b handle c i n0 (d, s) = Some ((n0, Some x), d1, s)" by simp
    moreover have "removes tb ok (the_handler handle) before (d, s) None (d1, s)"
      using d1 by (intro removes_none) auto
    ultimately show ?thesis using d1 by auto
  next
    case ce: None
    show ?thesis
    proof (cases v)
      case (Inl x)
      with ce ctx find unfold have "delete_shard D t before b handle c i n0 (d, s) = Some ((n0, Some x), d2, s)" by simp
      moreover have "removes tb ok (the_handler handle) before (d, s) None (d2, s)"
        using d2 by (intro removes_none) auto
      ultimately show ?thesis using d2 by auto
    next
      case (Inr rows)
      have sel: "selected ByExpireAt b ?X rows" using found(3) [OF _ Inr] d1 X by simp
      show ?thesis
      proof (cases "rows = []")
        case True
        with sel b fin have none: "?X = {}" using selected_empty by blast
        then have "{r \<in> tb d t. \<not> expired_by before r} = tb d t" by blast
        moreover have "delete_shard D t before b handle c i n0 (d, s) = Some ((n0, None), d2, s)"
          using True Inr ce ctx find unfold by simp
        moreover have "removes tb ok (the_handler handle) before (d, s) None (d2, s)"
          using d2 by (intro removes_none) auto
        moreover have "card ?X = 0" using none by (simp only: card.empty)
        ultimately show ?thesis using d2 by auto
      next
        case False
        obtain he h1 where handle: "the_handler handle (map sr_Code rows) s = (he, h1)" by fastforce
        have exp: "\<forall>r \<in> set rows. expired_by before r" using selected_subset [OF sel] by blast
        show ?thesis
        proof (cases he)
          case (Some x)
          then have "delete_shard D t before b handle c i n0 (d, s) = Some ((n0, Some x), d2, h1)"
            using False Inr ce ctx find unfold handle by simp
          moreover have "removes tb ok (the_handler handle) before (d, s) he (d2, h1)"
            using d2 handle exp by (intro removes_batch [where rows = rows and t = t]) auto
          ultimately show ?thesis using d2 by auto
        next
          case he: None
          let ?P = "\<lambda>r. sr_ID r \<in> set (map sr_ID rows)"
          obtain w d3 where del: "db_delete D t ?P d2 = (w, d3)" by fastforce
          note deleted = delete_done [OF laws d2(1) del]
          have rows: "set rows \<subseteq> tb d t" using selected_subset [OF sel] by blast
          have gone: "{r \<in> tb d2 t. ?P r} = set rows" using rows_by_id [OF tok rows] d2 by simp
          then have kept: "{r \<in> tb d2 t. \<not> ?P r} = tb d t - set rows" unfolding d2 by blast
          have one: "removes tb ok (the_handler handle) before (d, s) None (d3, h1)"
            if "tb d3 = tb d \<or> tb d3 = (tb d)(t := tb d t - set rows)"
            using deleted(1) handle he exp that by (intro removes_batch [where rows = rows and t = t]) auto
          show ?thesis
          proof (cases w)
            case (Inl x)
            have tb3: "tb d3 = tb d \<or> tb d3 = (tb d)(t := tb d t - set rows)"
              using deleted(3) [OF Inl] kept d2 by auto
            have "delete_shard D t before b handle c i n0 (d, s) = Some ((n0, Some x), d3, h1)"
              using False Inr Inl ce ctx find unfold handle he del by simp
            with one [OF tb3] tb3 show ?thesis by auto
          next
            case del_ok: (Inr k)
            have tb3: "tb d3 = (tb d)(t := tb d t - set rows)" and k: "k = int (card (set rows))"
              using deleted(2) [OF del_ok] kept gone d2 by auto
            show ?thesis
            proof (cases "int (length rows) < b")
              case True
              have "set rows = ?X" using selected_short [OF sel True fin] .
              moreover from this have "tb d3 t = {r \<in> tb d t. \<not> expired_by before r}" using tb3 by auto
              moreover have "delete_shard D t before b handle c i n0 (d, s) = Some ((n0 + k, None), d3, h1)"
                using True False Inr ce ctx find unfold handle he del del_ok by simp
              ultimately show ?thesis using one tb3 k by auto
            next
              case full: False
              let ?c = "row_expire_at (last rows)" and ?i = "sr_ID (last rows)"
              have X': "{r \<in> tb d3 t. expired_by before r} = ?X - set rows" using tb3 by auto
              have "last rows \<in> ?X" "last rows \<in> set rows" using selected_last [OF sel False] False by simp_all
              then have "?X - set rows \<subset> ?X" by blast
              then have "card {r \<in> tb d3 t. expired_by before r} < card ?X"
                unfolding X' by (rule psubset_card_mono [OF fin])
              moreover have "\<forall>r \<in> tb d3 t. expired_by before r \<longrightarrow> past_cursor ?c ?i r"
                using expired_page_rest [OF sel False] X' by blast
              ultimately obtain n e e' d' s' where
                rec: "delete_shard D t before b handle ?c ?i (n0 + k) (d3, h1) = Some ((n, e), d', s')"
                and post: "removes tb ok (the_handler handle) before (d3, h1) e' (d', s')"
                  "\<forall>t'. t' \<noteq> t \<longrightarrow> tb d' t' = tb d3 t'"
                  "e = None \<Longrightarrow> e' = None \<and> tb d' t = {r \<in> tb d3 t. \<not> expired_by before r} \<and>
                    n = n0 + k + int (card {r \<in> tb d3 t. expired_by before r})"
                using less.hyps [of d3 ?c ?i "n0 + k" h1] deleted(1) by blast
              have "delete_shard D t before b handle c i n0 (d, s) = Some ((n, e), d', s')"
                using rec full False Inr ce ctx find unfold handle he del del_ok by simp
              moreover have "removes tb ok (the_handler handle) before (d, s) e' (d', s')"
                using removes_trans [OF one post(1)] tb3 by simp
              moreover have "\<forall>t'. t' \<noteq> t \<longrightarrow> tb d' t' = tb d t'" using post(2) tb3 by simp
              moreover have "tb d' t = {r \<in> tb d t. \<not> expired_by before r} \<and> n = n0 + int (card ?X)" if "e = None"
              proof -
                have "card ?X = card (set rows) + card (?X - set rows)"
                  using card_Diff_subset [of "set rows" ?X] card_mono [OF fin selected_subset [OF sel]]
                    selected_subset [OF sel] by simp
                with post(3) [OF that] exp tb3 k X' show ?thesis by auto
              qed
              ultimately show ?thesis using post(3) by blast
            qed
          qed
        qed
      qed
    qed
  qed
qed

definition expired_count :: "ShortLinkRecord set \<Rightarrow> time \<Rightarrow> int" where
  "expired_count T before = int (card {r \<in> T. expired_by before r})"

lemma delete_shards_total:
  fixes D :: "'d link_db" and handle :: "'h code_handler option"
  assumes laws: "db_laws nf tb ok D" and b: "0 < b"
  shows "ok d \<Longrightarrow> set shards \<subseteq> {..<16} \<Longrightarrow> distinct shards \<Longrightarrow>
    \<exists>n e e' d' s'. delete_shards D before b handle shards n0 (d, s) = Some ((n, e), d', s') \<and>
      removes tb ok (the_handler handle) before (d, s) e' (d', s') \<and>
      (\<forall>t. t \<notin> (!) shard_tables ` set shards \<longrightarrow> tb d' t = tb d t) \<and>
      (e = None \<longrightarrow> e' = None \<and>
        (\<forall>t \<in> (!) shard_tables ` set shards. tb d' t = {r \<in> tb d t. \<not> expired_by before r}) \<and>
        n = n0 + (\<Sum>i\<leftarrow>shards. expired_count (tb d (shard_tables ! i)) before))"
proof (induction shards arbitrary: d s n0)
  case Nil
  then show ?case using removes_none [of ok d tb d] by auto
next
  case (Cons i shards)
  let ?t = "shard_tables ! i"
  have table: "ShardTableName (int i) = Inr ?t"
    using Cons.prems ShardTableName_in_range [of "int i"] by simp
  have other: "shard_tables ! j \<noteq> ?t" if "j \<in> set shards" for j
    using that Cons.prems distinct_shard_tables nth_eq_iff_index_eq [of shard_tables j i] by auto
  have "\<forall>r \<in> tb d ?t. expired_by before r \<longrightarrow> past_cursor zero_time 0 r"
    by (simp add: past_cursor_def time_is_zero_def)
  from delete_shard_total [OF laws b Cons.prems(1) this, of handle n0 s]
  obtain n1 e1 e1' d1 s1 where one: "delete_shard D ?t before b handle zero_time 0 n0 (d, s) = Some ((n1, e1), d1, s1)"
    and rem1: "removes tb ok (the_handler handle) before (d, s) e1' (d1, s1)"
    and frame1: "\<And>t'. t' \<noteq> ?t \<Longrightarrow> tb d1 t' = tb d t'"
    and done1: "e1 = None \<Longrightarrow> e1' = None \<and> tb d1 ?t = {r \<in> tb d ?t. \<not> expired_by before r} \<and>
      n1 = n0 + expired_count (tb d ?t) before"
    unfolding expired_count_def by blast
  show ?case
  proof (cases e1)
    case (Some x)
    with one table have "delete_shards D before b handle (i # shards) n0 (d, s) = Some ((n1, Some x), d1, s1)"
      by simp
    with rem1 frame1 show ?thesis by auto
  next
    case None
    have "ok d1" using rem1 by (simp add: removes_def)
    moreover have "set shards \<subseteq> {..<16}" and "distinct shards" using Cons.prems by auto
    ultimately obtain n e e' d' s' where
      rest: "delete_shards D before b handle shards n1 (d1, s1) = Some ((n, e), d', s')"
      and rem2: "removes tb ok (the_handler handle) before (d1, s1) e' (d', s')"
      and frame2: "\<And>t. t \<notin> (!) shard_tables ` set shards \<Longrightarrow> tb d' t = tb d1 t"
      and done2: "e = None \<Longrightarrow> e' = None \<and>
        (\<forall>t \<in> (!) shard_tables ` set shards. tb d' t = {r \<in> tb d1 t. \<not> expired_by before r}) \<and>
        n = n1 + (\<Sum>i\<leftarrow>shards. expired_count (tb d1 (shard_tables ! i)) before)"
      using Cons.IH [of d1 n1 s1] by blast
    have "delete_shards D before b handle (i # shards) n0 (d, s) = Some ((n, e), d', s')"
      using table one None rest by simp
    moreover have "removes tb ok (the_handler handle) before (d, s) e' (d', s')"
      using removes_trans [of tb ok "the_handler handle"] rem1 done1 [OF None] rem2 by blast
    moreover have "tb d' t = tb d t" if "t \<notin> (!) shard_tables ` set (i # shards)" for t
      using frame1 [of t] frame2 [of t] that by simp
    moreover have "(\<Sum>i\<leftarrow>shards. expired_count (tb d1 (shard_tables ! i)) before) =
        (\<Sum>i\<leftarrow>shards. expired_count (tb d (shard_tables ! i)) before)"
      using frame1 other by (intro arg_cong [where f = sum_list] map_cong) auto
    moreover have "tb d' t = {r \<in> tb d t. \<not> expired_by before r}"
      if "e = None" "t \<in> (!) shard_tables ` set (i # shards)" for t
    proof (cases "t = ?t")
      case True
      then have "t \<notin> (!) shard_tables ` set shards" using other unfolding image_iff by metis
      with True frame2 done1 [OF None] show ?thesis by simp
    next
      case False
      with that have "t \<in> (!) shard_tables ` set shards" by auto
      from done2 [OF that(1), THEN conjunct2, THEN conjunct1, rule_format, OF this] frame1 [OF False]
      show ?thesis by simp
    qed
    ultimately show ?thesis using done1 [OF None] done2 by (auto simp: add.assoc)
  qed
qed

text \<open>The total of \<open>DeleteExpired\<close> when nothing fails.\<close>

definition expired_total :: "('d \<Rightarrow> string \<Rightarrow> ShortLinkRecord set) \<Rightarrow> time \<Rightarrow> 'd \<Rightarrow> int" where
  "expired_total tb before d = (\<Sum>t\<leftarrow>shard_tables. expired_count (tb d t) before)"

lemma DeleteExpired_total:
  fixes D :: "'d link_db" and handle :: "'h code_handler option"
  assumes laws: "db_laws nf tb ok D" and "ok d"
  shows "\<exists>n e e' d' s'. DeleteExpired D before b handle (d, s) = Some ((n, e), d', s') \<and>
    removes tb ok (the_handler handle) before (d, s) e' (d', s') \<and>
    (\<forall>t. t \<notin> set shard_tables \<longrightarrow> tb d' t = tb d t) \<and>
    (e = None \<longrightarrow> e' = None \<and>
      (\<forall>t \<in> set shard_tables. tb d' t = {r \<in> tb d t. \<not> expired_by before r}) \<and>
      n = expired_total tb before d)"
proof -
  have b: "0 < (if b \<le> 0 then 1000 else b)" by simp
  have shards: "set [0..<16] \<subseteq> {..<16::nat}" "distinct [0..<16::nat]" by auto
  have all: "(!) shard_tables ` set [0..<16] = set shard_tables"
    using nth_image [of 16 shard_tables] by (simp add: atLeast0LessThan)
  have "map ((!) shard_tables) [0..<16] = shard_tables"
    using map_nth [of shard_tables] by simp
  then have sum: "(\<Sum>i\<leftarrow>[0..<16]. expired_count (tb d (shard_tables ! i)) before) = expired_total tb before d"
    using map_map [of "\<lambda>t. expired_count (tb d t) before" "(!) shard_tables" "[0..<16]"]
    by (simp add: expired_total_def comp_def del: map_map upt_rec_numeral)
  show ?thesis
    using delete_shards_total [OF laws b assms(2) shards, of before handle 0 s]
    unfolding all sum DeleteExpired_def ShardCount_def add_0 .
qed

section \<open>Creating and finding links\<close>

text \<open>The shard of a link is that of its code.\<close>

definition item_shard :: "ShortLink \<Rightarrow> nat" where
  "item_shard item = (case IDFromShortCode (sl_Code item) of Inl e \<Rightarrow> 0 | Inr n \<Rightarrow> unat n mod 16)"

definition valid_item :: "ShortLink \<Rightarrow> bool" where
  "valid_item item \<longleftrightarrow> ValidateShortCode (sl_Code item) = None"

lemma item_shard_less: "item_shard item < 16"
  by (simp add: item_shard_def split: sum.split)

lemma valid_item_table:
  "valid_item item \<Longrightarrow> ShardTableNameForCode (sl_Code item) = Inr (shard_tables ! item_shard item)"
  using ShardTableNameForCode_valid by (auto simp: valid_item_def ValidateShortCode_None_iff item_shard_def)

lemma valid_item_index: "valid_item item \<Longrightarrow> ShardIndexFromCode (sl_Code item) = Inr (int (item_shard item))"
  by (auto simp: valid_item_def ValidateShortCode_None_iff item_shard_def ShardIndexFromCode_def
      ShardIndexFromID_eq)

lemma Create_valid: "valid_item item \<Longrightarrow>
  Create D item d = db_insert D (shard_tables ! item_shard item) (shortLinkToRecord item) d"
  using valid_item_table by (simp add: Create_def valid_item_def)

lemma Create_invalid: "\<not> valid_item item \<Longrightarrow> Create D item d = (Some ErrInvalidCode, d)"
  using ValidateShortCode_error by (auto simp: Create_def valid_item_def)

lemma group_items_result:
  "length groups = 16 \<Longrightarrow>
   group_items items groups =
     (if \<forall>item \<in> set items. valid_item item
      then Inr (map (\<lambda>i. groups ! i @ map shortLinkToRecord (filter (\<lambda>item. item_shard item = i) items)) [0..<16])
      else Inl ErrInvalidCode)"
proof (induction items arbitrary: groups)
  case Nil
  then show ?case using map_nth [of groups] by simp
next
  case (Cons item items)
  show ?case
  proof (cases "valid_item item")
    case False
    then show ?thesis
      using ValidateShortCode_error by (auto simp: group_one_def valid_item_def)
  next
    case True
    let ?groups = "groups[item_shard item := groups ! item_shard item @ [shortLinkToRecord item]]"
    have "group_one item groups = Inr ?groups"
      using True valid_item_index [OF True] by (simp add: group_one_def valid_item_def)
    moreover have "?groups ! i @ map shortLinkToRecord (filter (\<lambda>x. item_shard x = i) items) =
        groups ! i @ map shortLinkToRecord (filter (\<lambda>x. item_shard x = i) (item # items))" if "i < 16" for i
      using that Cons.prems by (auto simp: nth_list_update)
    ultimately show ?thesis using Cons.IH [of ?groups] Cons.prems True by (auto intro!: map_cong)
  qed
qed

definition shard_group :: "ShortLink list \<Rightarrow> nat \<Rightarrow> ShortLinkRecord list" where
  "shard_group items i = map shortLinkToRecord (filter (\<lambda>item. item_shard item = i) items)"

lemma groupShortLinksByShard_result:
  "groupShortLinksByShard items =
     (if \<forall>item \<in> set items. valid_item item then Inr (map (shard_group items) [0..<16]) else Inl ErrInvalidCode)"
proof -
  have "map (\<lambda>i. replicate 16 [] ! i @ shard_group items i) [0..<16] = map (shard_group items) [0..<16]"
    by (intro map_cong) auto
  then show ?thesis
    using group_items_result [of "replicate 16 []" items]
    by (simp add: groupShortLinksByShard_def ShardCount_def shard_group_def del: replicate.simps)
qed

text \<open>What the transactions of some shards put into a table.\<close>

definition batch_into ::
  "(ShortLinkRecord \<Rightarrow> ShortLinkRecord) \<Rightarrow> (nat \<Rightarrow> ShortLinkRecord list) \<Rightarrow> nat list \<Rightarrow> string \<Rightarrow> ShortLinkRecord set" where
  "batch_into nf G order t = (\<Union>i \<in> {i \<in> set order. shard_tables ! i = t}. nf ` set (G i))"

lemma batch_into_Cons:
  "batch_into nf G (i # order) t =
     (if shard_tables ! i = t then nf ` set (G i) else {}) \<union> batch_into nf G order t"
  by (auto simp: batch_into_def)

lemma insert_shards_result:
  assumes laws: "db_laws nf tb ok D"
  shows "ok d \<Longrightarrow> set order \<subseteq> {..<16} \<Longrightarrow> insert_shards D (map G [0..<16]) order d = (e, d') \<Longrightarrow>
    ok d' \<and> (\<forall>t. tb d t \<subseteq> tb d' t \<and> tb d' t \<subseteq> tb d t \<union> batch_into nf G order t) \<and>
    (e = None \<longrightarrow> (\<forall>t. batch_into nf G order t \<subseteq> tb d' t))"
proof (induction order arbitrary: d e)
  case Nil
  then show ?case by (auto simp: batch_into_def)
next
  case (Cons i order)
  have G: "map G [0..<16] ! i = G i" using Cons.prems(2) by simp
  show ?case
  proof (cases "G i = []")
    case True
    then have "batch_into nf G (i # order) t = batch_into nf G order t" for t
      by (simp add: batch_into_Cons)
    with True Cons.prems G Cons.IH [of d e] show ?thesis by simp
  next
    case False
    obtain e1 d1 where one: "db_insert_batch D (shard_tables ! i) (G i) d = (e1, d1)" by fastforce
    obtain e2 where rest: "insert_shards D (map G [0..<16]) order d1 = (e2, d')"
      and e: "e = (case e1 of None \<Rightarrow> e2 | Some x \<Rightarrow> Some x)"
      using Cons.prems(2,3) False G one ShardTableName_in_range [of "int i"]
      by (auto simp: insert_shard_def split: prod.splits)
    note ins = insert_batch_done [OF laws Cons.prems(1) one]
    have IH: "ok d'" "\<And>t. tb d1 t \<subseteq> tb d' t" "\<And>t. tb d' t \<subseteq> tb d1 t \<union> batch_into nf G order t"
      "e2 = None \<Longrightarrow> batch_into nf G order t \<subseteq> tb d' t" for t
      using Cons.IH [OF ins(1) _ rest] Cons.prems(2) by auto
    have one_in: "tb d t \<subseteq> tb d1 t" "tb d1 t \<subseteq> tb d t \<union> (if shard_tables ! i = t then nf ` set (G i) else {})"
      "e1 = None \<Longrightarrow> (if shard_tables ! i = t then nf ` set (G i) else {}) \<subseteq> tb d1 t" for t
      using ins(2) by (auto split: if_splits)
    have "tb d t \<subseteq> tb d' t" for t using one_in(1) IH(2) by blast
    moreover have "tb d' t \<subseteq> tb d t \<union> batch_into nf G (i # order) t" for t
      unfolding batch_into_Cons using one_in(2) [of t] IH(3) [of t] by blast
    moreover have "batch_into nf G (i # order) t \<subseteq> tb d' t" if "e = None" for t
    proof -
      from that e have "e1 = None" "e2 = None" by (auto split: option.splits)
      then show ?thesis unfolding batch_into_Cons using one_in(3) [of t] IH(2,4) [of t] by blast
    qed
    ultimately show ?thesis using IH(1) by blast
  qed
qed

end
