(* ===== verification/Short_Link_Mem.thy ===== *)
theory Short_Link_Mem
  imports Short_Link_Repo "HOL-Library.Multiset"
begin

text \<open>
  A concrete database for the repository of \<open>Short_Link_Repo\<close>, which satisfies the laws of
  \<open>db_laws\<close> for every collation, and the properties of the repository with the witnesses that
  run on it.
\<close>

section \<open>A database in memory\<close>

text \<open>A server that keeps its rows in lists and fails only when it must; \<open>eqv\<close> is the collation of the code column.\<close>

record mem_db =
  md_rows :: "string \<Rightarrow> ShortLinkRecord list"
  md_now :: time

definition conflicts :: "(string \<Rightarrow> string \<Rightarrow> bool) \<Rightarrow> ShortLinkRecord \<Rightarrow> ShortLinkRecord \<Rightarrow> bool" where
  "conflicts eqv x y \<longleftrightarrow> sr_ID x = sr_ID y \<or> eqv (sr_Code x) (sr_Code y)"

fun mem_insert_rows ::
  "(string \<Rightarrow> string \<Rightarrow> bool) \<Rightarrow> ShortLinkRecord list \<Rightarrow> ShortLinkRecord list \<Rightarrow> ShortLinkRecord list option" where
  "mem_insert_rows eqv [] rows = Some rows"
| "mem_insert_rows eqv (r # rs) rows =
     (if \<not> utf8_record r \<or> list_ex (\<lambda>x. conflicts eqv x r) rows then None else mem_insert_rows eqv rs (rows @ [r]))"

definition mem_insert ::
  "(string \<Rightarrow> string \<Rightarrow> bool) \<Rightarrow> string \<Rightarrow> ShortLinkRecord list \<Rightarrow> mem_db \<Rightarrow> go_error option \<times> mem_db" where
  "mem_insert eqv t rs d =
     (case mem_insert_rows eqv rs (md_rows d t) of
        None \<Rightarrow> (Some (Errorf ''Duplicate entry or incorrect string value''), d)
      | Some rows \<Rightarrow> (None, d\<lparr>md_rows := (md_rows d)(t := rows)\<rparr>))"

definition mem_link_db :: "(string \<Rightarrow> string \<Rightarrow> bool) \<Rightarrow> mem_db link_db" where
  "mem_link_db eqv = \<lparr>
     db_text_eq = eqv,
     db_insert = (\<lambda>t r. mem_insert eqv t [r]),
     db_insert_batch = mem_insert eqv,
     db_first = (\<lambda>t P d. (case find P (md_rows d t) of None \<Rightarrow> Inl ErrRecordNotFound | Some r \<Rightarrow> Inr r, d)),
     db_find = (\<lambda>t P ord n d. (Inr (take (nat n) (sort_key (row_key ord) (filter P (md_rows d t)))), d)),
     db_delete = (\<lambda>t P d. (Inr (int (length (filter P (md_rows d t)))),
        d\<lparr>md_rows := (md_rows d)(t := filter (\<lambda>r. \<not> P r) (md_rows d t))\<rparr>)),
     db_now = (\<lambda>d. (md_now d, d)),
     db_ctx_Err = (\<lambda>d. (None, d))\<rparr>"

definition mem_tb :: "mem_db \<Rightarrow> string \<Rightarrow> ShortLinkRecord set" where
  "mem_tb d t = set (md_rows d t)"

definition rows_ok :: "(string \<Rightarrow> string \<Rightarrow> bool) \<Rightarrow> ShortLinkRecord list \<Rightarrow> bool" where
  "rows_ok eqv rows \<longleftrightarrow> (\<forall>r \<in> set rows. utf8_record r) \<and> sorted_wrt (\<lambda>x y. \<not> conflicts eqv x y) rows"

definition mem_ok :: "(string \<Rightarrow> string \<Rightarrow> bool) \<Rightarrow> mem_db \<Rightarrow> bool" where
  "mem_ok eqv d \<longleftrightarrow> (\<forall>t. rows_ok eqv (md_rows d t))"

lemma conflicts_sym: "equivp eqv \<Longrightarrow> conflicts eqv x y \<Longrightarrow> conflicts eqv y x"
  by (auto simp: conflicts_def equivp_symp)

lemma rows_ok_unique: "equivp eqv \<Longrightarrow> rows_ok eqv rows \<Longrightarrow> x \<in> set rows \<Longrightarrow> y \<in> set rows \<Longrightarrow> conflicts eqv x y \<Longrightarrow> x = y"
  unfolding rows_ok_def by (induction rows) (auto dest: conflicts_sym)

lemma rows_ok_distinct: "rows_ok eqv rows \<Longrightarrow> distinct (map sr_ID rows)"
  unfolding rows_ok_def by (induction rows) (auto simp: conflicts_def)

lemma rows_ok_filter: "rows_ok eqv rows \<Longrightarrow> rows_ok eqv (filter P rows)"
  by (simp add: rows_ok_def sorted_wrt_filter)

lemma mem_insert_rows_ok:
  "mem_insert_rows eqv rs rows = Some rows' \<Longrightarrow> rows_ok eqv rows \<Longrightarrow> rows_ok eqv rows' \<and> set rows' = set rs \<union> set rows"
proof (induction eqv rs rows rule: mem_insert_rows.induct)
  case (2 eqv r rs rows)
  then have "utf8_record r" "\<not> list_ex (\<lambda>x. conflicts eqv x r) rows" by (auto split: if_splits)
  with 2 have "rows_ok eqv (rows @ [r])" by (auto simp: rows_ok_def sorted_wrt_append list_ex_iff)
  with 2 show ?case by (auto split: if_splits)
qed simp

lemma sort_rows_less:
  assumes "distinct (map sr_ID rows)"
  shows "sorted_wrt (\<lambda>x y. row_key ord x < row_key ord y) (sort_key (row_key ord) rows)"
proof -
  let ?l = "sort_key (row_key ord) rows"
  have "mset (map sr_ID ?l) = mset (map sr_ID rows)" by simp
  then have "distinct (map sr_ID ?l)" using assms by (metis mset_eq_imp_distinct_iff)
  then have "distinct (map (row_key ord) ?l)"
    by (auto simp: distinct_map inj_on_def row_key_def split: row_order.splits)
  moreover have "sorted (map (row_key ord) ?l)" by simp
  ultimately have "sorted_wrt (<) (map (row_key ord) ?l)" by (simp add: strict_sorted_iff)
  then show ?thesis by (simp add: sorted_wrt_map)
qed

lemma mem_selected:
  assumes "distinct (map sr_ID rows)"
  shows "selected ord n (set rows) (take (nat n) (sort_key (row_key ord) rows))"
proof -
  let ?l = "sort_key (row_key ord) rows"
  have l: "?l = take (nat n) ?l @ drop (nat n) ?l" by simp
  have "sorted_wrt (\<lambda>x y. row_key ord x < row_key ord y) (take (nat n) ?l @ drop (nat n) ?l)"
    using sort_rows_less [OF assms, of ord] by simp
  note parts = this [unfolded sorted_wrt_append]
  have rows: "set rows = set (take (nat n) ?l) \<union> set (drop (nat n) ?l)"
    using arg_cong [OF l, of set] by (simp only: set_append set_sort)
  have "length rows = card (set rows)" using assms by (simp add: distinct_card distinct_map)
  then have "length (take (nat n) ?l) = min (nat n) (card (set rows))" by (simp add: min.commute)
  moreover have "\<forall>x \<in> set (take (nat n) ?l). \<forall>y \<in> set rows - set (take (nat n) ?l). row_key ord x < row_key ord y"
    using parts unfolding rows by blast
  moreover have "set (take (nat n) ?l) \<subseteq> set rows" unfolding rows by blast
  ultimately show ?thesis unfolding selected_def using parts by blast
qed

lemma mem_db_laws:
  assumes eqv: "equivp eqv"
  shows "db_laws (\<lambda>r. r) mem_tb (mem_ok eqv) (mem_link_db eqv)"
proof -
  have table: "table_ok (mem_link_db eqv) (mem_tb d t)" if "mem_ok eqv d" for d t
    using that rows_ok_unique [OF eqv]
    by (auto simp: table_ok_def mem_tb_def mem_ok_def mem_link_db_def conflicts_def) (auto simp: rows_ok_def)
  have ins: "insert_law (\<lambda>r. r) mem_tb (mem_ok eqv) (mem_link_db eqv)"
    unfolding insert_law_def mem_link_db_def mem_insert_def
    by (auto simp: mem_tb_def mem_ok_def fun_eq_iff list_ex_iff conflicts_def rows_ok_def sorted_wrt_append
        split: option.splits if_splits dest: mem_insert_rows_ok [unfolded rows_ok_def])
  have page: "selected ord n {r \<in> set (md_rows d t). P r} (take (nat n) (sort_key (row_key ord) (filter P (md_rows d t))))"
    if "mem_ok eqv d" for ord n P d t
  proof -
    have "distinct (map sr_ID (md_rows d t))" using that rows_ok_distinct unfolding mem_ok_def by blast
    then have "distinct (map sr_ID (filter P (md_rows d t)))" by (rule distinct_map_filter)
    then show ?thesis using mem_selected [of "filter P (md_rows d t)"] by simp
  qed
  have query: "query_law mem_tb (mem_ok eqv) (mem_link_db eqv)"
    unfolding query_law_def mem_link_db_def
    using page
    by (auto simp: mem_tb_def mem_ok_def find_None_iff split: option.splits dest!: find_SomeD)
  have gone: "length (filter P (md_rows d t)) = card {r \<in> set (md_rows d t). P r}"
    if "\<forall>t. rows_ok eqv (md_rows d t)" for d t P
  proof -
    have "distinct (map sr_ID (md_rows d t))" using that rows_ok_distinct by blast
    then have "distinct (md_rows d t)" by (simp add: distinct_map)
    then show ?thesis by (simp add: distinct_length_filter) (metis Int_def inf_commute mem_Collect_eq Collect_mem_eq Collect_conj_eq)
  qed
  have del: "delete_law mem_tb (mem_ok eqv) (mem_link_db eqv)"
    unfolding delete_law_def mem_link_db_def
    using gone by (auto simp: mem_tb_def mem_ok_def fun_eq_iff rows_ok_filter)
  show ?thesis
    using eqv table ins query del by (simp add: db_laws_def stores_as_def mem_link_db_def)
qed

section \<open>Finding\<close>

lemma text_eq_refl: "db_laws nf tb ok D \<Longrightarrow> db_text_eq D x x"
  using db_lawsD(2) equivp_reflp by metis

text \<open>A row of a legal table that carries an equal code is the row.\<close>

lemma unique_code:
  assumes "db_laws nf tb ok D" and "ok d" and "r \<in> tb d t" and "r' \<in> tb d t"
    and "db_text_eq D (sr_Code r) (sr_Code r')"
  shows "r = r'"
  using db_lawsD(3) [OF assms(1,2), of t] assms(3-5) unfolding table_ok_def by blast

lemma FindByCode_valid:
  assumes "db_laws nf tb ok D" and "ok d" and "IDFromShortCode code = Inr n"
    and "FindByCode D code d = (v, d')"
  shows "ok d' \<and> tb d' = tb d \<and>
    (\<forall>it. v = Inr it \<longrightarrow> (\<exists>r \<in> tb d (shard_tables ! (unat n mod 16)).
      db_text_eq D (sr_Code r) code \<and> it = recordToShortLink r))"
proof -
  let ?t = "shard_tables ! (unat n mod 16)"
  have valid: "ValidateShortCode code = None" using assms(3) ValidateShortCode_None_iff by blast
  obtain w d1 where first: "db_first D ?t (\<lambda>r. db_text_eq D (sr_Code r) code) d = (w, d1)" by fastforce
  note found = first_done [OF assms(1,2) first]
  show ?thesis
    using assms(4) valid ShardTableNameForCode_valid [OF assms(3)] first found
    by (cases w) (auto simp: FindByCode_def split: if_splits)
qed

lemma FindByCode_NotFound:
  assumes "db_laws nf tb ok D" and "ok d" and "IDFromShortCode code = Inr n"
    and "fst (db_first D (shard_tables ! (unat n mod 16)) (\<lambda>r. db_text_eq D (sr_Code r) code) d) = Inl ErrRecordNotFound"
  shows "fst (FindByCode D code d) = Inl ErrNotFound \<and>
    (\<forall>r \<in> tb d (shard_tables ! (unat n mod 16)). \<not> db_text_eq D (sr_Code r) code)"
proof -
  have valid: "ValidateShortCode code = None" using assms(3) ValidateShortCode_None_iff by blast
  obtain d1 where first: "db_first D (shard_tables ! (unat n mod 16)) (\<lambda>r. db_text_eq D (sr_Code r) code) d =
      (Inl ErrRecordNotFound, d1)" using assms(4) by (metis prod.collapse)
  show ?thesis
    using first_done(4) [OF assms(1,2) first] valid ShardTableNameForCode_valid [OF assms(3)] first
    by (auto simp: FindByCode_def)
qed

lemma FindActiveByCode_result:
  assumes "db_laws nf tb ok D" and "ok d" and "FindActiveByCode D code d = (v, d')"
  shows "ok d' \<or> d' = d" and "tb d' = tb d"
    and "v = Inr it \<Longrightarrow> \<exists>n r d1. IDFromShortCode code = Inr n \<and> r \<in> tb d (shard_tables ! (unat n mod 16)) \<and>
      db_text_eq D (sr_Code r) code \<and> it = recordToShortLink r \<and> IsActive it (fst (db_now D d1))"
proof -
  obtain w d1 where find: "FindByCode D code d = (w, d1)" by fastforce
  obtain now d2 where now: "db_now D d1 = (now, d2)" by fastforce
  have "(ok d' \<or> d' = d) \<and> tb d' = tb d \<and> (v = Inr it \<longrightarrow>
    (\<exists>n r d1. IDFromShortCode code = Inr n \<and> r \<in> tb d (shard_tables ! (unat n mod 16)) \<and>
      db_text_eq D (sr_Code r) code \<and> it = recordToShortLink r \<and> IsActive it (fst (db_now D d1))))"
  proof (cases "IDFromShortCode code")
    case (Inl e)
    then have "ValidateShortCode code = Some e" by (simp add: ValidateShortCode_def)
    with assms(3) show ?thesis by (auto simp: FindActiveByCode_def FindByCode_def)
  next
    case (Inr n)
    note found = FindByCode_valid [OF assms(1,2) Inr find]
    note read = read_done(1) [OF assms(1) conjunct1 [OF found] now]
    show ?thesis
    proof (cases w)
      case (Inl e)
      with assms(3) find found show ?thesis by (auto simp: FindActiveByCode_def)
    next
      case w: (Inr item)
      with found obtain r where r: "r \<in> tb d (shard_tables ! (unat n mod 16))" "db_text_eq D (sr_Code r) code"
        "item = recordToShortLink r" by blast
      have "v = Inr it \<Longrightarrow> it = item \<and> IsActive item now" and "d' = d2"
        using assms(3) find now w by (auto simp: FindActiveByCode_def IsActive_def split: if_splits)
      with read found r now Inr show ?thesis by auto (metis fst_conv)
    qed
  qed
  then show "ok d' \<or> d' = d" and "tb d' = tb d"
    and "v = Inr it \<Longrightarrow> \<exists>n r d1. IDFromShortCode code = Inr n \<and> r \<in> tb d (shard_tables ! (unat n mod 16)) \<and>
      db_text_eq D (sr_Code r) code \<and> it = recordToShortLink r \<and> IsActive it (fst (db_now D d1))"
    by blast+
qed

section \<open>Samples\<close>

text \<open>The server with a case-sensitive and with a case-insensitive code column, both empty at first.\<close>

definition lower :: "char \<Rightarrow> char" where
  "lower c = (if 65 \<le> (of_char c :: nat) \<and> (of_char c :: nat) \<le> 90 then char_of (of_char c + 32 :: nat) else c)"

definition ci_eq :: "string \<Rightarrow> string \<Rightarrow> bool" where
  "ci_eq s t \<longleftrightarrow> map lower s = map lower t"

lemma equivp_ci_eq: "equivp ci_eq"
  by (rule equivpI) (auto simp: ci_eq_def reflp_def symp_def transp_def)

definition text_db :: "mem_db link_db" where
  "text_db = mem_link_db (=)"

definition ci_db :: "mem_db link_db" where
  "ci_db = mem_link_db ci_eq"

definition empty_db :: mem_db where
  "empty_db = \<lparr>md_rows = (\<lambda>_. []), md_now = 1000\<rparr>"

definition link_with_id :: "uint64 \<Rightarrow> ShortLink" where
  "link_with_id n = zero_ShortLink\<lparr>sl_ID := n, sl_Code := NewShortCode n, sl_Status := ShortLinkStatusActive\<rparr>"

lemmas text_db_laws = mem_db_laws [OF identity_equivp, folded text_db_def]

lemmas ci_db_laws = mem_db_laws [OF equivp_ci_eq, folded ci_db_def]

lemma empty_db_ok [simp]: "mem_ok eqv empty_db"
  by (simp add: mem_ok_def empty_db_def rows_ok_def)

definition sample_db :: mem_db where
  "sample_db = snd (Create text_db (link_with_id 7) empty_db)"

lemma utf8_NewShortCode [simp]: "utf8_valid (NewShortCode n)"
proof (rule utf8_valid_ascii)
  fix c assume "c \<in> set (NewShortCode n)"
  then have "is_digit62 c" using EncodeBase62_digits [of n] by (simp add: NewShortCode_def list_all_iff)
  then have "c \<in> set base62Alphabet" using digit62_less nth_digit62 length_alphabet by (metis nth_mem)
  then show "(of_char c :: nat) < 128" by (auto simp: base62Alphabet_def)
qed

lemma utf8_link_with_id [simp]: "utf8_link (link_with_id n)"
  by (simp add: utf8_link_def link_with_id_def zero_ShortLink_def)

lemma create_in_empty: "fst (Create (mem_link_db eqv) (link_with_id n) empty_db) = None"
proof -
  have "valid_item (link_with_id n)" by (simp add: valid_item_def link_with_id_def)
  then show ?thesis
    by (simp add: Create_valid mem_link_db_def mem_insert_def empty_db_def)
qed

lemma create_sample: "Create text_db (link_with_id 7) empty_db = (None, sample_db)"
  using create_in_empty [of "(=)" 7] unfolding sample_db_def text_db_def by (metis prod.collapse)

lemma Create_ok:
  assumes "db_laws nf tb ok D" and "ok d" and "valid_item item" and "Create D item d = (e, d')"
  shows "ok d'"
  using insert_done [OF assms(1,2)] assms(3,4) Create_valid by metis

lemma sample_db_ok [simp]: "mem_ok (=) sample_db"
  by (rule Create_ok [OF text_db_laws empty_db_ok _ create_sample])
    (simp add: valid_item_def link_with_id_def)

section \<open>Properties\<close>



text \<open>What is answered for a row that was found, at the time \<open>now\<close>.\<close>

definition active_answer :: "time \<Rightarrow> ShortLinkRecord \<Rightarrow> go_error + ShortLink" where
  "active_answer now r =
     (if expired_by now r then Inl ErrExpired
      else if sr_Status r \<noteq> ShortLinkStatusActive then Inl ErrNotFound
      else Inr (recordToShortLink r))"

lemma IsExpired_record: "IsExpired (recordToShortLink r) now \<longleftrightarrow> expired_by now r"
  by (auto simp: IsExpired_iff expired_by_def recordToShortLink_def split: option.splits)

text \<open>
  C20 (error). The answer of \<open>FindActiveByCode\<close> in every case. An invalid code is \<open>ErrInvalidCode\<close> and the
  database is not touched. If the table of the code has a row with an equal code, the answer is
  \<open>ErrExpired\<close> when the row has expired by the clock, whatever its status, else \<open>ErrNotFound\<close> when it is
  not active, else its link; if there is no such row it is \<open>ErrNotFound\<close>; in both cases the query may
  fail instead, and then the answer is its error unchanged. No lookup changes a table.
\<close>

theorem find_active_spec:
  assumes "db_laws nf tb ok D" and "ok d" and "FindActiveByCode D code d = (v, d')"
  shows "tb d' = tb d \<and>
    (case IDFromShortCode code of
       Inl e \<Rightarrow> v = Inl ErrInvalidCode \<and> d' = d
     | Inr n \<Rightarrow>
         let t = shard_tables ! (unat n mod 16);
             query = db_first D t (\<lambda>r. db_text_eq D (sr_Code r) code) d;
             failed = (\<exists>e. fst query = Inl e \<and> \<not> errors_Is e ErrRecordNotFound \<and> v = Inl e)
         in (\<forall>r \<in> tb d t. db_text_eq D (sr_Code r) code \<longrightarrow>
              v = active_answer (fst (db_now D (snd query))) r \<or> failed) \<and>
            ((\<forall>r \<in> tb d t. \<not> db_text_eq D (sr_Code r) code) \<longrightarrow> v = Inl ErrNotFound \<or> failed))"
proof (cases "IDFromShortCode code")
  case (Inl e)
  then have "ValidateShortCode code \<noteq> None" by (simp add: ValidateShortCode_def)
  then obtain e' where "ValidateShortCode code = Some e'" by blast
  with ValidateShortCode_error [OF this] assms(3) Inl show ?thesis
    by (simp add: FindActiveByCode_def FindByCode_def)
next
  case (Inr n)
  let ?t = "shard_tables ! (unat n mod 16)" and ?P = "\<lambda>r. db_text_eq D (sr_Code r) code"
  obtain w d1 where first: "db_first D ?t ?P d = (w, d1)" by fastforce
  note found = first_done [OF assms(1,2) first]
  have valid: "ValidateShortCode code = None" using Inr by (simp add: ValidateShortCode_def)
  note run = assms(3) [unfolded FindActiveByCode_def FindByCode_def]
  have tb: "tb d' = tb d" by (rule FindActiveByCode_result(2) [OF assms])
  show ?thesis
  proof (cases w)
    case (Inl e)
    then have v: "v = Inl (if errors_Is e ErrRecordNotFound then ErrNotFound else e)"
      using run valid ShardTableNameForCode_valid [OF Inr] first by (auto split: if_splits)
    with Inl first found(4) [OF Inl] Inr tb show ?thesis by (auto simp: Let_def)
  next
    case (Inr r)
    then have v: "v = active_answer (fst (db_now D d1)) r"
      using run valid ShardTableNameForCode_valid [OF \<open>IDFromShortCode code = Inr n\<close>] first
      by (auto simp: active_answer_def IsExpired_record split: if_splits prod.splits)
        (auto simp: recordToShortLink_def)
    have here: "r \<in> tb d ?t" "?P r" using found(3) [OF Inr] by simp_all
    have only: "x = r" if "x \<in> tb d ?t" "?P x" for x
    proof -
      have "db_text_eq D (sr_Code x) (sr_Code r)"
        using that(2) here(2) db_lawsD(2) [OF assms(1)] by (metis equivp_symp equivp_transp)
      from unique_code [OF assms(1,2) that(1) here(1) this] show ?thesis .
    qed
    have "\<forall>x \<in> tb d ?t. ?P x \<longrightarrow> v = active_answer (fst (db_now D (snd (db_first D ?t ?P d)))) x"
      using only v unfolding first by auto
    with here tb \<open>IDFromShortCode code = Inr n\<close> show ?thesis unfolding Let_def by auto
  qed
qed

lemma find_active_spec_witness:
  "fst (FindActiveByCode text_db [] sample_db) = Inl ErrInvalidCode \<and>
   fst (FindActiveByCode text_db (NewShortCode 23) empty_db) = Inl ErrNotFound"
proof -
  have "TrimSpace [] = []" by (rule TrimSpace_graphic) simp
  then obtain e where none: "IDFromShortCode [] = Inl e"
    by (simp add: IDFromShortCode_def DecodeBase62_def)
  have id: "IDFromShortCode (NewShortCode 23) = Inr 23" by simp
  obtain v1 d1 where one: "FindActiveByCode text_db [] sample_db = (v1, d1)" by fastforce
  obtain v2 d2 where two: "FindActiveByCode text_db (NewShortCode 23) empty_db = (v2, d2)" by fastforce
  have rows: "mem_tb empty_db t = {}" for t by (simp add: mem_tb_def empty_db_def)
  have query: "fst (db_first text_db t P empty_db) = Inl ErrRecordNotFound" for t P
    by (simp add: text_db_def mem_link_db_def empty_db_def)
  show ?thesis
    using find_active_spec [OF text_db_laws sample_db_ok one] find_active_spec [OF text_db_laws empty_db_ok two]
    unfolding none id one two by (simp add: rows query Let_def)
qed

text \<open>
  C21 (termination). Listing the active codes returns, whatever the database reports and whatever
  the callback does, and changes no table; without an error the batches handed to the callback
  are together exactly the codes of the active, unexpired rows of all sixteen tables.
\<close>

theorem list_active_codes_total:
  assumes "db_laws nf tb ok D" and "ok d"
  shows "\<exists>e d' s' bs e'. ListActiveCodes D b handle (d, s) = Some (e, d', s') \<and> tb d' = tb d \<and>
    run_batches handle bs s = (e', s') \<and>
    (e = None \<longrightarrow> e' = None \<and> set (concat bs) = active_codes tb D d)"
proof -
  obtain e d' s' where run: "ListActiveCodes D b handle (d, s) = Some (e, d', s')"
    and post: "hands_over tb ok handle (d, s) (active_codes tb D d) (e, d', s')"
    using ListActiveCodes_total [OF assms, of b handle s] by (metis prod.collapse)
  from post run show ?thesis unfolding hands_over_def by auto
qed

lemma list_active_codes_total_witness:
  "\<exists>e d' s' bs e'. ListActiveCodes text_db 10 (\<lambda>codes s. (None, s @ codes)) (sample_db, []) = Some (e, d', s') \<and>
    mem_tb d' = mem_tb sample_db \<and> run_batches (\<lambda>codes s. (None, s @ codes)) bs [] = (e', s') \<and>
    (e = None \<longrightarrow> e' = None \<and> set (concat bs) = active_codes mem_tb text_db sample_db)"
  by (rule list_active_codes_total [OF text_db_laws sample_db_ok])



lemma CreateBatch_result:
  assumes "db_laws nf tb ok D" and "ok d" and "set order = {..<16}"
    and "CreateBatch D order items d = (e, d')"
  shows "ok d' \<and> (if \<forall>item \<in> set items. ValidateShortCode (sl_Code item) = None
      then (\<forall>t. tb d t \<subseteq> tb d' t \<and>
          tb d' t \<subseteq> tb d t \<union> {nf (shortLinkToRecord item) | item. item \<in> set items \<and> shard_tables ! item_shard item = t}) \<and>
        (e = None \<longrightarrow> (\<forall>item \<in> set items. nf (shortLinkToRecord item) \<in> tb d' (shard_tables ! item_shard item)))
      else e = Some ErrInvalidCode \<and> d' = d)"
proof (cases "\<forall>item \<in> set items. valid_item item")
  case False
  with assms(2,4) show ?thesis
    by (auto simp: CreateBatch_def groupShortLinksByShard_result valid_item_def split: if_splits)
next
  case True
  have into: "batch_into nf (shard_group items) order t =
      {nf (shortLinkToRecord item) | item. item \<in> set items \<and> shard_tables ! item_shard item = t}" for t
    using item_shard_less assms(3) by (fastforce simp: batch_into_def shard_group_def)
  show ?thesis
  proof (cases "items = []")
    case True
    with assms(2,4) show ?thesis by (simp add: CreateBatch_def)
  next
    case False
    with assms(4) True have "insert_shards D (map (shard_group items) [0..<16]) order d = (e, d')"
      by (simp add: CreateBatch_def groupShortLinksByShard_result)
    from insert_shards_result [OF assms(1,2) _ this] assms(3) True show ?thesis
      unfolding into valid_item_def by auto blast
  qed
qed

text \<open>
  C23 (equivalence). Creating a batch does what creating its links one by one would: with every
  shard's transaction run, in whatever order, each link is in the table of its code and nothing
  else has changed; a batch with an invalid code is refused as a whole.
\<close>

theorem create_batch_spec:
  assumes "db_laws nf tb ok D" and "ok d" and "set order = {..<16}"
    and "CreateBatch D order items d = (e, d')"
  shows "(if \<forall>item \<in> set items. ValidateShortCode (sl_Code item) = None
      then (\<forall>t. tb d t \<subseteq> tb d' t \<and>
          tb d' t \<subseteq> tb d t \<union> {nf (shortLinkToRecord item) | item. item \<in> set items \<and> shard_tables ! item_shard item = t}) \<and>
        (e = None \<longrightarrow> (\<forall>item \<in> set items. nf (shortLinkToRecord item) \<in> tb d' (shard_tables ! item_shard item)))
      else e = Some ErrInvalidCode \<and> d' = d)"
  using CreateBatch_result [OF assms] by (rule conjunct2)

lemma create_batch_spec_witness:
  "\<exists>e d'. CreateBatch text_db [0..<16] [link_with_id 7, link_with_id 23] empty_db = (e, d') \<and>
    (e = None \<longrightarrow> shortLinkToRecord (link_with_id 7) \<in> mem_tb d' (shard_tables ! item_shard (link_with_id 7)))"
proof -
  obtain e d' where run: "CreateBatch text_db [0..<16] [link_with_id 7, link_with_id 23] empty_db = (e, d')"
    by fastforce
  have "set [0..<16] = {..<16 :: nat}" by (simp add: atLeast_upt)
  with create_batch_spec [OF text_db_laws empty_db_ok _ run] run show ?thesis
    by (simp add: link_with_id_def)
qed

text \<open>
  The cleanup of one expired code never touches a link that has not expired: it
  removes the rows of the code's table with an equal code that have expired by the given time, and
  reports whether there were any; other tables stay as they are.
\<close>

lemma delete_expired_code_spec:
  assumes "db_laws nf tb ok D" and "ok d" and "DeleteExpiredCode D code before d = (v, d')"
  shows "(case IDFromShortCode code of
      Inl e \<Rightarrow> v = Inl ErrInvalidCode \<and> d' = d
    | Inr n \<Rightarrow>
        let t = shard_tables ! (unat n mod 16);
            gone = {r \<in> tb d t. db_text_eq D (sr_Code r) code \<and> expired_by before r}
        in (case v of Inr b \<Rightarrow> tb d' = (tb d)(t := tb d t - gone) \<and> b = (gone \<noteq> {})
                    | Inl e \<Rightarrow> tb d' = (tb d)(t := tb d t - gone) \<or> tb d' = tb d))"
proof (cases "IDFromShortCode code")
  case (Inl e)
  then have "ValidateShortCode code = Some e" by (simp add: ValidateShortCode_def)
  with assms(3) Inl ValidateShortCode_error show ?thesis by (auto simp: DeleteExpiredCode_def)
next
  case (Inr n)
  let ?t = "shard_tables ! (unat n mod 16)"
  let ?P = "\<lambda>r. db_text_eq D (sr_Code r) code \<and> expired_by before r"
  let ?gone = "{r \<in> tb d ?t. ?P r}"
  have valid: "ValidateShortCode code = None" using Inr by (simp add: ValidateShortCode_def)
  obtain w d1 where del: "db_delete D ?t ?P d = (w, d1)" by fastforce
  note deleted = delete_done [OF assms(1,2) del]
  have fin: "finite ?gone"
    using db_lawsD(3) [OF assms(1,2), of ?t] unfolding table_ok_def by simp
  have set: "{r \<in> tb d ?t. \<not> ?P r} = tb d ?t - ?gone" by blast
  have some: "0 < int (card ?gone) \<longleftrightarrow> ?gone \<noteq> {}"
    by (subst of_nat_0_less_iff) (rule trans [OF card_gt_0_iff], simp only: fin simp_thms)
  have branch: "case v of Inr b \<Rightarrow> tb d' = (tb d)(?t := tb d ?t - ?gone) \<and> b = (?gone \<noteq> {})
      | Inl e \<Rightarrow> tb d' = (tb d)(?t := tb d ?t - ?gone) \<or> tb d' = tb d"
  proof (cases w)
    case w: (Inl e)
    have v: "v = Inl e" "d' = d1"
      using assms(3) valid ShardTableNameForCode_valid [OF Inr] del w by (simp_all add: DeleteExpiredCode_def)
    from deleted(3) [OF w] show ?thesis unfolding set v by (simp only: sum.case)
  next
    case w: (Inr k)
    have v: "v = Inr (0 < k)" "d' = d1"
      using assms(3) valid ShardTableNameForCode_valid [OF Inr] del w by (simp_all add: DeleteExpiredCode_def)
    from deleted(2) [OF w] some show ?thesis unfolding set v by (simp only: sum.case simp_thms)
  qed
  then show ?thesis unfolding Inr Let_def by (simp only: sum.case)
qed

lemma delete_expired_code_spec_witness:
  "\<exists>v d'. DeleteExpiredCode text_db (NewShortCode 7) 2000 sample_db = (v, d') \<and>
    (\<forall>r \<in> mem_tb sample_db (shard_tables ! 7). r \<notin> mem_tb d' (shard_tables ! 7) \<longrightarrow> expired_by 2000 r)"
proof -
  obtain v d' where run: "DeleteExpiredCode text_db (NewShortCode 7) 2000 sample_db = (v, d')" by fastforce
  show ?thesis
    using delete_expired_code_spec [OF text_db_laws sample_db_ok run] run
    by (cases v) (auto simp: unat_numeral Let_def split: if_splits)
qed

section \<open>The collation of the code column\<close>

text \<open>
  The migrations give the column \<open>code\<close> the collation \<open>utf8mb4_0900_ai_ci\<close>, which does not
  distinguish the case of ASCII letters.
\<close>

lemma sample_codes: "NewShortCode 2383280 = ''A000''" "NewShortCode 8579808 = ''a000''"
  by (simp_all add: NewShortCode_def EncodeBase62_def encode_loop.simps base62Alphabet_def)

text \<open>
  C24 (safety). Base-62 codes are case-sensitive, the collation of the migrations is not. With a
  database that compares codes without case, any two links whose codes differ in case only and have
  the same shard exclude each other: once the first is stored, creating the second always fails and
  changes nothing, and looking up the second link's code answers with the first link, unless the query
  itself fails.
\<close>

theorem collation_conflict:
  assumes "db_laws nf tb ok D" and "db_text_eq D = ci_eq" and "ok d"
    and "sl_Code a \<noteq> sl_Code b" and "map lower (sl_Code a) = map lower (sl_Code b)"
    and "ValidateShortCode (sl_Code b) = None" and "ShardIndexFromCode (sl_Code a) = ShardIndexFromCode (sl_Code b)"
    and "Create D a d = (None, d1)" and "Create D b d1 = (e, d2)" and "FindByCode D (sl_Code b) d1 = (v, d3)"
  shows "e \<noteq> None \<and> tb d2 = tb d1 \<and> sl_Code (recordToShortLink (nf (shortLinkToRecord a))) \<noteq> sl_Code b \<and>
    (v = Inr (recordToShortLink (nf (shortLinkToRecord a))) \<or>
     (\<exists>err. v = Inl err \<and> \<not> errors_Is err ErrRecordNotFound \<and>
       fst (db_first D (shard_tables ! item_shard b) (\<lambda>r. db_text_eq D (sr_Code r) (sl_Code b)) d1) = Inl err))"
proof -
  let ?t = "shard_tables ! item_shard b" and ?r = "nf (shortLinkToRecord a)"
  let ?P = "\<lambda>r. db_text_eq D (sr_Code r) (sl_Code b)"
  have "valid_item a" using assms(8) Create_invalid [of a D d] by (cases "valid_item a") simp_all
  then have valid: "valid_item a" "valid_item b" using assms(6) by (simp_all add: valid_item_def)
  have shard: "item_shard a = item_shard b"
    using assms(7) valid_item_index [OF valid(1)] valid_item_index [OF valid(2)] by simp
  have ins: "db_insert D ?t (shortLinkToRecord a) d = (None, d1)" "db_insert D ?t (shortLinkToRecord b) d1 = (e, d2)"
    using assms(8,9) Create_valid [OF valid(1), of D d] Create_valid [OF valid(2), of D d1] shard by simp_all
  have d1: "ok d1" "tb d1 = (tb d)(?t := insert ?r (tb d ?t))"
    by (rule insert_done [OF assms(1,3) ins(1)]; simp)+
  have code: "sr_Code ?r = sl_Code a"
    using db_lawsD(1) [OF assms(1)] by (simp add: stores_as_def shortLinkToRecord_def)
  have eq: "db_text_eq D (sl_Code a) (sl_Code b)" using assms(5) by (simp add: assms(2) ci_eq_def)
  have here: "?r \<in> tb d1 ?t" using d1(2) by simp
  have taken: "db_text_eq D (sr_Code ?r) (sr_Code (shortLinkToRecord b))"
    using eq by (simp add: code) (simp add: shortLinkToRecord_def)
  have second: "e \<noteq> None \<and> tb d2 = tb d1"
  proof (rule insert_done [OF assms(1) d1(1) ins(2)])
    assume "\<And>x. x \<in> tb d1 ?t \<Longrightarrow> sr_ID x \<noteq> sr_ID (shortLinkToRecord b) \<and>
      \<not> db_text_eq D (sr_Code x) (sr_Code (shortLinkToRecord b))"
    from this [OF here] taken show ?thesis by blast
  qed simp
  obtain n where n: "IDFromShortCode (sl_Code b) = Inr n" using assms(6) ValidateShortCode_None_iff by blast
  have t: "?t = shard_tables ! (unat n mod 16)" by (simp add: item_shard_def n)
  obtain w d4 where first: "db_first D ?t ?P d1 = (w, d4)" by fastforce
  note found = first_done [OF assms(1) d1(1) first]
  have table: "ShardTableNameForCode (sl_Code b) = Inr ?t" by (rule valid_item_table [OF valid(2)])
  have "v = Inr (recordToShortLink ?r) \<or>
      (\<exists>err. v = Inl err \<and> \<not> errors_Is err ErrRecordNotFound \<and> fst (db_first D ?t ?P d1) = Inl err)"
  proof (cases w)
    case (Inl err)
    have "\<not> errors_Is err ErrRecordNotFound" using found(4) [OF Inl _ here] eq code by auto
    with Inl assms(6,10) table first show ?thesis by (auto simp: FindByCode_def)
  next
    case (Inr r)
    then have r: "r \<in> tb d1 ?t" "?P r" using found(3) by blast+
    have "db_text_eq D (sr_Code r) (sr_Code ?r)"
      using r(2) eq unfolding code assms(2) ci_eq_def by simp
    from unique_code [OF assms(1) d1(1) r(1) here this] have "r = ?r" .
    with Inr assms(6,10) table first show ?thesis by (auto simp: FindByCode_def)
  qed
  with second assms(4) code show ?thesis by (simp add: recordToShortLink_def)
qed

lemma collation_conflict_witness:
  "\<exists>d1 e d2. Create ci_db (link_with_id 2383280) empty_db = (None, d1) \<and>
    Create ci_db (link_with_id 8579808) d1 = (e, d2) \<and> e \<noteq> None \<and>
    fst (FindByCode ci_db ''a000'' d1) = Inr (link_with_id 2383280) \<and> sl_Code (link_with_id 2383280) = ''A000''"
proof -
  let ?a = "link_with_id 2383280" and ?b = "link_with_id 8579808"
  obtain d1 where first: "Create ci_db ?a empty_db = (None, d1)"
    using create_in_empty [of ci_eq 2383280] unfolding ci_db_def by (metis prod.collapse)
  obtain e d2 where second: "Create ci_db ?b d1 = (e, d2)" by fastforce
  have codes: "sl_Code ?a = ''A000''" "sl_Code ?b = ''a000''" by (simp_all add: link_with_id_def sample_codes)
  obtain v d3 where found: "FindByCode ci_db (sl_Code ?b) d1 = (v, d3)" by fastforce
  have coll: "db_text_eq ci_db = ci_eq" by (simp add: ci_db_def mem_link_db_def)
  have "char_of (97 :: nat) = CHR ''a''" by code_simp
  then have lower: "map lower (sl_Code ?a) = map lower (sl_Code ?b)" unfolding codes by (simp add: lower_def)
  have valid: "valid_item ?a" "valid_item ?b" by (simp_all add: valid_item_def link_with_id_def)
  have "item_shard ?a = item_shard ?b" by (simp add: item_shard_def link_with_id_def unat_numeral)
  with valid_item_index [OF valid(1)] valid_item_index [OF valid(2)]
  have shard: "ShardIndexFromCode (sl_Code ?a) = ShardIndexFromCode (sl_Code ?b)" by simp
  have b: "ValidateShortCode (sl_Code ?b) = None" using valid(2) by (simp add: valid_item_def)
  have ne: "sl_Code ?a \<noteq> sl_Code ?b" unfolding codes by simp
  have same: "recordToShortLink (shortLinkToRecord it) = it" for it
    by (simp add: recordToShortLink_def shortLinkToRecord_def)
  have memory: "fst (db_first ci_db t P d) \<in> insert (Inl ErrRecordNotFound) (range Inr)" for t P d
    by (auto simp: ci_db_def mem_link_db_def split: option.splits)
  note conflict = collation_conflict [OF ci_db_laws coll empty_db_ok ne lower b shard first second found, unfolded same]
  have "\<not> (\<exists>err. v = Inl err \<and> \<not> errors_Is err ErrRecordNotFound \<and> fst (db_first ci_db t P d1) = Inl err)" for t P
    using memory [of t P d1] by auto
  with conflict have "e \<noteq> None" "v = Inr ?a" by blast+
  with first second found codes show ?thesis by auto
qed

end
