(* ===== verification/Lazy_Cleaner.thy ===== *)
theory Lazy_Cleaner
  imports Short_Link_Mem
begin

text \<open>
  \<open>internal/app/linkapp/lazy_cleaner.go\<close>: expired codes met by \<open>Resolve\<close> are put on a bounded
  queue, and one goroutine deletes them from the database. \<open>'d\<close> is the state of the repository;
  its method is called under a context with the cleaner's timeout, which is its first argument.
  The goroutine and its callers are a step relation; the history of accepted and of finished items
  is kept beside the state to state what the queue guarantees.
\<close>

section \<open>The cleaner\<close>

type_synonym 'd code_deleter = "string \<Rightarrow> time \<Rightarrow> 'd \<Rightarrow> (go_error + bool) \<times> 'd"

record lazyExpiredItem =
  le_code :: string
  le_before :: time

record 'd LazyExpiredCleanerOptions =
  lo_Repository :: "(duration \<Rightarrow> 'd code_deleter) option"
  lo_QueueSize :: int
  lo_Timeout :: duration

record 'd LazyExpiredCleaner =
  lz_repo :: "(duration \<Rightarrow> 'd code_deleter) option"
  lz_queue :: "lazyExpiredItem chan"
  lz_timeout :: duration

definition defaultLazyCleanerQueueSize :: int where "defaultLazyCleanerQueueSize = 4096"
definition defaultLazyCleanerTimeout :: duration where "defaultLazyCleanerTimeout = 500 * millisecond"

definition NewLazyExpiredCleaner :: "'d LazyExpiredCleanerOptions \<Rightarrow> 'd LazyExpiredCleaner" where
  "NewLazyExpiredCleaner options =
     (let queueSize = (if lo_QueueSize options \<le> 0 then defaultLazyCleanerQueueSize else lo_QueueSize options);
          timeout = (if lo_Timeout options \<le> 0 then defaultLazyCleanerTimeout else lo_Timeout options)
      in \<lparr>lz_repo = lo_Repository options, lz_queue = chan_make (nat queueSize), lz_timeout = timeout\<rparr>)"

text \<open>\<open>c\<close> may be nil. The send is the ready case of the \<open>select\<close>, else its default runs.\<close>

definition Enqueue ::
  "string \<Rightarrow> time \<Rightarrow> 'd LazyExpiredCleaner option \<Rightarrow> bool \<times> 'd LazyExpiredCleaner option" where
  "Enqueue code before c =
     (case c of
        None \<Rightarrow> (False, None)
      | Some z \<Rightarrow>
          (if lz_repo z = None \<or> code = [] then (False, Some z)
           else (case chan_send \<lparr>le_code = code, le_before = before\<rparr> (lz_queue z) of
                   Some q \<Rightarrow> (True, Some (z\<lparr>lz_queue := q\<rparr>))
                 | None \<Rightarrow> (False, Some z))))"

text \<open>The first component is the line written to the log, with the code and the error.\<close>

definition deleteOne ::
  "'d LazyExpiredCleaner \<Rightarrow> lazyExpiredItem \<Rightarrow> 'd \<Rightarrow> (string \<times> go_error) option \<times> 'd" where
  "deleteOne c item d =
     (case lz_repo c of
        None \<Rightarrow> (None, d)
      | Some repo \<Rightarrow>
          (case repo (lz_timeout c) (le_code item) (le_before item) d of
             (Inl err, d1) \<Rightarrow> (Some (le_code item, err), d1)
           | (Inr _, d1) \<Rightarrow> (None, d1)))"

text \<open>\<open>Start\<close>: whether the goroutine is started.\<close>

definition Start :: "'d LazyExpiredCleaner option \<Rightarrow> bool" where
  "Start c \<longleftrightarrow> (case c of None \<Rightarrow> False | Some z \<Rightarrow> lz_repo z \<noteq> None)"

section \<open>The goroutine and its callers\<close>

record 'd cleaning =
  cl_cleaner :: "'d LazyExpiredCleaner"
  cl_db :: 'd
  cl_running :: bool
  cl_cancelled :: bool
  cl_accepted :: "lazyExpiredItem list"
  cl_finished :: "lazyExpiredItem list"

definition clean_start :: "'d LazyExpiredCleanerOptions \<Rightarrow> 'd \<Rightarrow> 'd cleaning" where
  "clean_start options d =
     (let c = NewLazyExpiredCleaner options
      in \<lparr>cl_cleaner = c, cl_db = d, cl_running = Start (Some c), cl_cancelled = False,
          cl_accepted = [], cl_finished = []\<rparr>)"

text \<open>
  A call of \<open>Enqueue\<close>, the cancellation of the context, and the two cases of the loop's \<open>select\<close>;
  when both are ready, either may be taken.
\<close>

inductive clean_step :: "'d cleaning \<Rightarrow> 'd cleaning \<Rightarrow> bool" where
  enqueue: "Enqueue code before (Some (cl_cleaner s)) = (ok, Some c) \<Longrightarrow>
    clean_step s (s\<lparr>cl_cleaner := c,
      cl_accepted := cl_accepted s @ (if ok then [\<lparr>le_code = code, le_before = before\<rparr>] else [])\<rparr>)"
| cancel: "clean_step s (s\<lparr>cl_cancelled := True\<rparr>)"
| run_done: "cl_running s \<Longrightarrow> cl_cancelled s \<Longrightarrow> clean_step s (s\<lparr>cl_running := False\<rparr>)"
| run_item: "cl_running s \<Longrightarrow> chan_recv (lz_queue (cl_cleaner s)) = Some (item, q) \<Longrightarrow>
    deleteOne ((cl_cleaner s)\<lparr>lz_queue := q\<rparr>) item (cl_db s) = (logged, d) \<Longrightarrow>
    clean_step s (s\<lparr>cl_cleaner := (cl_cleaner s)\<lparr>lz_queue := q\<rparr>, cl_db := d,
      cl_finished := cl_finished s @ [item]\<rparr>)"

text \<open>The database after a sequence of deletions.\<close>

definition deletions :: "'d LazyExpiredCleaner \<Rightarrow> lazyExpiredItem list \<Rightarrow> 'd \<Rightarrow> 'd" where
  "deletions c items d = fold (\<lambda>i d. snd (deleteOne c i d)) items d"

definition clean_inv :: "'d LazyExpiredCleaner \<Rightarrow> 'd \<Rightarrow> 'd cleaning \<Rightarrow> bool" where
  "clean_inv c d s \<longleftrightarrow>
     lz_repo (cl_cleaner s) = lz_repo c \<and> lz_timeout (cl_cleaner s) = lz_timeout c \<and>
     chan_wf (lz_queue (cl_cleaner s)) \<and> capacity (lz_queue (cl_cleaner s)) = capacity (lz_queue c) \<and>
     cl_accepted s = cl_finished s @ buffered (lz_queue (cl_cleaner s)) \<and>
     cl_db s = deletions c (cl_finished s) d"

lemma deleteOne_cong: "lz_repo c = lz_repo c' \<Longrightarrow> lz_timeout c = lz_timeout c' \<Longrightarrow> deleteOne c = deleteOne c'"
  unfolding deleteOne_def by (intro ext) (simp only:)

lemma clean_inv_start: "clean_inv (NewLazyExpiredCleaner options) d (clean_start options d)"
  by (simp add: clean_inv_def clean_start_def NewLazyExpiredCleaner_def Let_def deletions_def)

lemma clean_inv_step: "clean_step s s' \<Longrightarrow> clean_inv c d s \<Longrightarrow> clean_inv c d s'"
proof (induction rule: clean_step.induct)
  case (enqueue code before s ok z)
  then show ?case
    using channel.send_contents channel.send_ok chan_send_capacity
    by (fastforce simp: clean_inv_def Enqueue_def split: if_splits option.splits)
next
  case (run_item s item q logged d')
  let ?z = "cl_cleaner s"
  have wf: "chan_wf (lz_queue ?z)" using run_item by (simp add: clean_inv_def)
  have q: "buffered (lz_queue ?z) = item # buffered q" "chan_wf q" "capacity q = capacity (lz_queue ?z)"
    using channel.recv_contents [OF wf run_item(2)] channel.recv_ok [OF wf run_item(2)]
      chan_recv_capacity [OF run_item(2)] by simp_all
  have "deleteOne (?z\<lparr>lz_queue := q\<rparr>) = deleteOne c"
    by (rule deleteOne_cong) (use run_item in \<open>simp_all add: clean_inv_def\<close>)
  with run_item(3) have "d' = snd (deleteOne c item (cl_db s))" by simp
  with q run_item show ?case by (simp add: clean_inv_def deletions_def)
qed (simp_all add: clean_inv_def)

lemma clean_inv_reachable: "clean_step\<^sup>*\<^sup>* (clean_start options d) s \<Longrightarrow> clean_inv (NewLazyExpiredCleaner options) d s"
  by (induction rule: rtranclp_induct) (auto intro: clean_inv_start clean_inv_step)

section \<open>What the deletions remove\<close>

definition code_deleter_of :: "'d link_db \<Rightarrow> duration \<Rightarrow> 'd code_deleter" where
  "code_deleter_of D timeout = DeleteExpiredCode D"

lemma DeleteExpiredCode_removes:
  assumes "db_laws nf tb ok D" and "ok d" and "DeleteExpiredCode D code before d = (v, d')"
  shows "ok d' \<and> (\<forall>t. tb d' t \<subseteq> tb d t \<and>
    (\<forall>r \<in> tb d t - tb d' t. db_text_eq D (sr_Code r) code \<and> expired_by before r))"
proof (cases "ShardTableNameForCode code")
  case (Inl e)
  with assms show ?thesis by (auto simp: DeleteExpiredCode_def split: option.splits)
next
  case (Inr t)
  show ?thesis
  proof (cases "ValidateShortCode code")
    case (Some e)
    with assms show ?thesis by (simp add: DeleteExpiredCode_def)
  next
    case None
    obtain w d1 where del: "db_delete D t (\<lambda>r. db_text_eq D (sr_Code r) code \<and> expired_by before r) d = (w, d1)"
      by fastforce
    have "d' = d1" using assms(3) Inr None del by (auto simp: DeleteExpiredCode_def split: sum.splits)
    with delete_done [OF assms(1,2) del] show ?thesis by (cases w) (auto split: if_splits)
  qed
qed

lemma deletions_remove:
  assumes "db_laws nf tb ok D" and "lz_repo c = Some (code_deleter_of D)" and "ok d"
  shows "ok (deletions c items d) \<and> (\<forall>t. tb (deletions c items d) t \<subseteq> tb d t \<and>
    (\<forall>r \<in> tb d t - tb (deletions c items d) t.
      \<exists>i \<in> set items. db_text_eq D (sr_Code r) (le_code i) \<and> expired_by (le_before i) r))"
  using assms(3)
proof (induction items arbitrary: d)
  case Nil
  then show ?case by (simp add: deletions_def)
next
  case (Cons i items)
  obtain v d1 where one: "DeleteExpiredCode D (le_code i) (le_before i) d = (v, d1)" by fastforce
  have "snd (deleteOne c i d) = d1"
    using one assms(2) by (simp add: deleteOne_def code_deleter_of_def split: sum.splits)
  then have step: "deletions c (i # items) d = deletions c items d1" by (simp add: deletions_def)
  note first = DeleteExpiredCode_removes [OF assms(1) Cons.prems one]
  note rest = Cons.IH [OF conjunct1 [OF first]]
  show ?case
    unfolding step
  proof (intro conjI allI ballI)
    show "ok (deletions c items d1)" using rest by blast
    show "tb (deletions c items d1) t \<subseteq> tb d t" for t using first rest by blast
    fix t r assume "r \<in> tb d t - tb (deletions c items d1) t"
    with first rest show "\<exists>j \<in> set (i # items). db_text_eq D (sr_Code r) (le_code j) \<and> expired_by (le_before j) r"
      by (cases "r \<in> tb d1 t") (meson DiffD1 DiffD2 DiffI list.set_intros)+
  qed
qed

section \<open>Properties\<close>

text \<open>
  C27 (invariant). The cleaner neither loses nor repeats nor reorders what it accepted: in every run
  the accepted items are the deleted ones followed by those in the queue, which never holds more
  than its capacity; the database is that of deleting the finished items one after the other. A
  full queue refuses, it does not block.
\<close>

theorem lazy_cleaner_queue:
  assumes "clean_step\<^sup>*\<^sup>* (clean_start options d) s"
  shows "cl_accepted s = cl_finished s @ buffered (lz_queue (cl_cleaner s)) \<and>
    length (buffered (lz_queue (cl_cleaner s))) \<le>
      nat (if lo_QueueSize options \<le> 0 then 4096 else lo_QueueSize options) \<and>
    cl_db s = deletions (NewLazyExpiredCleaner options) (cl_finished s) d \<and>
    (lo_Repository options \<noteq> None \<and> code \<noteq> [] \<longrightarrow>
      (fst (Enqueue code before (Some (cl_cleaner s))) \<longleftrightarrow>
       length (buffered (lz_queue (cl_cleaner s))) <
         nat (if lo_QueueSize options \<le> 0 then 4096 else lo_QueueSize options)))"
proof -
  let ?n = "nat (if lo_QueueSize options \<le> 0 then 4096 else lo_QueueSize options)"
  note inv = clean_inv_reachable [OF assms, unfolded clean_inv_def]
  have cap: "capacity (lz_queue (cl_cleaner s)) = ?n" and repo: "lz_repo (cl_cleaner s) = lo_Repository options"
    using inv by (simp_all add: NewLazyExpiredCleaner_def Let_def defaultLazyCleanerQueueSize_def)
  have "lo_Repository options \<noteq> None \<and> code \<noteq> [] \<longrightarrow>
    (fst (Enqueue code before (Some (cl_cleaner s))) \<longleftrightarrow> length (buffered (lz_queue (cl_cleaner s))) < ?n)"
    using repo cap by (auto simp: Enqueue_def chan_send_def split: option.splits)
  with inv cap show ?thesis by (simp add: chan_wf_def)
qed

text \<open>
  C28 (safety). Lazy cleaning never removes a link that has not expired: whatever is missing from the
  tables after any run had the code of an accepted item and had expired by the time given with it.
\<close>

theorem lazy_cleaner_safe:
  assumes "db_laws nf tb ok D" and "ok d" and "lo_Repository options = Some (code_deleter_of D)"
    and "clean_step\<^sup>*\<^sup>* (clean_start options d) s"
  shows "tb (cl_db s) t \<subseteq> tb d t \<and>
    (\<forall>r \<in> tb d t - tb (cl_db s) t.
      \<exists>i \<in> set (cl_accepted s). db_text_eq D (sr_Code r) (le_code i) \<and> expired_by (le_before i) r)"
proof -
  note inv = clean_inv_reachable [OF assms(4), unfolded clean_inv_def]
  have "lz_repo (NewLazyExpiredCleaner options) = Some (code_deleter_of D)"
    using assms(3) by (simp add: NewLazyExpiredCleaner_def Let_def)
  note removed = deletions_remove [OF assms(1) this assms(2), of "cl_finished s"]
  have "set (cl_finished s) \<subseteq> set (cl_accepted s)" using inv by simp
  with removed inv show ?thesis by (metis (no_types, lifting) subsetD)
qed

text \<open>A run in which the code of the sample link is enqueued and deleted.\<close>

definition sample_cleaner :: "mem_db LazyExpiredCleanerOptions" where
  "sample_cleaner = \<lparr>lo_Repository = Some (code_deleter_of text_db), lo_QueueSize = 1, lo_Timeout = 0\<rparr>"

definition sample_item :: lazyExpiredItem where
  "sample_item = \<lparr>le_code = NewShortCode 7, le_before = 2000\<rparr>"

definition sample_cleaned :: "mem_db cleaning" where
  "sample_cleaned = (clean_start sample_cleaner sample_db)
     \<lparr>cl_accepted := [sample_item], cl_finished := [sample_item],
      cl_db := snd (deleteOne (NewLazyExpiredCleaner sample_cleaner) sample_item sample_db)\<rparr>"

lemma sample_cleaned_run: "clean_step\<^sup>*\<^sup>* (clean_start sample_cleaner sample_db) sample_cleaned"
proof -
  let ?s = "clean_start sample_cleaner sample_db" and ?z = "NewLazyExpiredCleaner sample_cleaner"
  let ?s1 = "?s\<lparr>cl_cleaner := ?z\<lparr>lz_queue := \<lparr>buffered = [sample_item], capacity = 1\<rparr>\<rparr>, cl_accepted := [sample_item]\<rparr>"
  have z: "cl_cleaner ?s = ?z" "lz_queue ?z = \<lparr>buffered = [], capacity = 1\<rparr>" "lz_repo ?z \<noteq> None" "cl_running ?s"
    by (simp_all add: clean_start_def NewLazyExpiredCleaner_def sample_cleaner_def chan_make_def Start_def Let_def)
  have "Enqueue (NewShortCode 7) 2000 (Some (cl_cleaner ?s)) = (True, Some (?z\<lparr>lz_queue := \<lparr>buffered = [sample_item], capacity = 1\<rparr>\<rparr>))"
    using z by (simp add: Enqueue_def chan_send_def sample_item_def NewShortCode_def EncodeBase62_def
        encode_loop.simps base62Alphabet_def)
  from clean_step.enqueue [OF this] have "clean_step ?s ?s1"
    by (simp add: sample_item_def clean_start_def Let_def)
  moreover have "clean_step ?s1 sample_cleaned"
  proof -
    let ?q = "\<lparr>buffered = [], capacity = 1\<rparr> :: lazyExpiredItem chan"
    have restored: "(cl_cleaner ?s1)\<lparr>lz_queue := ?q\<rparr> = ?z" using z(2) by simp
    have "chan_recv (lz_queue (cl_cleaner ?s1)) = Some (sample_item, ?q)" by (simp add: chan_recv_def)
    moreover obtain l d where one: "deleteOne ?z sample_item sample_db = (l, d)" by fastforce
    moreover have "cl_running ?s1" "cl_db ?s1 = sample_db" using z(4) by (simp_all add: clean_start_def Let_def)
    ultimately have "clean_step ?s1 (?s1\<lparr>cl_cleaner := ?z, cl_db := d, cl_finished := cl_finished ?s1 @ [sample_item]\<rparr>)"
      using clean_step.run_item [of ?s1 sample_item ?q l d] unfolding restored by simp
    then show ?thesis using one by (simp add: sample_cleaned_def clean_start_def Let_def)
  qed
  ultimately show ?thesis by (meson converse_rtranclp_into_rtranclp rtranclp.rtrancl_refl)
qed

lemma lazy_cleaner_queue_witness:
  "cl_accepted sample_cleaned = cl_finished sample_cleaned @ buffered (lz_queue (cl_cleaner sample_cleaned)) \<and>
    cl_db sample_cleaned = deletions (NewLazyExpiredCleaner sample_cleaner) (cl_finished sample_cleaned) sample_db"
  using lazy_cleaner_queue [OF sample_cleaned_run] by blast

lemma lazy_cleaner_safe_witness:
  "mem_tb (cl_db sample_cleaned) (shard_tables ! 7) \<subseteq> mem_tb sample_db (shard_tables ! 7) \<and>
   mem_tb sample_db (shard_tables ! 7) - mem_tb (cl_db sample_cleaned) (shard_tables ! 7) \<subseteq> {r. expired_by 2000 r}"
proof -
  have "lo_Repository sample_cleaner = Some (code_deleter_of text_db)" by (simp add: sample_cleaner_def)
  note safe = lazy_cleaner_safe [OF text_db_laws sample_db_ok this sample_cleaned_run, of "shard_tables ! 7"]
  have "cl_accepted sample_cleaned = [sample_item]" "le_before sample_item = 2000"
    by (simp_all add: sample_cleaned_def sample_item_def)
  with safe show ?thesis by auto
qed

end
