(* ===== verification/Link_World.thy ===== *)
theory Link_World
  imports Link_Service Local_Cache Redis_Cache Filters Lazy_Cleaner Snowflake
begin

text \<open>
  The link service as \<open>cmd/linksvc\<close> and \<open>cmd/redirectsvc\<close> put it together: the repository over
  MySQL, the snowflake generator, the local and the Redis cache, the Bloom filter and the lazy
  cleaner, on one state \<open>node\<close>. All of them read the same system clock. The parameters are the
  database \<open>D\<close>, the Redis client \<open>R\<close>, the JSON encoding \<open>J\<close>, the clock, the single-flight group
  and the URL parser; the theorems assume the laws of the first four and that the group runs the
  function it is given or shares the result of such a run.
\<close>

section \<open>A database that reads the system clock\<close>

definition with_reads :: "nat \<Rightarrow> 'v \<times> 'd \<Rightarrow> 'v \<times> 'd \<times> nat" where
  "with_reads k r = (fst r, snd r, k)"

definition clocked :: "clock \<Rightarrow> 'd link_db \<Rightarrow> ('d \<times> nat) link_db" where
  "clocked now D = \<lparr>
     db_text_eq = db_text_eq D,
     db_insert = (\<lambda>t r dk. with_reads (snd dk) (db_insert D t r (fst dk))),
     db_insert_batch = (\<lambda>t rs dk. with_reads (snd dk) (db_insert_batch D t rs (fst dk))),
     db_first = (\<lambda>t P dk. with_reads (snd dk) (db_first D t P (fst dk))),
     db_find = (\<lambda>t P ord n dk. with_reads (snd dk) (db_find D t P ord n (fst dk))),
     db_delete = (\<lambda>t P dk. with_reads (snd dk) (db_delete D t P (fst dk))),
     db_now = (\<lambda>dk. (now (snd dk), fst dk, Suc (snd dk))),
     db_ctx_Err = (\<lambda>dk. with_reads (snd dk) (db_ctx_Err D (fst dk)))\<rparr>"

lemma clocked_sel [simp]:
  "db_text_eq (clocked now D) = db_text_eq D"
  "db_insert (clocked now D) t r dk = with_reads (snd dk) (db_insert D t r (fst dk))"
  "db_first (clocked now D) t P dk = with_reads (snd dk) (db_first D t P (fst dk))"
  "db_delete (clocked now D) t P dk = with_reads (snd dk) (db_delete D t P (fst dk))"
  "db_insert_batch (clocked now D) t rs dk = with_reads (snd dk) (db_insert_batch D t rs (fst dk))"
  "db_find (clocked now D) t P ord n dk = with_reads (snd dk) (db_find D t P ord n (fst dk))"
  "db_ctx_Err (clocked now D) dk = with_reads (snd dk) (db_ctx_Err D (fst dk))"
  "db_now (clocked now D) dk = (now (snd dk), fst dk, Suc (snd dk))"
  by (simp_all add: clocked_def)

lemma with_reads_eq [simp]: "with_reads k r = (v, d, j) \<longleftrightarrow> r = (v, d) \<and> j = k"
  by (cases r) (auto simp: with_reads_def)

lemma with_reads_fst: "with_reads k p = (v, dk) \<Longrightarrow> p = (v, fst dk)"
  by (cases p) (auto simp: with_reads_def)

section \<open>The state of a process\<close>

text \<open>
  \<open>nd_reads\<close> counts the readings of the clock. \<open>nd_oldest\<close> is not in the code: the number of the
  next reading when the oldest load that is still running began.
\<close>

record ('d, 'r) node =
  nd_db :: 'd
  nd_redis :: 'r
  nd_local :: Local
  nd_ids :: Snowflake
  nd_cleaner :: "('d \<times> nat) LazyExpiredCleaner option"
  nd_reads :: nat
  nd_oldest :: nat

definition on_db :: "('d \<times> nat \<Rightarrow> 'v \<times> 'd \<times> nat) \<Rightarrow> ('d, 'r) node \<Rightarrow> 'v \<times> ('d, 'r) node" where
  "on_db f w =
     (case f (nd_db w, nd_reads w) of (v, d, k) \<Rightarrow> (v, w\<lparr>nd_db := d, nd_reads := k\<rparr>))"

definition on_redis :: "('r \<Rightarrow> 'v \<times> 'r) \<Rightarrow> ('d, 'r) node \<Rightarrow> 'v \<times> ('d, 'r) node" where
  "on_redis f w = (case f (nd_redis w) of (v, r) \<Rightarrow> (v, w\<lparr>nd_redis := r\<rparr>))"

definition on_local :: "(Local \<times> nat \<Rightarrow> 'v \<times> Local \<times> nat) \<Rightarrow> ('d, 'r) node \<Rightarrow> 'v \<times> ('d, 'r) node" where
  "on_local f w =
     (case f (nd_local w, nd_reads w) of (v, c, k) \<Rightarrow> (v, w\<lparr>nd_local := c, nd_reads := k\<rparr>))"

definition on_ids :: "clock \<Rightarrow> ('d, 'r) node \<Rightarrow> (uint64 \<times> ('d, 'r) node) option" where
  "on_ids now w =
     (case NextID now (nd_ids w) (nd_reads w) of
        None \<Rightarrow> None
      | Some (n, s, k) \<Rightarrow> Some (n, w\<lparr>nd_ids := s, nd_reads := k\<rparr>))"

definition on_cleaner :: "string \<Rightarrow> time \<Rightarrow> ('d, 'r) node \<Rightarrow> bool \<times> ('d, 'r) node" where
  "on_cleaner code before w =
     (case Enqueue code before (nd_cleaner w) of (ok, c) \<Rightarrow> (ok, w\<lparr>nd_cleaner := c\<rparr>))"

definition read_clock :: "clock \<Rightarrow> ('d, 'r) node \<Rightarrow> time \<times> ('d, 'r) node" where
  "read_clock now w = (now (nd_reads w), w\<lparr>nd_reads := Suc (nd_reads w)\<rparr>)"

section \<open>The wiring of linksvc and redirectsvc\<close>

definition local_port :: "clock \<Rightarrow> ('d, 'r) node LinkCache" where
  "local_port now = \<lparr>
     ca_Get = (\<lambda>code. on_local (Local_Get now code)),
     ca_Set = (\<lambda>item ttl. on_local (Local_Set now item ttl)),
     ca_Delete = Some (\<lambda>codes. on_local (Local_Delete codes))\<rparr>"

definition redis_port :: "'r redis \<Rightarrow> codec \<Rightarrow> ('d, 'r) node LinkCache" where
  "redis_port R J = \<lparr>
     ca_Get = (\<lambda>code. on_redis (RedisCache_Get R J code)),
     ca_Set = (\<lambda>item ttl. on_redis (RedisCache_Set R J item ttl)),
     ca_Delete = Some (\<lambda>codes. on_redis (RedisCache_Delete R codes))\<rparr>"

definition filter_port :: "'r redis \<Rightarrow> RedisBloom \<Rightarrow> ('d, 'r) node ExistenceFilter" where
  "filter_port R f = \<lparr>
     ef_Add = (\<lambda>code. on_redis (RedisBloom_Add R f code)),
     ef_MightContain = (\<lambda>code. on_redis (RedisBloom_MightContain R f code))\<rparr>"

definition repo_port :: "clock \<Rightarrow> 'd link_db \<Rightarrow> ('d, 'r) node ShortLinkRepository" where
  "repo_port now D = \<lparr>
     re_Create = (\<lambda>item. on_db (Create (clocked now D) item)),
     re_FindByCode = (\<lambda>code. on_db (FindByCode (clocked now D) code)),
     re_FindActiveByCode = (\<lambda>code. on_db (FindActiveByCode (clocked now D) code))\<rparr>"

text \<open>\<open>linksvc\<close> has a generator of ids, \<open>redirectsvc\<close> has none.\<close>

definition service_options ::
  "bool \<Rightarrow> clock \<Rightarrow> 'd link_db \<Rightarrow> 'r redis \<Rightarrow> RedisBloom \<Rightarrow> codec \<Rightarrow> string \<Rightarrow> ('d, 'r) node Options" where
  "service_options with_ids now D R f J domain = \<lparr>
     op_Repository = repo_port now D,
     op_IDs = (if with_ids then Some (on_ids now) else None),
     op_LocalCache = Some (local_port now),
     op_RedisCache = Some (redis_port R J),
     op_Filter = Some (filter_port R f),
     op_Cleaner = Some on_cleaner,
     op_Domain = domain,
     op_CacheTTL = 0\<rparr>"

definition the_service ::
  "bool \<Rightarrow> clock \<Rightarrow> 'd link_db \<Rightarrow> 'r redis \<Rightarrow> RedisBloom \<Rightarrow> codec \<Rightarrow> string \<Rightarrow>
   ('d, 'r) node flight_group \<Rightarrow> url_parser \<Rightarrow> ('d, 'r) node Service" where
  "the_service with_ids now D R f J domain flights parser =
     New (read_clock now) flights parser (service_options with_ids now D R f J domain)"

definition newLazyExpiredCleaner :: "clock \<Rightarrow> 'd link_db \<Rightarrow> ('d \<times> nat) LazyExpiredCleaner" where
  "newLazyExpiredCleaner now D =
     NewLazyExpiredCleaner \<lparr>lo_Repository = Some (code_deleter_of (clocked now D)), lo_QueueSize = 0, lo_Timeout = 0\<rparr>"

definition start_node ::
  "clock \<Rightarrow> 'd link_db \<Rightarrow> Snowflake \<Rightarrow> 'd \<Rightarrow> 'r \<Rightarrow> ('d, 'r) node" where
  "start_node now D ids d r = \<lparr>
     nd_db = d, nd_redis = r, nd_local = NewLocalWithMaxEntries 10000, nd_ids = ids,
     nd_cleaner = Some (newLazyExpiredCleaner now D), nd_reads = 0, nd_oldest = 0\<rparr>"

section \<open>Links the database vouches for\<close>

text \<open>
  \<open>coherent\<close>: the link, as given or as the database stores it, is a row of a table, or it has
  expired by the clock; and its strings are UTF-8, as those of any row. \<open>keeps_rows\<close>: rows go only when they have expired.
\<close>

definition stored_forms :: "(ShortLinkRecord \<Rightarrow> ShortLinkRecord) \<Rightarrow> ShortLink \<Rightarrow> ShortLinkRecord set" where
  "stored_forms nf it = {shortLinkToRecord it, nf (shortLinkToRecord it)}"

definition coherent ::
  "(ShortLinkRecord \<Rightarrow> ShortLinkRecord) \<Rightarrow> ('d \<Rightarrow> string \<Rightarrow> ShortLinkRecord set) \<Rightarrow> clock \<Rightarrow>
   ('d, 'r) node \<Rightarrow> ShortLink \<Rightarrow> bool" where
  "coherent nf tb now w it \<longleftrightarrow> utf8_link it \<and>
     (\<exists>r \<in> stored_forms nf it. (\<exists>t \<in> set shard_tables. r \<in> tb (nd_db w) t) \<or> expired_by (now (nd_reads w)) r)"

definition keeps_rows ::
  "('d \<Rightarrow> string \<Rightarrow> ShortLinkRecord set) \<Rightarrow> clock \<Rightarrow> ('d, 'r) node \<Rightarrow> ('d, 'r) node \<Rightarrow> bool" where
  "keeps_rows tb now w w' \<longleftrightarrow> nd_reads w \<le> nd_reads w' \<and>
     (\<forall>t. \<forall>r \<in> tb (nd_db w) t. r \<in> tb (nd_db w') t \<or> expired_by (now (nd_reads w')) r)"

text \<open>Nothing in the queue of the cleaner asks for more than the clock has shown.\<close>

definition cleaner_ok :: "clock \<Rightarrow> 'd link_db \<Rightarrow> nat \<Rightarrow> ('d \<times> nat) LazyExpiredCleaner option \<Rightarrow> bool" where
  "cleaner_ok now D k c \<longleftrightarrow>
     (\<forall>z. c = Some z \<longrightarrow> lz_repo z = Some (code_deleter_of (clocked now D)) \<and>
        (\<forall>i \<in> set (buffered (lz_queue z)). le_before i \<le> now k))"

definition node_ok ::
  "(ShortLinkRecord \<Rightarrow> ShortLinkRecord) \<Rightarrow> ('d \<Rightarrow> string \<Rightarrow> ShortLinkRecord set) \<Rightarrow> ('d \<Rightarrow> bool) \<Rightarrow> 'd link_db \<Rightarrow>
   ('r \<Rightarrow> keyspace) \<Rightarrow> codec \<Rightarrow> clock \<Rightarrow> ('d, 'r) node \<Rightarrow> bool" where
  "node_ok nf tb ok D db J now w \<longleftrightarrow>
     cleaner_ok now D (nd_reads w) (nd_cleaner w) \<and>
     ok (nd_db w) \<and> local_inv (nd_local w) \<and> keyed_by_code J (db (nd_redis w)) \<and>
     nd_oldest w \<le> nd_reads w \<and>
     (\<forall>c it. Local_holds (nd_local w, nd_reads w) c = Some it \<longrightarrow> coherent nf tb now w it) \<and>
     (\<forall>c it. cached_in J (db (nd_redis w)) c = Some it \<longrightarrow> coherent nf tb now w it)"

definition since_of :: "clock \<Rightarrow> ('d, 'r) node \<Rightarrow> time" where
  "since_of now w = now (nd_oldest w)"

definition latest_of :: "clock \<Rightarrow> ('d, 'r) node \<Rightarrow> time" where
  "latest_of now w = now (nd_reads w)"

definition flight_law ::
  "('w \<Rightarrow> bool) \<Rightarrow> ('w \<Rightarrow> time) \<Rightarrow> ('w \<Rightarrow> time) \<Rightarrow> ('w \<Rightarrow> ShortLink \<Rightarrow> bool) \<Rightarrow> 'w flight_group \<Rightarrow> bool" where
  "flight_law I since latest Q G \<longleftrightarrow>
     (\<forall>c fn w v w'. (\<forall>x u x'. I x \<longrightarrow> fn x = (u, x') \<longrightarrow> advances I since latest Q x x') \<longrightarrow> I w \<longrightarrow>
        G c fn w = (v, w') \<longrightarrow>
        advances I since latest Q w w' \<and>
        (\<exists>w0 w1. I w0 \<and> since w \<le> since w0 \<and> fn w0 = (v, w1) \<and> (\<forall>it. Q w1 it \<longrightarrow> Q w' it)))"

text \<open>A group in which no other call is running.\<close>

definition one_caller :: "'w flight_group" where
  "one_caller c fn w = fn w"

lemma one_caller_law: "flight_law I since latest Q one_caller"
  by (auto simp: flight_law_def one_caller_def)

section \<open>The laws on the composed state\<close>

lemma clocked_laws:
  assumes "db_laws nf tb ok D"
  shows "db_laws nf (\<lambda>dk. tb (fst dk)) (\<lambda>dk. ok (fst dk)) (clocked now D)"
proof -
  note L = db_lawsD [OF assms]
  have table: "table_ok (clocked now D) T = table_ok D T" for T by (simp add: table_ok_def)
  have ins: "insert_law nf (\<lambda>dk. tb (fst dk)) (\<lambda>dk. ok (fst dk)) (clocked now D)"
    unfolding insert_law_def
  proof (intro conjI allI impI)
    fix t r dk e dk' assume ok: "ok (fst dk)" and "db_insert (clocked now D) t r dk = (e, dk')"
    then have run: "db_insert D t r (fst dk) = (e, fst dk')" unfolding clocked_sel by - (rule with_reads_fst)
    then show "ok (fst dk')" and "(tb (fst dk') = (tb (fst dk))(t := insert (nf r) (tb (fst dk) t)) \<and>
        (\<forall>x \<in> tb (fst dk) t. sr_ID x \<noteq> sr_ID r \<and> \<not> db_text_eq (clocked now D) (sr_Code x) (sr_Code r))) \<or>
        (e \<noteq> None \<and> tb (fst dk') = tb (fst dk))"
      using L(4) [unfolded insert_law_def, THEN conjunct1, rule_format, OF ok run] unfolding clocked_sel by blast+
  next
    fix t rs dk e dk' assume ok: "ok (fst dk)" and "db_insert_batch (clocked now D) t rs dk = (e, dk')"
    then have run: "db_insert_batch D t rs (fst dk) = (e, fst dk')" unfolding clocked_sel by - (rule with_reads_fst)
    then show "ok (fst dk')" and "tb (fst dk') = (tb (fst dk))(t := nf ` set rs \<union> tb (fst dk) t) \<or>
        (e \<noteq> None \<and> tb (fst dk') = tb (fst dk))"
      using L(4) [unfolded insert_law_def, THEN conjunct2, rule_format, OF ok run] by blast+
  qed
  have del: "delete_law (\<lambda>dk. tb (fst dk)) (\<lambda>dk. ok (fst dk)) (clocked now D)"
    unfolding delete_law_def
  proof (intro allI impI)
    fix t P dk v dk' assume ok: "ok (fst dk)" and "db_delete (clocked now D) t P dk = (v, dk')"
    then have run: "db_delete D t P (fst dk) = (v, fst dk')" unfolding clocked_sel by - (rule with_reads_fst)
    from L(6) [unfolded delete_law_def, rule_format, OF ok run]
    show "ok (fst dk') \<and> (case v of
        Inr n \<Rightarrow> tb (fst dk') = (tb (fst dk))(t := {r \<in> tb (fst dk) t. \<not> P r}) \<and>
          n = int (card {r \<in> tb (fst dk) t. P r})
      | Inl e \<Rightarrow> tb (fst dk') = (tb (fst dk))(t := {r \<in> tb (fst dk) t. \<not> P r}) \<or> tb (fst dk') = tb (fst dk))" .
  qed
  have query: "query_law (\<lambda>dk. tb (fst dk)) (\<lambda>dk. ok (fst dk)) (clocked now D)"
    unfolding query_law_def
  proof (intro conjI allI impI, goal_cases)
    case (1 t P dk v dk')
    then have "db_first D t P (fst dk) = (v, fst dk')" unfolding clocked_sel by - (rule with_reads_fst)
    from first_done(1) [OF assms 1(1) this] show ?case .
  next
    case (2 t P dk v dk')
    then have "db_first D t P (fst dk) = (v, fst dk')" unfolding clocked_sel by - (rule with_reads_fst)
    from first_done(2) [OF assms 2(1) this] show ?case .
  next
    case (3 t P dk v dk' r)
    then have "db_first D t P (fst dk) = (v, fst dk')" unfolding clocked_sel by - (rule with_reads_fst)
    from first_done(3) [OF assms 3(1) this 3(3)] show ?case by simp
  next
    case (4 t P dk v dk' r)
    then have "db_first D t P (fst dk) = (v, fst dk')" unfolding clocked_sel by - (rule with_reads_fst)
    from first_done(3) [OF assms 4(1) this 4(3)] show ?case by simp
  next
    case (5 t P dk v dk' e)
    then have "db_first D t P (fst dk) = (v, fst dk')" unfolding clocked_sel by - (rule with_reads_fst)
    from first_done(4) [OF assms 5(1) this 5(3,4)] show ?case by blast
  next
    case (6 t P ord n dk v dk')
    then have "db_find D t P ord n (fst dk) = (v, fst dk')" unfolding clocked_sel by - (rule with_reads_fst)
    from find_done(1) [OF assms 6(1) this] show ?case .
  next
    case (7 t P ord n dk v dk')
    then have "db_find D t P ord n (fst dk) = (v, fst dk')" unfolding clocked_sel by - (rule with_reads_fst)
    from find_done(2) [OF assms 7(1) this] show ?case .
  next
    case (8 t P ord n dk v dk' rows)
    then have "db_find D t P ord n (fst dk) = (v, fst dk')" unfolding clocked_sel by - (rule with_reads_fst)
    from find_done(3) [OF assms 8(1) this 8(3)] show ?case .
  next
    case (9 dk x dk')
    then show ?case by auto
  next
    case (10 dk x dk')
    then show ?case by auto
  next
    case (11 dk x dk')
    then have "db_ctx_Err D (fst dk) = (x, fst dk')" unfolding clocked_sel by - (rule with_reads_fst)
    with read_done(2) [OF assms] 11(1) show ?case by blast
  next
    case (12 dk x dk')
    then have "db_ctx_Err D (fst dk) = (x, fst dk')" unfolding clocked_sel by - (rule with_reads_fst)
    with read_done(2) [OF assms] 12(1) show ?case by blast
  qed
  show ?thesis unfolding db_laws_def using L(1,2,3) table ins del query by simp
qed

lemma coherent_keeps:
  assumes "mono now" and "keeps_rows tb now w w'" and "coherent nf tb now w it"
  shows "coherent nf tb now w' it"
proof -
  have later: "expired_by (now (nd_reads w)) r \<Longrightarrow> expired_by (now (nd_reads w')) r" for r
    using monoD [OF assms(1), of "nd_reads w" "nd_reads w'"] assms(2)
    by (auto simp: keeps_rows_def expired_by_def split: option.splits)
  with assms(2,3) show ?thesis unfolding coherent_def keeps_rows_def by blast
qed

text \<open>A call that reports to keep the rows and whose caches hold what they held, or a coherent link.\<close>

definition node_adv ::
  "(ShortLinkRecord \<Rightarrow> ShortLinkRecord) \<Rightarrow> ('d \<Rightarrow> string \<Rightarrow> ShortLinkRecord set) \<Rightarrow> ('d \<Rightarrow> bool) \<Rightarrow> 'd link_db \<Rightarrow>
   ('r \<Rightarrow> keyspace) \<Rightarrow> codec \<Rightarrow> clock \<Rightarrow> ('d, 'r) node \<Rightarrow> ('d, 'r) node \<Rightarrow> bool" where
  "node_adv nf tb ok D db J now =
     advances (node_ok nf tb ok D db J now) (since_of now) (latest_of now) (coherent nf tb now)"

lemma cleaner_ok_later: "mono now \<Longrightarrow> k \<le> k' \<Longrightarrow> cleaner_ok now D k c \<Longrightarrow> cleaner_ok now D k' c"
  unfolding cleaner_ok_def using monoD [of now k k'] by fastforce

lemma node_advI:
  assumes "mono now" and "node_ok nf tb ok D db J now w"
    and "keeps_rows tb now w w'" and "ok (nd_db w')" and "local_inv (nd_local w')"
    and "keyed_by_code J (db (nd_redis w'))" and old: "nd_oldest w \<le> nd_oldest w'" "nd_oldest w' \<le> nd_reads w'"
    and queue: "nd_cleaner w' = nd_cleaner w \<or> cleaner_ok now D (nd_reads w') (nd_cleaner w')"
    and loc: "\<And>c it. Local_holds (nd_local w', nd_reads w') c = Some it \<Longrightarrow>
      Local_holds (nd_local w, nd_reads w) c = Some it \<or> coherent nf tb now w it"
    and red: "\<And>c it. cached_in J (db (nd_redis w')) c = Some it \<Longrightarrow>
      cached_in J (db (nd_redis w)) c = Some it \<or> coherent nf tb now w it \<or> coherent nf tb now w' it"
  shows "node_adv nf tb ok D db J now w w'"
proof -
  note keep = coherent_keeps [OF assms(1,3)]
  have reads: "nd_reads w \<le> nd_reads w'" using assms(3) by (simp add: keeps_rows_def)
  have "node_ok nf tb ok D db J now w'"
    unfolding node_ok_def
  proof (intro conjI allI impI)
    show "ok (nd_db w')" "local_inv (nd_local w')" "keyed_by_code J (db (nd_redis w'))"
      by (fact assms(4), fact assms(5), fact assms(6))
    show "cleaner_ok now D (nd_reads w') (nd_cleaner w')"
      using queue assms(2) cleaner_ok_later [OF assms(1) reads] by (auto simp: node_ok_def)
    show "nd_oldest w' \<le> nd_reads w'" by (fact old(2))
    fix c it assume "Local_holds (nd_local w', nd_reads w') c = Some it"
    from loc [OF this] show "coherent nf tb now w' it"
      using assms(2) keep unfolding node_ok_def by blast
  next
    fix c it assume "cached_in J (db (nd_redis w')) c = Some it"
    from red [OF this] show "coherent nf tb now w' it"
      using assms(2) keep unfolding node_ok_def by blast
  qed
  moreover have "latest_of now w \<le> latest_of now w'" using assms(1) reads by (simp add: latest_of_def monoD)
  moreover have "since_of now w \<le> since_of now w'" using assms(1) old(1) by (simp add: since_of_def monoD)
  ultimately show ?thesis using keep by (simp add: node_adv_def advances_def)
qed

lemma keeps_rows_same: "nd_reads w \<le> nd_reads w' \<Longrightarrow> tb (nd_db w') = tb (nd_db w) \<Longrightarrow> keeps_rows tb now w w'"
  by (simp add: keeps_rows_def)

text \<open>Calls of the parts: the clock, the generator, the cleaner's queue, the two caches.\<close>

lemma holds_reads: "Local_holds (c, k) = Local_holds (c, j)"
  by (simp add: Local_holds_def fun_eq_iff)

lemma clock_adv:
  assumes "mono now" and "node_ok nf tb ok D db J now w" and "read_clock now w = (t, w')"
  shows "node_adv nf tb ok D db J now w w' \<and> since_of now w \<le> t \<and> t \<le> latest_of now w'"
proof (intro conjI)
  have w': "w' = w\<lparr>nd_reads := Suc (nd_reads w)\<rparr>" "t = now (nd_reads w)"
    using assms(3) by (simp_all add: read_clock_def)
  show "node_adv nf tb ok D db J now w w'"
    using assms(2) holds_reads unfolding w' node_ok_def
    by (intro node_advI [OF assms(1,2)] keeps_rows_same) (auto simp: w', metis)
  show "since_of now w \<le> t"
    using assms(1,2) unfolding w' since_of_def node_ok_def by (auto intro: monoD)
  show "t \<le> latest_of now w'" using assms(1) unfolding w' latest_of_def by (auto intro: monoD)
qed

lemma NextID_reads: "NextID now s k = Some (n, s', k') \<Longrightarrow> k < k'"
  unfolding NextID_def Let_def
  by (auto split: if_splits option.splits dest!: waitNextMillis_result)

lemma ids_adv:
  assumes "mono now" and "node_ok nf tb ok D db J now w" and "on_ids now w = Some (n, w')"
  shows "node_adv nf tb ok D db J now w w'"
proof -
  obtain s k where run: "NextID now (nd_ids w) (nd_reads w) = Some (n, s, k)"
    and w': "w' = w\<lparr>nd_ids := s, nd_reads := k\<rparr>"
    using assms(3) by (auto simp: on_ids_def split: option.splits)
  from NextID_reads [OF run] assms(2) show ?thesis
    unfolding w' node_ok_def
    by (intro node_advI [OF assms(1,2)] keeps_rows_same) (auto simp: holds_reads [of _ k "nd_reads w"])
qed

lemma Enqueue_ok:
  assumes "cleaner_ok now D k c" and "before \<le> now k" and "Enqueue code before c = (b, c')"
  shows "cleaner_ok now D k c'"
  using assms by (auto simp: Enqueue_def cleaner_ok_def chan_send_def split: option.splits if_splits)

lemma cleaner_adv:
  assumes "mono now" and "node_ok nf tb ok D db J now w" and "before \<le> latest_of now w"
    and "on_cleaner code before w = (b, w')"
  shows "node_adv nf tb ok D db J now w w'"
proof -
  obtain c where c: "Enqueue code before (nd_cleaner w) = (b, c)" and w': "w' = w\<lparr>nd_cleaner := c\<rparr>"
    using assms(4) by (auto simp: on_cleaner_def split: prod.splits)
  have "cleaner_ok now D (nd_reads w) c"
    using Enqueue_ok [OF _ _ c] assms(2,3) by (simp add: node_ok_def latest_of_def)
  with assms(2) show ?thesis
    unfolding w' node_ok_def
    by (intro node_advI [OF assms(1,2)] keeps_rows_same) auto
qed

text \<open>An operation of the local cache that stores nothing but a coherent link.\<close>

lemma local_adv:
  assumes "mono now" and "node_ok nf tb ok D db J now w"
    and "on_local f w = (v, w')" and "f (nd_local w, nd_reads w) = (v, c, k)"
    and "nd_reads w \<le> k" and "local_inv c"
    and "\<And>x it. Local_holds (c, k) x = Some it \<Longrightarrow>
      Local_holds (nd_local w, nd_reads w) x = Some it \<or> coherent nf tb now w it"
  shows "node_adv nf tb ok D db J now w w'"
proof -
  have w': "w' = w\<lparr>nd_local := c, nd_reads := k\<rparr>" using assms(3,4) by (simp add: on_local_def)
  from assms(2,5-) show ?thesis
    unfolding w' node_ok_def
    by (intro node_advI [OF assms(1,2)] keeps_rows_same) auto
qed

lemma Local_Get_reads: "Local_Get now code (c, k) = (r, c', k') \<Longrightarrow> k \<le> k'"
  by (auto simp: Local_Get_def Let_def split: option.splits if_splits)

lemma evict_reads: "evictOneLocked now (c, k) = (c', k') \<Longrightarrow> k \<le> k'"
  by (auto simp: evictOneLocked_def split: option.splits if_splits)

lemma Local_Set_reads: "Local_Set now item ttl (c, k) = (r, c', k') \<Longrightarrow> k \<le> k'"
  by (auto simp: Local_Set_def setLocked_def split: option.splits if_splits prod.splits dest!: evict_reads)

lemma local_get_adv:
  assumes "mono now" and "node_ok nf tb ok D db J now w" and "ca_Get (local_port now) code w = ((it, hit, e), w')"
  shows "node_adv nf tb ok D db J now w w' \<and> (hit \<and> e = None \<longrightarrow> sl_Code it = code \<and> coherent nf tb now w' it)"
proof -
  have inv: "local_inv (fst (nd_local w, nd_reads w))" using assms(2) by (simp add: node_ok_def)
  obtain r c k where get: "Local_Get now code (nd_local w, nd_reads w) = (r, c, k)" by (metis prod.collapse)
  have run: "on_local (Local_Get now code) w = ((it, hit, e), w')" using assms(3) by (simp add: local_port_def)
  then have r: "r = (it, hit, e)" using get by (simp add: on_local_def)
  have le: "Local_holds (c, k) \<subseteq>\<^sub>m Local_holds (nd_local w, nd_reads w)" by (rule Local_Get_holds [OF get])
  have adv: "node_adv nf tb ok D db J now w w'"
  proof (rule local_adv [OF assms(1,2) run])
    show "Local_Get now code (nd_local w, nd_reads w) = ((it, hit, e), c, k)" using get r by simp
    show "nd_reads w \<le> k" by (rule Local_Get_reads [OF get])
    show "local_inv c" using local_cache.get_ok [OF inv get] by simp
    show "Local_holds (nd_local w, nd_reads w) x = Some it' \<or> coherent nf tb now w it'"
      if "Local_holds (c, k) x = Some it'" for x it'
      using le that unfolding map_le_def by (metis domI)
  qed
  moreover have "sl_Code it = code \<and> coherent nf tb now w' it" if h: "hit \<and> e = None"
  proof -
    have get': "Local_Get now code (nd_local w, nd_reads w) = ((it, True, None), c, k)" using get r h by simp
    note holds = local_cache.get_hit [OF inv get']
    from local_cache.keyed [OF inv holds] have "sl_Code it = code" .
    moreover have "coherent nf tb now w it" using holds assms(2) by (auto simp: node_ok_def)
    ultimately show ?thesis using adv by (simp add: node_adv_def advances_def)
  qed
  ultimately show ?thesis by blast
qed

lemma local_set_adv:
  assumes "mono now" and "node_ok nf tb ok D db J now w" and "coherent nf tb now w it"
    and "ca_Set (local_port now) it ttl w = (e, w')"
  shows "node_adv nf tb ok D db J now w w'"
proof -
  have inv: "local_inv (fst (nd_local w, nd_reads w))" using assms(2) by (simp add: node_ok_def)
  have run: "on_local (Local_Set now it ttl) w = (e, w')" using assms(4) by (simp add: local_port_def)
  then obtain c k where set: "Local_Set now it ttl (nd_local w, nd_reads w) = (e, c, k)"
    by (auto simp: on_local_def split: prod.splits)
  show ?thesis
  proof (rule local_adv [OF assms(1,2) run set])
    show "nd_reads w \<le> k" by (rule Local_Set_reads [OF set])
    show "local_inv c" using local_cache.set_ok [OF inv _ set] by simp
    show "Local_holds (nd_local w, nd_reads w) x = Some it' \<or> coherent nf tb now w it'"
      if h: "Local_holds (c, k) x = Some it'" for x it'
      using local_cache.set_stores [OF inv _ set h] assms(3) by auto
  qed
qed

lemma local_delete_adv:
  assumes "mono now" and "node_ok nf tb ok D db J now w"
    and run: "on_local (Local_Delete codes) w = (e, w')"
  shows "node_adv nf tb ok D db J now w w'"
proof -
  have inv: "local_inv (fst (nd_local w, nd_reads w))" using assms(2) by (simp add: node_ok_def)
  from run obtain c k where del: "Local_Delete codes (nd_local w, nd_reads w) = (e, c, k)"
    by (auto simp: on_local_def split: prod.splits)
  have le: "Local_holds (c, k) \<subseteq>\<^sub>m Local_holds (nd_local w, nd_reads w)" by (rule local_cache.delete_frame [OF inv del])
  show ?thesis
  proof (rule local_adv [OF assms(1,2) run del])
    show "nd_reads w \<le> k" using del by (simp add: Local_Delete_def)
    show "local_inv c" using local_cache.delete_ok [OF inv del] by simp
    show "Local_holds (nd_local w, nd_reads w) x = Some it' \<or> coherent nf tb now w it'"
      if "Local_holds (c, k) x = Some it'" for x it'
      using le that unfolding map_le_def by (metis domI)
  qed
qed

text \<open>An operation on Redis that puts nothing but coherent links into the cache.\<close>

lemma redis_adv:
  assumes "mono now" and "node_ok nf tb ok D db J now w"
    and "on_redis f w = (v, w')" and "f (nd_redis w) = (v, r)"
    and "keyed_by_code J (db r)"
    and "\<And>x it. cached_in J (db r) x = Some it \<Longrightarrow>
      cached_in J (db (nd_redis w)) x = Some it \<or> coherent nf tb now w it"
  shows "node_adv nf tb ok D db J now w w'"
proof -
  have w': "w' = w\<lparr>nd_redis := r\<rparr>" using assms(3,4) by (simp add: on_redis_def)
  from assms(2,5-) show ?thesis
    unfolding w' node_ok_def
    by (intro node_advI [OF assms(1,2)] keeps_rows_same) auto
qed

lemma redis_shrink_adv:
  assumes "mono now" and "node_ok nf tb ok D db J now w"
    and "on_redis f w = (v, w')" and "f (nd_redis w) = (v, r)"
    and le: "cached_in J (db r) \<subseteq>\<^sub>m cached_in J (db (nd_redis w))"
  shows "node_adv nf tb ok D db J now w w'"
proof (rule redis_adv [OF assms(1-4)])
  show "keyed_by_code J (db r)" using assms(2) keyed_by_code_mono [OF _ le] by (simp add: node_ok_def)
  show "cached_in J (db (nd_redis w)) x = Some it \<or> coherent nf tb now w it"
    if "cached_in J (db r) x = Some it" for x it
    using le that unfolding map_le_def by (metis domI)
qed

lemma redis_get_adv:
  assumes "redis_laws db R" and "mono now" and "node_ok nf tb ok D db J now w"
    and "ca_Get (redis_port R J) code w = ((it, hit, e), w')"
  shows "node_adv nf tb ok D db J now w w' \<and> (hit \<and> e = None \<longrightarrow> sl_Code it = code \<and> coherent nf tb now w' it)"
proof -
  have run: "on_redis (RedisCache_Get R J code) w = ((it, hit, e), w')" using assms(4) by (simp add: redis_port_def)
  then obtain r where get: "RedisCache_Get R J code (nd_redis w) = ((it, hit, e), r)"
    by (auto simp: on_redis_def split: prod.splits)
  note result = RedisCache_Get_result [OF assms(1) get]
  have adv: "node_adv nf tb ok D db J now w w'"
    by (rule redis_shrink_adv [OF assms(2,3) run get cached_in_evolves [OF result(1)]])
  moreover have "sl_Code it = code \<and> coherent nf tb now w' it" if "hit \<and> e = None"
  proof -
    have c: "cached_in J (db (nd_redis w)) code = Some it" using result(2) that by blast
    have "sl_Code it = code" "coherent nf tb now w it"
      using assms(3) c by (auto simp: node_ok_def keyed_by_code_def)
    with adv show ?thesis by (simp add: node_adv_def advances_def)
  qed
  ultimately show ?thesis by blast
qed

lemma redis_set_adv:
  assumes "redis_laws db R" and json: "json_faithful J" and "mono now" and "node_ok nf tb ok D db J now w"
    and "coherent nf tb now w it" and "ca_Set (redis_port R J) it ttl w = (e, w')"
  shows "node_adv nf tb ok D db J now w w'"
proof -
  have run: "on_redis (RedisCache_Set R J it ttl) w = (e, w')" using assms(6) by (simp add: redis_port_def)
  then obtain r where set: "RedisCache_Set R J it ttl (nd_redis w) = (e, r)"
    by (auto simp: on_redis_def split: prod.splits)
  have "encodable J it" using json assms(5) by (simp add: json_faithful_def coherent_def)
  note stores = RedisCache_Set_result [OF assms(1) this set]
  have keyed: "keyed_by_code J (db (nd_redis w))" using assms(4) by (simp add: node_ok_def)
  show ?thesis
  proof (rule redis_adv [OF assms(3,4) run set])
    show "keyed_by_code J (db r)" unfolding keyed_by_code_def
      using stores keyed unfolding keyed_by_code_def by blast
    show "cached_in J (db (nd_redis w)) x = Some it' \<or> coherent nf tb now w it'"
      if "cached_in J (db r) x = Some it'" for x it'
      using stores [OF that] assms(5) by blast
  qed
qed

lemma redis_delete_adv:
  assumes "redis_laws db R" and "mono now" and "node_ok nf tb ok D db J now w"
    and run: "on_redis (RedisCache_Delete R codes) w = (e, w')"
  shows "node_adv nf tb ok D db J now w w'"
proof -
  from run obtain r where del: "RedisCache_Delete R codes (nd_redis w) = (e, r)"
    by (auto simp: on_redis_def split: prod.splits)
  show ?thesis
    by (rule redis_shrink_adv [OF assms(2,3) run del RedisCache_Delete_result(1) [OF assms(1) del]])
qed

text \<open>The filter writes Bloom filters, never a cached link.\<close>

lemma bfadd_cached:
  assumes "redis_laws db R" and "rd_BFAdd R k v r = (e, r')"
  shows "cached_in J (db r') \<subseteq>\<^sub>m cached_in J (db r)"
  using redis_lawsD(9) [OF assms(1)] assms(2)
proof (rule write_lawE)
  fix m assume m: "eff_bfadd k [v] (db r) = Some m" and ev: "evolves m (db r')"
  have "cached_in J m \<subseteq>\<^sub>m cached_in J (db r)"
    using m by (auto simp: map_le_def cached_in_def eff_bfadd_def decoded_def
        split: option.splits prod.splits redis_value.splits if_splits)
  with map_le_trans [OF cached_in_evolves [OF ev]] show ?thesis by blast
qed (rule cached_in_evolves)

lemma add_each_cached:
  "redis_laws db R \<Longrightarrow> add_each R ks code r = (e, r') \<Longrightarrow> cached_in J (db r') \<subseteq>\<^sub>m cached_in J (db r)"
proof (induction R ks code r rule: add_each.induct)
  case (2 R k ks code r)
  obtain e1 r1 where hd: "rd_BFAdd R k code r = (e1, r1)" by fastforce
  have one: "cached_in J (db r1) \<subseteq>\<^sub>m cached_in J (db r)" by (rule bfadd_cached [OF "2.prems"(1) hd])
  show ?case
  proof (cases e1)
    case None
    with "2.prems"(2) hd have "add_each R ks code r1 = (e, r')" by simp
    from map_le_trans [OF "2.IH" [OF hd [symmetric] None "2.prems"(1) this] one] show ?thesis .
  next
    case (Some x)
    with "2.prems"(2) hd one show ?thesis by auto
  qed
qed simp

lemma RedisBloom_Add_cached:
  assumes "redis_laws db R" and "RedisBloom_Add R f code r = (e, r')"
  shows "cached_in J (db r') \<subseteq>\<^sub>m cached_in J (db r)"
proof -
  obtain res r1 where keys: "addKeys R f r = (res, r1)" by fastforce
  have one: "cached_in J (db r1) \<subseteq>\<^sub>m cached_in J (db r)"
    by (rule cached_in_evolves [OF addKeys_result(1) [OF assms(1) keys]])
  show ?thesis
  proof (cases res)
    case (Inl x)
    with assms(2) keys one show ?thesis by (simp add: RedisBloom_Add_def)
  next
    case (Inr ks)
    with assms(2) keys have "add_each R (dedupeStrings ks) code r1 = (e, r')"
      by (simp add: RedisBloom_Add_def addToKeys_def)
    from map_le_trans [OF add_each_cached [OF assms(1) this] one] show ?thesis .
  qed
qed

lemma filter_adv:
  assumes "redis_laws db R" and "mono now" and "node_ok nf tb ok D db J now w"
  shows "ef_Add (filter_port R f) code w = (e, w') \<Longrightarrow> node_adv nf tb ok D db J now w w'"
    and "ef_MightContain (filter_port R f) code w = (b, w') \<Longrightarrow> node_adv nf tb ok D db J now w w'"
proof -
  assume "ef_Add (filter_port R f) code w = (e, w')"
  then have run: "on_redis (RedisBloom_Add R f code) w = (e, w')" by (simp add: filter_port_def)
  then obtain r where add: "RedisBloom_Add R f code (nd_redis w) = (e, r)"
    by (auto simp: on_redis_def split: prod.splits)
  show "node_adv nf tb ok D db J now w w'"
    by (rule redis_shrink_adv [OF assms(2,3) run add RedisBloom_Add_cached [OF assms(1) add]])
next
  assume "ef_MightContain (filter_port R f) code w = (b, w')"
  then have run: "on_redis (RedisBloom_MightContain R f code) w = (b, w')" by (simp add: filter_port_def)
  then obtain r where might: "RedisBloom_MightContain R f code (nd_redis w) = (b, r)"
    by (auto simp: on_redis_def split: prod.splits)
  then have ask: "rd_BFExists R (rb_key f) code (nd_redis w) = (b, r)" by (simp add: RedisBloom_MightContain_def)
  show "node_adv nf tb ok D db J now w w'"
    by (rule redis_shrink_adv [OF assms(2,3) run might cached_in_evolves [OF read_evolves(3) [OF assms(1) ask]]])
qed

text \<open>An operation of the repository that keeps the rows.\<close>

lemma db_adv:
  assumes "mono now" and "node_ok nf tb ok D db J now w"
    and "on_db f w = (v, w')" and "f (nd_db w, nd_reads w) = (v, d, k)"
    and "nd_reads w \<le> k" and "ok d" and "\<And>t. tb (nd_db w) t \<subseteq> tb d t"
  shows "node_adv nf tb ok D db J now w w'"
proof -
  have w': "w' = w\<lparr>nd_db := d, nd_reads := k\<rparr>" using assms(3,4) by (simp add: on_db_def)
  have "keeps_rows tb now w w'" using assms(5,7) unfolding keeps_rows_def w' by auto
  from assms(2,5,6) show ?thesis
    by (intro node_advI [OF assms(1,2) \<open>keeps_rows tb now w w'\<close>])
      (auto simp: w' node_ok_def holds_reads [of _ k "nd_reads w"])
qed

lemma shard_table_mem: "item_shard it < 16 \<Longrightarrow> shard_tables ! item_shard it \<in> set shard_tables"
  by (rule nth_mem) simp

lemma create_adv:
  assumes "db_laws nf tb ok D" and "mono now" and "node_ok nf tb ok D db J now w"
    and "re_Create (repo_port now D) it w = (e, w')"
  shows "node_adv nf tb ok D db J now w w' \<and> (e = None \<longrightarrow> coherent nf tb now w' it)"
proof -
  have ok: "ok (nd_db w)" using assms(3) by (simp add: node_ok_def)
  have run: "on_db (Create (clocked now D) it) w = (e, w')" using assms(4) by (simp add: repo_port_def)
  show ?thesis
  proof (cases "valid_item it")
    case False
    from Create_invalid [OF False, of "clocked now D" "(nd_db w, nd_reads w)"] run
    have "e = Some ErrInvalidCode" and "Create (clocked now D) it (nd_db w, nd_reads w) = (e, nd_db w, nd_reads w)"
      by (simp_all add: on_db_def)
    with db_adv [OF assms(2,3) run this(2)] ok show ?thesis by auto
  next
    case True
    let ?t = "shard_tables ! item_shard it"
    obtain e' d where ins': "db_insert D ?t (shortLinkToRecord it) (nd_db w) = (e', d)" by fastforce
    then have "Create (clocked now D) it (nd_db w, nd_reads w) = (e', d, nd_reads w)"
      using Create_valid [OF True, of "clocked now D" "(nd_db w, nd_reads w)"] by simp
    moreover from this run have "e' = e" by (simp add: on_db_def)
    ultimately have ins: "db_insert D ?t (shortLinkToRecord it) (nd_db w) = (e, d)"
      and all: "Create (clocked now D) it (nd_db w, nd_reads w) = (e, d, nd_reads w)"
      using ins' by simp_all
    have d: "ok d" "\<And>t. tb (nd_db w) t \<subseteq> tb d t" and stored: "e = None \<Longrightarrow> nf (shortLinkToRecord it) \<in> tb d ?t"
      by (rule insert_done [OF assms(1) ok ins]; auto)+
    have "nd_db w' = d" using run all by (auto simp: on_db_def)
    moreover have "utf8_link it" if "e = None"
      using stored_utf8(2) [OF assms(1) d(1) stored [OF that] refl] by simp
    ultimately show ?thesis
      using db_adv [OF assms(2,3) run all _ d] stored shard_table_mem [OF item_shard_less, of it]
      unfolding coherent_def stored_forms_def by auto
  qed
qed

lemma FindByCode_reads: "FindByCode (clocked now D) code (d, k) = (v, d', k') \<Longrightarrow> k' = k"
  by (auto simp: FindByCode_def split: option.splits sum.splits prod.splits)

lemma FindActive_clocked:
  assumes "db_laws nf tb ok D" and "ok d" and "FindActiveByCode (clocked now D) code (d, k) = (v, d', k')"
  shows "ok d' \<and> tb d' = tb d \<and> k \<le> k'"
    and "v = Inr it \<Longrightarrow> \<exists>t \<in> set shard_tables. \<exists>r \<in> tb d t. db_text_eq D (sr_Code r) code \<and>
      it = recordToShortLink r \<and> IsActive it (now k)"
proof -
  note laws = clocked_laws [OF assms(1), of now]
  obtain u d1 k1 where find: "FindByCode (clocked now D) code (d, k) = (u, d1, k1)" by (metis prod.collapse)
  have k1: "k1 = k" by (rule FindByCode_reads [OF find])
  have "(ok d' \<and> tb d' = tb d \<and> k \<le> k') \<and>
    (v = Inr it \<longrightarrow> (\<exists>t \<in> set shard_tables. \<exists>r \<in> tb d t. db_text_eq D (sr_Code r) code \<and>
      it = recordToShortLink r \<and> IsActive it (now k)))"
  proof (cases "IDFromShortCode code")
    case (Inl e)
    then have "ValidateShortCode code = Some e" by (simp add: ValidateShortCode_def)
    with assms(2,3) show ?thesis by (auto simp: FindActiveByCode_def FindByCode_def)
  next
    case (Inr n)
    have found: "ok d1 \<and> tb d1 = tb d \<and> (\<forall>it. u = Inr it \<longrightarrow>
        (\<exists>r \<in> tb d (shard_tables ! (unat n mod 16)). db_text_eq D (sr_Code r) code \<and> it = recordToShortLink r))"
      using FindByCode_valid [OF laws _ Inr find] assms(2) by simp
    show ?thesis
    proof (cases u)
      case (Inl e)
      with assms(3) find found k1 show ?thesis by (auto simp: FindActiveByCode_def)
    next
      case u: (Inr item)
      from found u obtain r where r: "r \<in> tb d (shard_tables ! (unat n mod 16))" "db_text_eq D (sr_Code r) code"
        "item = recordToShortLink r" by blast
      have t: "shard_tables ! (unat n mod 16) \<in> set shard_tables" by (rule nth_mem) simp
      have "v = Inr it \<Longrightarrow> it = item \<and> IsActive it (now k)" and "d' = d1" and "k' = Suc k"
        using assms(3) find u k1 by (auto simp: FindActiveByCode_def IsActive_def split: if_splits)
      with found r t show ?thesis by (metis (no_types, lifting) order_refl le_SucI)
    qed
  qed
  then show "ok d' \<and> tb d' = tb d \<and> k \<le> k'"
    and "v = Inr it \<Longrightarrow> \<exists>t \<in> set shard_tables. \<exists>r \<in> tb d t. db_text_eq D (sr_Code r) code \<and>
      it = recordToShortLink r \<and> IsActive it (now k)" by blast+
qed

lemma shortLink_of_record [simp]: "shortLinkToRecord (recordToShortLink r) = r"
  by (simp add: shortLinkToRecord_def recordToShortLink_def)

lemma find_adv:
  assumes "db_laws nf tb ok D" and "mono now" and "node_ok nf tb ok D db J now w"
    and "re_FindActiveByCode (repo_port now D) code w = (v, w')"
  shows "node_adv nf tb ok D db J now w w' \<and>
    (\<forall>it. v = Inr it \<longrightarrow> coherent nf tb now w' it \<and> db_text_eq D (sl_Code it) code \<and> IsActive it (since_of now w))"
proof -
  have ok: "ok (nd_db w)" using assms(3) by (simp add: node_ok_def)
  have run: "on_db (FindActiveByCode (clocked now D) code) w = (v, w')" using assms(4) by (simp add: repo_port_def)
  then obtain d k where find: "FindActiveByCode (clocked now D) code (nd_db w, nd_reads w) = (v, d, k)"
    and w': "w' = w\<lparr>nd_db := d, nd_reads := k\<rparr>" by (auto simp: on_db_def split: prod.splits)
  note result = FindActive_clocked [OF assms(1) ok find]
  have adv: "node_adv nf tb ok D db J now w w'"
    by (rule db_adv [OF assms(2,3) run find]) (use result(1) in auto)
  have "coherent nf tb now w' it \<and> db_text_eq D (sl_Code it) code \<and> IsActive it (since_of now w)" if v: "v = Inr it" for it
  proof -
    from result(2) [OF v] obtain t r where r: "t \<in> set shard_tables" "r \<in> tb (nd_db w) t"
      "db_text_eq D (sr_Code r) code" "it = recordToShortLink r" "IsActive it (now (nd_reads w))" by blast
    have "coherent nf tb now w' it"
      using r(1,2,4) result(1) stored_utf8(1) [OF assms(1) ok r(2)] unfolding coherent_def stored_forms_def w' by auto
    moreover have "since_of now w \<le> now (nd_reads w)"
      using assms(2,3) by (auto simp: since_of_def node_ok_def intro: monoD)
    ultimately show ?thesis using r IsActive_antimono by (auto simp: recordToShortLink_def)
  qed
  with adv show ?thesis by blast
qed

section \<open>The service on its parts\<close>

text \<open>The assumptions on the parameters; under them the parts are what the service relies on.\<close>

locale node_parts =
  fixes nf :: "ShortLinkRecord \<Rightarrow> ShortLinkRecord"
    and tb :: "'d \<Rightarrow> string \<Rightarrow> ShortLinkRecord set"
    and ok :: "'d \<Rightarrow> bool"
    and D :: "'d link_db"
    and db :: "'r \<Rightarrow> keyspace"
    and R :: "'r redis"
    and J :: codec
    and now :: clock
    and flights :: "('d, 'r) node flight_group"
  assumes database: "db_laws nf tb ok D"
    and redis_server: "redis_laws db R"
    and json: "json_faithful J"
    and clock: "mono now"
    and group: "flight_law (node_ok nf tb ok D db J now) (since_of now) (latest_of now) (coherent nf tb now) flights"

sublocale node_parts \<subseteq> parts: link_service "the_service ids now D R f J domain flights parser"
    "node_ok nf tb ok D db J now" "since_of now" "latest_of now" "coherent nf tb now" "db_text_eq D"
  for ids f domain parser
proof (unfold_locales, goal_cases)
  case (1 c)
  show ?case by (rule text_eq_refl [OF database])
next
  case (2 w t w')
  then show ?case using clock_adv [OF clock] by (simp add: the_service_def New_def node_adv_def)
next
  case (3 C w c it hit e w')
  then have C: "C = local_port now \<or> C = redis_port R J"
    by (auto simp: caches_def the_service_def New_def service_options_def)
  show ?case
    using C local_get_adv [OF clock 3(2), of c it hit e w'] redis_get_adv [OF redis_server clock 3(2), of c it hit e w'] 3(3)
    unfolding node_adv_def by fast
next
  case (4 C w it ttl e w')
  then have C: "C = local_port now \<or> C = redis_port R J"
    by (auto simp: caches_def the_service_def New_def service_options_def)
  show ?case
    using C local_set_adv [OF clock 4(2,3), of ttl e w'] redis_set_adv [OF redis_server json clock 4(2,3), of ttl e w'] 4(4)
    unfolding node_adv_def by fast
next
  case (5 C delete w cs e w')
  then have C: "C = local_port now \<or> C = redis_port R J"
    by (auto simp: caches_def the_service_def New_def service_options_def)
  show ?case
    using C
  proof
    assume "C = local_port now"
    with 5(2,4) have "on_local (Local_Delete cs) w = (e, w')" by (auto simp: local_port_def)
    from local_delete_adv [OF clock 5(3) this] show ?case unfolding node_adv_def .
  next
    assume "C = redis_port R J"
    with 5(2,4) have "on_redis (RedisCache_Delete R cs) w = (e, w')" by (auto simp: redis_port_def)
    from redis_delete_adv [OF redis_server clock 5(3) this] show ?case unfolding node_adv_def .
  qed
next
  case (6 F w c e w')
  then have "F = filter_port R f" by (simp add: the_service_def New_def service_options_def)
  with 6(3) have "ef_Add (filter_port R f) c w = (e, w')" by simp
  from filter_adv(1) [OF redis_server clock 6(2) this] show ?case unfolding node_adv_def .
next
  case (7 F w c m w')
  then have "F = filter_port R f" by (simp add: the_service_def New_def service_options_def)
  with 7(3) have "ef_MightContain (filter_port R f) c w = (m, w')" by simp
  from filter_adv(2) [OF redis_server clock 7(2) this] show ?case unfolding node_adv_def .
next
  case (8 enqueue w t c b w')
  then have "enqueue = on_cleaner" by (simp add: the_service_def New_def service_options_def)
  with 8(4) have "on_cleaner c t w = (b, w')" by simp
  from cleaner_adv [OF clock 8(2,3) this] show ?case unfolding node_adv_def .
next
  case (9 gen w n w')
  then have "gen = on_ids now" by (simp add: the_service_def New_def service_options_def split: if_splits)
  with 9(3) have "on_ids now w = Some (n, w')" by simp
  from ids_adv [OF clock 9(2) this] show ?case unfolding node_adv_def .
next
  case (10 w it e w')
  then have "re_Create (repo_port now D) it w = (e, w')" by (simp add: the_service_def New_def service_options_def)
  from create_adv [OF database clock 10(1) this] show ?case unfolding node_adv_def .
next
  case (11 w c v w')
  then have "re_FindActiveByCode (repo_port now D) c w = (v, w')"
    by (simp add: the_service_def New_def service_options_def)
  from find_adv [OF database clock 11(1) this] show ?case unfolding node_adv_def .
next
  case (12 fn w c v w')
  then have "flights c fn w = (v, w')" by (simp add: the_service_def New_def)
  from group [unfolded flight_law_def, rule_format, OF 12(1,2) this] show ?case .
qed

section \<open>The process and its surroundings\<close>

text \<open>One round of the cleaner's goroutine.\<close>

definition run_cleaner :: "('d, 'r) node \<Rightarrow> ('d, 'r) node option" where
  "run_cleaner w =
     (case nd_cleaner w of
        None \<Rightarrow> None
      | Some z \<Rightarrow>
          (case chan_recv (lz_queue z) of
             None \<Rightarrow> None
           | Some (item, q) \<Rightarrow>
               (case deleteOne (z\<lparr>lz_queue := q\<rparr>) item (nd_db w, nd_reads w) of
                  (_, d, k) \<Rightarrow> Some (w\<lparr>nd_cleaner := Some (z\<lparr>lz_queue := q\<rparr>), nd_db := d, nd_reads := k\<rparr>))))"

lemma DeleteExpiredCode_reads: "DeleteExpiredCode (clocked now D) code before (d, k) = (v, d', k') \<Longrightarrow> k' = k"
  by (auto simp: DeleteExpiredCode_def split: option.splits sum.splits prod.splits)

lemma run_cleaner_rows:
  assumes "db_laws nf tb ok D" and "node_ok nf tb ok D db J now w" and "run_cleaner w = Some w'"
  shows "keeps_rows tb now w w' \<and> ok (nd_db w') \<and> cleaner_ok now D (nd_reads w') (nd_cleaner w') \<and>
    (\<exists>c d. w' = w\<lparr>nd_cleaner := c, nd_db := d, nd_reads := nd_reads w\<rparr>)"
proof -
  obtain z item q l d k where z: "nd_cleaner w = Some z" and recv: "chan_recv (lz_queue z) = Some (item, q)"
    and del: "deleteOne (z\<lparr>lz_queue := q\<rparr>) item (nd_db w, nd_reads w) = (l, d, k)"
    and w': "w' = w\<lparr>nd_cleaner := Some (z\<lparr>lz_queue := q\<rparr>), nd_db := d, nd_reads := k\<rparr>"
    using assms(3) by (auto simp: run_cleaner_def split: option.splits prod.splits)
  have clean: "cleaner_ok now D (nd_reads w) (Some z)" and ok: "ok (nd_db w)"
    using assms(2) z by (simp_all add: node_ok_def)
  have items: "buffered (lz_queue z) = item # buffered q"
    using recv by (auto simp: chan_recv_def split: list.splits)
  have repo: "lz_repo (z\<lparr>lz_queue := q\<rparr>) = Some (code_deleter_of (clocked now D))"
    and before: "le_before item \<le> now (nd_reads w)"
    using clean items by (simp_all add: cleaner_ok_def)
  obtain v where run: "DeleteExpiredCode (clocked now D) (le_code item) (le_before item) (nd_db w, nd_reads w) = (v, d, k)"
    using del repo by (auto simp: deleteOne_def code_deleter_of_def split: prod.splits sum.splits)
  have k: "k = nd_reads w" by (rule DeleteExpiredCode_reads [OF run])
  have removed: "ok d \<and> (\<forall>t. \<forall>r \<in> tb (nd_db w) t - tb d t. expired_by (le_before item) r)"
    using DeleteExpiredCode_removes [OF clocked_laws [OF assms(1)] _ run] ok by simp
  have "keeps_rows tb now w w'"
  proof -
    have "expired_by (le_before item) r \<Longrightarrow> expired_by (now (nd_reads w)) r" for r
      using before by (auto simp: expired_by_def split: option.splits)
    with removed show ?thesis unfolding keeps_rows_def w' k by auto
  qed
  moreover have "cleaner_ok now D k (Some (z\<lparr>lz_queue := q\<rparr>))" using clean items k by (auto simp: cleaner_ok_def)
  ultimately show ?thesis
    using removed unfolding w' k by (intro conjI exI [of _ "Some (z\<lparr>lz_queue := q\<rparr>)"] exI [of _ d]) simp_all
qed

lemma run_cleaner_adv:
  assumes "db_laws nf tb ok D" and "mono now" and "node_ok nf tb ok D db J now w" and "run_cleaner w = Some w'"
  shows "node_adv nf tb ok D db J now w w'"
proof -
  note rows = run_cleaner_rows [OF assms(1,3,4)]
  then obtain c d where w': "w' = w\<lparr>nd_cleaner := c, nd_db := d, nd_reads := nd_reads w\<rparr>" by (elim conjE exE) (rule that)
  from assms(3) rows show ?thesis
    by (intro node_advI [OF assms(2,3) conjunct1 [OF rows]]) (auto simp: w' node_ok_def)
qed

text \<open>
  What the other processes (more services, the cleanup worker) and the passing of time may do to
  the shared database and Redis: rows go only when they have expired, and Redis gets only links
  of the database. Loads of other goroutines end.
\<close>

definition others_step ::
  "(ShortLinkRecord \<Rightarrow> ShortLinkRecord) \<Rightarrow> ('d \<Rightarrow> string \<Rightarrow> ShortLinkRecord set) \<Rightarrow> ('d \<Rightarrow> bool) \<Rightarrow>
   ('r \<Rightarrow> keyspace) \<Rightarrow> codec \<Rightarrow> clock \<Rightarrow> ('d, 'r) node \<Rightarrow> ('d, 'r) node \<Rightarrow> bool" where
  "others_step nf tb ok db J now w w' \<longleftrightarrow>
     nd_local w' = nd_local w \<and> nd_cleaner w' = nd_cleaner w \<and> nd_ids w' = nd_ids w \<and>
     nd_oldest w \<le> nd_oldest w' \<and> nd_oldest w' \<le> nd_reads w' \<and>
     keeps_rows tb now w w' \<and> ok (nd_db w') \<and> keyed_by_code J (db (nd_redis w')) \<and>
     (\<forall>c it. cached_in J (db (nd_redis w')) c = Some it \<longrightarrow>
        cached_in J (db (nd_redis w)) c = Some it \<or> coherent nf tb now w' it)"

lemma others_adv:
  assumes "mono now" and "node_ok nf tb ok D db J now w" and "others_step nf tb ok db J now w w'"
  shows "node_adv nf tb ok D db J now w w'"
proof -
  have keep: "keeps_rows tb now w w'" using assms(3) by (simp add: others_step_def)
  from assms(2,3) show ?thesis
    by (intro node_advI [OF assms(1,2) keep])
      (auto simp: others_step_def node_ok_def holds_reads [of _ "nd_reads w'" "nd_reads w"])
qed

inductive system_step ::
  "('d, 'r) node Service \<Rightarrow> (('d, 'r) node \<Rightarrow> ('d, 'r) node \<Rightarrow> bool) \<Rightarrow> ('d, 'r) node \<Rightarrow> ('d, 'r) node \<Rightarrow> bool"
  for S others where
  create: "CreateShortLink S req w = Some (v, w') \<Longrightarrow> system_step S others w w'"
| resolve: "Resolve S code w = (u, w') \<Longrightarrow> system_step S others w w'"
| clean: "run_cleaner w = Some w' \<Longrightarrow> system_step S others w w'"
| other: "others w w' \<Longrightarrow> system_step S others w w'"

lemma start_node_ok:
  assumes "ok d" and "keyed_by_code J (db r)"
    and "\<And>c it. cached_in J (db r) c = Some it \<Longrightarrow> coherent nf tb now (start_node now D ids d r) it"
  shows "node_ok nf tb ok D db J now (start_node now D ids d r)"
  using assms
proof -
  have "Local_holds (NewLocalWithMaxEntries 10000, 0) c = None" for c
    by (simp add: Local_holds_def NewLocalWithMaxEntries_def)
  moreover have "cleaner_ok now D 0 (Some (newLazyExpiredCleaner now D))"
    by (simp add: cleaner_ok_def newLazyExpiredCleaner_def NewLazyExpiredCleaner_def Let_def)
  ultimately show ?thesis using assms NewLocal_inv [of 10000] by (simp add: node_ok_def start_node_def)
qed

context node_parts
begin

lemma system_step_ok:
  assumes "system_step (the_service ids now D R f J domain flights parser) (others_step nf tb ok db J now) w w'"
    and "node_ok nf tb ok D db J now w"
  shows "node_ok nf tb ok D db J now w'"
  using assms
proof (induction rule: system_step.induct)
  case (create req w v w')
  then show ?case using parts.CreateShortLink_result by (fastforce simp: advances_def)
next
  case (resolve code w u w')
  then show ?case using parts.Resolve_result by (fastforce simp: advances_def)
next
  case (clean w w')
  then show ?case using run_cleaner_adv [OF database clock] by (fastforce simp: node_adv_def advances_def)
next
  case (other w w')
  then show ?case using others_adv [OF clock] by (fastforce simp: node_adv_def advances_def)
qed

lemma system_run_ok:
  "(system_step (the_service ids now D R f J domain flights parser) (others_step nf tb ok db J now))\<^sup>*\<^sup>* w w' \<Longrightarrow>
   node_ok nf tb ok D db J now w \<Longrightarrow> node_ok nf tb ok D db J now w'"
  by (induction rule: rtranclp_induct) (auto intro: system_step_ok)

lemma Resolve_vouched:
  assumes "node_ok nf tb ok D db J now w"
    and "Resolve (the_service ids now D R f J domain flights parser) code w = (Inr it, w')"
  shows "coherent nf tb now w' it \<and> db_text_eq D (sl_Code it) code \<and> IsActive it (since_of now w)"
  using parts.Resolve_result [OF assms] by blast

end

section \<open>A link that was just created\<close>

text \<open>Caches, clock, generator and filter leave the database alone.\<close>

lemma on_parts_db:
  "on_local g w = (v, w') \<Longrightarrow> nd_db w' = nd_db w" "on_redis h w = (u, w') \<Longrightarrow> nd_db w' = nd_db w"
  "read_clock now w = (t, w') \<Longrightarrow> nd_db w' = nd_db w" "on_ids now w = Some (n, w') \<Longrightarrow> nd_db w' = nd_db w"
  by (auto simp: on_local_def on_redis_def read_clock_def on_ids_def split: prod.splits option.splits)

lemma the_service_sel:
  "sv_repo (the_service ids now D R f J domain flights parser) = repo_port now D"
  "sv_local (the_service ids now D R f J domain flights parser) = Some (local_port now)"
  "sv_remote (the_service ids now D R f J domain flights parser) = Some (redis_port R J)"
  "sv_filter (the_service ids now D R f J domain flights parser) = Some (filter_port R f)"
  "sv_now (the_service ids now D R f J domain flights parser) = read_clock now"
  "sv_loadGroup (the_service ids now D R f J domain flights parser) = flights"
  "sv_ids (the_service ids now D R f J domain flights parser) = (if ids then Some (on_ids now) else None)"
  "sv_cleaner (the_service ids now D R f J domain flights parser) = Some on_cleaner"
  by (simp_all add: the_service_def New_def service_options_def)

lemma deleteCaches_db:
  "nd_db (deleteCaches (the_service ids now D R f J domain flights parser) cs w) = nd_db w"
  by (simp add: deleteCaches_def deleteCache_def the_service_sel local_port_def redis_port_def
      on_parts_db(1,2) [OF surjective_pairing])

lemma getCache_db:
  assumes "\<And>w v w'. ca_Get C code w = (v, w') \<Longrightarrow> nd_db w' = nd_db w"
    and "getCache (the_service ids now D R f J domain flights parser) (Some C) code w = (res, w')"
  shows "nd_db w' = nd_db w"
proof -
  obtain it hit e w1 where get: "ca_Get C code w = ((it, hit, e), w1)" by (metis prod.collapse)
  obtain t w2 where now: "read_clock now w1 = (t, w2)" by fastforce
  have "nd_db w2 = nd_db w" using assms(1) [OF get] on_parts_db(3) [OF now] by simp
  with assms(1) [OF get] assms(2) get now show ?thesis
    by (auto simp: getCache_def the_service_sel deleteCaches_db split: if_splits)
qed

lemma local_get_db: "ca_Get (local_port now) code w = (v, w') \<Longrightarrow> nd_db w' = nd_db w"
  and redis_get_db: "ca_Get (redis_port R J) code w = (v, w') \<Longrightarrow> nd_db w' = nd_db w"
  by (auto simp: local_port_def redis_port_def intro: on_parts_db)

text \<open>A link put into Redis does not disturb the Bloom filter under another key.\<close>

lemma redis_set_bloom:
  assumes "redis_laws db R" and "\<forall>c. LinkKey c \<noteq> k" and "bloom_key k C (db r)"
    and "RedisCache_Set R J it ttl r = (e, r')"
  shows "bloom_key k C (db r')"
proof (cases "json_Marshal J it")
  case (Inl x)
  with assms(3,4) show ?thesis by (simp add: RedisCache_Set_def)
next
  case (Inr raw)
  with assms(4) have set: "rd_Set R (LinkKey (sl_Code it)) raw ttl r = (e, r')" by (simp add: RedisCache_Set_def)
  have other: "LinkKey (sl_Code it) \<noteq> k" using assms(2) by blast
  show ?thesis
    using redis_lawsD(2) [OF assms(1)] set assms(3)
  proof (rule write_keeps [where Q = "bloom_key k C"])
    show "bloom_key k C m \<Longrightarrow> evolves m m' \<Longrightarrow> bloom_key k C m'" for m m' by (rule bloom_key_evolves)
    show "bloom_key k C m \<Longrightarrow> eff_set (LinkKey (sl_Code it)) raw ttl m = Some m' \<Longrightarrow> bloom_key k C m'" for m m'
      using other by (auto simp: eff_set_def bloom_key_def persistent_def bloom_items_def)
  qed
qed

lemma setCache_remote:
  assumes "redis_laws db R" and "\<forall>c. LinkKey c \<noteq> k" and "bloom_key k C (db (nd_redis w))"
    and S_def: "S = the_service ids now D R f J domain flights parser"
  shows "nd_db (setCache S (sv_remote S) it w) = nd_db w"
    and "bloom_key k C (db (nd_redis (setCache S (sv_remote S) it w)))"
proof -
  obtain ttl w1 where ttl: "cacheTTLFor S it w = (ttl, w1)" by fastforce
  have w1: "nd_db w1 = nd_db w" "nd_redis w1 = nd_redis w"
    using ttl by (auto simp: cacheTTLFor_def S_def the_service_sel read_clock_def Let_def split: option.splits if_splits)
  have "nd_db (setCache S (sv_remote S) it w) = nd_db w \<and> bloom_key k C (db (nd_redis (setCache S (sv_remote S) it w)))"
  proof (cases ttl)
    case None
    with ttl w1 assms(3) show ?thesis by (simp add: setCache_def S_def the_service_sel)
  next
    case (Some d)
    obtain e r where set: "RedisCache_Set R J it d (nd_redis w1) = (e, r)" by fastforce
    have "bloom_key k C (db r)" using redis_set_bloom [OF assms(1,2) _ set] assms(3) w1 by simp
    with ttl w1 Some set show ?thesis
      by (simp add: setCache_def S_def the_service_sel redis_port_def on_redis_def)
  qed
  then show "nd_db (setCache S (sv_remote S) it w) = nd_db w"
    and "bloom_key k C (db (nd_redis (setCache S (sv_remote S) it w)))" by blast+
qed

text \<open>What a successful creation leaves: the row, and the code in the Bloom filter.\<close>

lemma created_state:
  assumes "db_laws nf tb ok D" and "redis_laws db R" and "ok (nd_db w)"
    and "rb_key f \<noteq> []" and "persistent (db (nd_redis w)) (rb_key f)" and "\<forall>c. LinkKey c \<noteq> rb_key f"
    and S: "S = the_service True now D R f J domain flights parser"
    and "CreateShortLink S req w = Some (Inr resp, w')"
  shows "\<exists>item. sl_Code item = rs_Code resp \<and> valid_item item \<and> sl_Status item = ShortLinkStatusActive \<and>
    sl_ExpireAt item = cr_ExpireAt req \<and> ok (nd_db w') \<and> nf (shortLinkToRecord item) \<in> tb (nd_db w') (shard_tables ! item_shard item) \<and>
    bloom_key (rb_key f) {rs_Code resp} (db (nd_redis w')) \<and> sl_Code item = NewShortCode (sl_ID item)"
proof -
  obtain t w1 where now: "read_clock now w = (t, w1)" by fastforce
  then have "sv_now S w = (t, w1)" by (simp add: S the_service_sel)
  from assms(8) CreateShortLink_valid [OF assms(8)] this obtain gen n w2 item where
    gen: "sv_ids S = Some gen" "gen w1 = Some (n, w2)" and store: "store_link S item w2 = (Inr resp, w')"
    and item: "sl_Code item = NewShortCode n" "sl_ID item = n" "sl_Status item = ShortLinkStatusActive" "sl_ExpireAt item = cr_ExpireAt req"
    by (rule CreateShortLink_stores)
  have n: "on_ids now w1 = Some (n, w2)" using gen by (simp add: S the_service_sel)
  have w2: "nd_db w2 = nd_db w" "nd_redis w2 = nd_redis w"
    using now n by (auto simp: read_clock_def on_ids_def split: option.splits)
  have valid: "valid_item item" using item by (simp add: valid_item_def)
  let ?t = "shard_tables ! item_shard item"
  obtain e w3 where create: "on_db (Create (clocked now D) item) w2 = (e, w3)" by fastforce
  obtain e' d where ins: "db_insert D ?t (shortLinkToRecord item) (nd_db w) = (e', d)" by fastforce
  have w3: "w3 = w2\<lparr>nd_db := d\<rparr>" and e: "e' = e"
    using create ins w2 Create_valid [OF valid, of "clocked now D" "(nd_db w2, nd_reads w2)"]
    by (auto simp: on_db_def with_reads_def)
  have "e = None" using store create by (auto simp: store_link_def S the_service_sel repo_port_def split: option.splits)
  with ins e have ins: "db_insert D ?t (shortLinkToRecord item) (nd_db w) = (None, d)" by simp
  have d: "ok d" "nf (shortLinkToRecord item) \<in> tb d ?t"
    by (rule insert_done [OF assms(1,3) ins]; auto)+
  obtain g r where add: "RedisBloom_Add R f (sl_Code item) (nd_redis w) = (g, r)" by fastforce
  have add': "ef_Add (filter_port R f) (sl_Code item) w3 = (g, w3\<lparr>nd_redis := r\<rparr>)"
    using add w2 w3 by (simp add: filter_port_def on_redis_def)
  let ?w4 = "w3\<lparr>nd_redis := r\<rparr>"
  have "g = None" and resp: "rs_Code resp = sl_Code item" and w': "w' = setCache S (sv_remote S) item ?w4"
    using store create \<open>e = None\<close> add'
    by (auto simp: store_link_def S the_service_sel repo_port_def split: option.splits)
  have "bloom_key (rb_key f) {} (db (nd_redis w))" using assms(5) by (simp add: bloom_key_def)
  with RedisBloom_Add_done [OF assms(2) add [unfolded \<open>g = None\<close>] _ assms(4)]
  have bloom: "bloom_key (rb_key f) {sl_Code item} (db (nd_redis ?w4))" by simp
  note after = setCache_remote [OF assms(2,6) bloom S, of item]
  from after d item valid resp w' w3 show ?thesis by (intro exI [of _ item]) simp
qed

text \<open>
  The repository finds a valid, active row; only a failure of another kind can keep it from
  returning it. \<open>bad\<close> are the answers that are to be excluded; that of an expired link is excluded
  for a link without an expiry.
\<close>

lemma find_present:
  assumes "db_laws nf tb ok D" and "ok d" and "valid_item item" and "sl_Status item = ShortLinkStatusActive"
    and "nf (shortLinkToRecord item) \<in> tb d (shard_tables ! item_shard item)"
    and "ErrExpired \<in> bad \<longrightarrow> sl_ExpireAt item = None"
    and "\<forall>t P d. fst (db_first D t P d) \<notin> Inl ` bad"
    and "FindActiveByCode (clocked now D) (sl_Code item) (d, k) = (v, d', k')"
  shows "v \<notin> Inl ` bad"
proof -
  let ?t = "shard_tables ! item_shard item" and ?r = "nf (shortLinkToRecord item)"
  have valid: "ValidateShortCode (sl_Code item) = None" using assms(3) by (simp add: valid_item_def)
  obtain u d1 where first: "db_first D ?t (\<lambda>r. db_text_eq D (sr_Code r) (sl_Code item)) d = (u, d1)" by fastforce
  have nf: "sr_Code ?r = sl_Code item" "sr_Status ?r = ShortLinkStatusActive" "sr_ExpireAt ?r = None \<longleftrightarrow> sl_ExpireAt item = None"
    using db_lawsD(1) [OF assms(1)] assms(4) by (simp_all add: stores_as_def shortLinkToRecord_def)
  have u: "u \<notin> Inl ` bad"
    using assms(7) [rule_format, of ?t "\<lambda>r. db_text_eq D (sr_Code r) (sl_Code item)" d] first by simp
  have run: "FindByCode (clocked now D) (sl_Code item) (d, k) =
      (case u of Inl e \<Rightarrow> (if errors_Is e ErrRecordNotFound then Inl ErrNotFound else Inl e)
         | Inr r \<Rightarrow> Inr (recordToShortLink r), d1, k)"
    using valid valid_item_table [OF assms(3)] first
    by (auto simp: FindByCode_def with_reads_def split: sum.splits)
  show ?thesis
  proof (cases u)
    case (Inl e)
    have "\<not> errors_Is e ErrRecordNotFound"
      using first_done(4) [OF assms(1,2) first Inl _ assms(5)] text_eq_refl [OF assms(1)] nf(1) by auto
    with assms(8) run Inl u show ?thesis by (auto simp: FindActiveByCode_def)
  next
    case (Inr r)
    from first_done(3) [OF assms(1,2) first Inr] have r: "r \<in> tb d ?t" "db_text_eq D (sr_Code r) (sl_Code item)"
      by simp_all
    have "r = ?r" using unique_code [OF assms(1,2) r(1) assms(5)] r(2) nf(1) by simp
    then have "sl_Status (recordToShortLink r) = ShortLinkStatusActive"
        "sl_ExpireAt item = None \<Longrightarrow> \<not> IsExpired (recordToShortLink r) n" for n
      using nf(2,3) by (simp_all add: recordToShortLink_def IsExpired_def)
    with assms(6,8) run Inr show ?thesis by (auto simp: FindActiveByCode_def split: if_splits)
  qed
qed

text \<open>
  Whatever a process holds in its own cache: a stored, active link whose code is in the filter is not
  answered with \<open>bad\<close>.
\<close>

lemma stored_link_answer:
  assumes "db_laws nf tb ok D" and "redis_laws db R" and "rb_key f \<noteq> []"
    and item: "valid_item item" "sl_Status item = ShortLinkStatusActive" and ok: "ok (nd_db w)"
    and row: "nf (shortLinkToRecord item) \<in> tb (nd_db w) (shard_tables ! item_shard item)"
    and bloom: "bloom_key (rb_key f) {sl_Code item} (db (nd_redis w))"
    and bad: "ErrExpired \<in> bad \<longrightarrow> sl_ExpireAt item = None"
      "\<forall>t P d. fst (db_first D t P d) \<notin> Inl ` bad"
    and S: "S = the_service ids now D R f J domain one_caller parser"
    and resolve: "Resolve S (sl_Code item) w = (v, w2)"
  shows "v \<notin> Inl ` bad"
proof -
  let ?c = "sl_Code item"
  have validc: "ValidateShortCode ?c = None" using item(1) by (simp add: valid_item_def)
  obtain b r where might: "RedisBloom_MightContain R f ?c (nd_redis w) = (b, r)" by fastforce
  have "b \<noteq> Inr False"
  proof
    assume "b = Inr False"
    moreover have "redis_bloom_ok db R f (nd_redis w)" "?c \<in> bloom_items (db (nd_redis w)) (rb_key f)"
      using assms(2,3) bloom by (simp_all add: redis_bloom_ok_def bloom_key_def)
    ultimately show False using redis_bloom_filter.might_complete [of db R f "nd_redis w" ?c False r] might by simp
  qed
  have ask: "ef_MightContain (filter_port R f) ?c w = (b, w\<lparr>nd_redis := r\<rparr>)"
    using might by (simp add: filter_port_def on_redis_def)
  let ?w3 = "w\<lparr>nd_redis := r\<rparr>"
  from ask resolve \<open>b \<noteq> Inr False\<close> validc have cached: "resolve_cached S ?c ?w3 = (v, w2)"
    by (auto simp: Resolve_def S the_service_sel split: sum.splits bool.splits)
  obtain x hit err w4 where loc: "getCache S (Some (local_port now)) ?c ?w3 = ((x, hit, err), w4)" by (metis prod.collapse)
  have w4: "nd_db w4 = nd_db w" using getCache_db [OF local_get_db loc [unfolded S]] by simp
  obtain y hit' err' w5 where rem: "getCache S (Some (redis_port R J)) ?c w4 = ((y, hit', err'), w5)"
    by (metis prod.collapse)
  have w5: "nd_db w5 = nd_db w" using getCache_db [OF redis_get_db rem [unfolded S]] w4 by simp
  obtain u d k where find: "FindActiveByCode (clocked now D) ?c (nd_db w, nd_reads w5) = (u, d, k)"
    by (metis prod.collapse)
  note found = find_present [OF assms(1) ok item row bad find]
  have "re_FindActiveByCode (repo_port now D) ?c w5 = (u, w5\<lparr>nd_db := d, nd_reads := k\<rparr>)"
    using find w5 by (simp add: repo_port_def on_db_def)
  with found rem have "fst (load_link S ?c w4) \<notin> Inl ` bad"
    by (auto simp: load_link_def S the_service_sel split: sum.splits)
  with cached loc show ?thesis by (auto simp: resolve_cached_def S the_service_sel one_caller_def split: if_splits)
qed

section \<open>Properties\<close>

text \<open>
  C3 (safety). Through three layers of caching, \<open>Resolve\<close> serves only what the database vouches for:
  in every state a process reaches by creating and resolving links, cleaning up, and whatever other
  processes do within their rules, a link that is returned has a code that equals the requested one
  for the database (that very code under a case-sensitive collation, the code up to case under that of
  the migrations, see \<open>Short_Link_Mem\<close>), has the active status, has not expired since
  the call or the load it shares began, and is at the end of the call a row of the database, unless
  that row has expired in the meantime.
\<close>

theorem resolve_serves_database:
  assumes "db_laws nf tb ok D" and "redis_laws db R" and "json_faithful J" and "mono now"
    and "flight_law (node_ok nf tb ok D db J now) (since_of now) (latest_of now) (coherent nf tb now) flights"
    and "ok d" and "keyed_by_code J (db r)"
    and "\<forall>c it. cached_in J (db r) c = Some it \<longrightarrow> coherent nf tb now (start_node now D gen d r) it"
    and S: "S = the_service ids now D R f J domain flights parser"
    and "(system_step S (others_step nf tb ok db J now))\<^sup>*\<^sup>* (start_node now D gen d r) w"
    and "Resolve S code w = (Inr it, w')"
  shows "db_text_eq D (sl_Code it) code \<and> IsActive it (now (nd_oldest w)) \<and>
    (\<exists>row \<in> {shortLinkToRecord it, nf (shortLinkToRecord it)}.
      (\<exists>t \<in> set shard_tables. row \<in> tb (nd_db w') t) \<or> expired_by (now (nd_reads w')) row)"
proof -
  have parts: "node_parts nf tb ok D db R J now flights"
    using assms(1-5) by (intro node_parts.intro) blast+
  have start: "node_ok nf tb ok D db J now (start_node now D gen d r)"
    by (rule start_node_ok) (use assms(6-8) in blast)+
  have "node_ok nf tb ok D db J now w"
    by (rule node_parts.system_run_ok [OF parts assms(10) [unfolded S] start])
  from node_parts.Resolve_vouched [OF parts this assms(11) [unfolded S]] show ?thesis
    by (auto simp: coherent_def stored_forms_def since_of_def)
qed

text \<open>
  A link can be resolved as soon as its creation has reported success: by the
  filter, the caches and the repository together, the answer to the returned code is never that
  the code is unknown or invalid (only a link, its expiry, or a failure of the database).
\<close>

theorem created_link_resolves:
  assumes "db_laws nf tb ok D" and "redis_laws db R" and "ok (nd_db w)"
    and "rb_key f \<noteq> []" and "persistent (db (nd_redis w)) (rb_key f)" and "\<forall>c. LinkKey c \<noteq> rb_key f"
    and "\<forall>t P d. fst (db_first D t P d) \<notin> {Inl ErrNotFound, Inl ErrInvalidCode}"
    and S: "S = the_service True now D R f J domain one_caller parser"
    and "CreateShortLink S req w = Some (Inr resp, w1)" and "Resolve S (rs_Code resp) w1 = (v, w2)"
  shows "v \<notin> {Inl ErrNotFound, Inl ErrInvalidCode}"
proof -
  from created_state [OF assms(1-6) S assms(9)] obtain item where item: "valid_item item" "sl_Status item = ShortLinkStatusActive"
      "ok (nd_db w1)" "nf (shortLinkToRecord item) \<in> tb (nd_db w1) (shard_tables ! item_shard item)"
      "bloom_key (rb_key f) {sl_Code item} (db (nd_redis w1))" "sl_Code item = rs_Code resp"
    by auto
  have "\<forall>t P d. fst (db_first D t P d) \<notin> Inl ` {ErrNotFound, ErrInvalidCode}" using assms(7) by simp
  from stored_link_answer [OF assms(1,2,4) item(1-5) _ this S] assms(10) item(6) show ?thesis by simp
qed

text \<open>
  A process over a database and a Redis in memory, with a clock that stands at one instant; the
  database holds one link and the Bloom filter its code.
\<close>

definition sample_parser :: url_parser where
  "sample_parser raw = (if starts_with ''http://'' raw then Inr \<lparr>url_Scheme = ''http'', url_Host = ''a''\<rparr>
     else Inl (Errorf ''invalid URI for request''))"

definition node_bloom :: RedisBloom where
  "node_bloom = NewRedisBloom \<lparr>bo_Key = [], bo_Capacity = 0, bo_ErrorRate = Finite 0\<rparr>"

definition node_clock :: clock where
  "node_clock k = snowflakeEpoch + 10 ^ 6"

definition sample_service :: "(mem_db, keyspace) node Service" where
  "sample_service = the_service True node_clock text_db mem_redis node_bloom (one_link_codec sample_link) ''http://a''
     one_caller sample_parser"

definition sample_gen :: Snowflake where
  "sample_gen = \<lparr>sf_nodeID = 1, sf_lastMs = 0, sf_sequence = 0, sf_epochUnix = unix_milli snowflakeEpoch\<rparr>"

definition sample_keys :: keyspace where
  "sample_keys = [rb_key node_bloom \<mapsto> (RBloom {NewShortCode 7}, False)]"

definition sample_node :: "(mem_db, keyspace) node" where
  "sample_node = start_node node_clock text_db sample_gen sample_db sample_keys"

lemma LinkKey_not_bloom: "LinkKey c \<noteq> rb_key node_bloom"
  by (simp add: LinkKey_def keyPrefix_def node_bloom_def NewRedisBloom_def defaultBloomFilterKey_def Let_def)

lemma sample_keys_cached: "cached_in J sample_keys c = None"
  using LinkKey_not_bloom [of c] by (simp add: cached_in_def sample_keys_def)

lemma sample_row: "md_rows sample_db (shard_tables ! 7) = [shortLinkToRecord (link_with_id 7)]"
proof -
  have "valid_item (link_with_id 7)" by (simp add: valid_item_def link_with_id_def)
  then show ?thesis
    using utf8_link_with_id [of 7]
    by (simp add: sample_db_def Create_valid text_db_def mem_link_db_def mem_insert_def empty_db_def
        item_shard_def link_with_id_def unat_numeral)
qed

lemma sample_resolves_as:
  assumes S: "S = the_service ids node_clock text_db mem_redis node_bloom (one_link_codec sample_link) domain one_caller sample_parser"
  shows "fst (Resolve S (NewShortCode 7) sample_node) = Inr (recordToShortLink (shortLinkToRecord (link_with_id 7)))"
proof -
  let ?c = "NewShortCode 7" and ?r = "shortLinkToRecord (link_with_id 7)"
  have table: "ShardTableNameForCode ?c = Inr (shard_tables ! 7)"
    using ShardTableNameForCode_valid [of ?c 7] by (simp add: unat_numeral)
  have first: "db_first text_db (shard_tables ! 7) (\<lambda>r. sr_Code r = ?c) sample_db = (Inr ?r, sample_db)"
    by (simp add: text_db_def mem_link_db_def sample_row shortLinkToRecord_def link_with_id_def)
  have eq: "db_text_eq text_db = (=)" by (simp add: text_db_def mem_link_db_def)
  have found: "FindActiveByCode (clocked node_clock text_db) ?c (sample_db, 0) =
      (Inr (recordToShortLink ?r), sample_db, Suc 0)"
    using first by (simp add: FindActiveByCode_def FindByCode_def table eq with_reads_def IsExpired_def
        recordToShortLink_def shortLinkToRecord_def link_with_id_def zero_ShortLink_def)
  have filter: "rd_BFExists mem_redis (rb_key node_bloom) ?c sample_keys = (Inr True, sample_keys)"
    by (simp add: mem_redis_def sample_keys_def)
  have cache: "rd_Get mem_redis (LinkKey ?c) sample_keys = (Inl RedisNil, sample_keys)"
    using LinkKey_not_bloom [of ?c] by (simp add: mem_redis_def sample_keys_def)
  have node: "nd_db sample_node = sample_db" "nd_redis sample_node = sample_keys" "nd_reads sample_node = 0"
    "lc_items (nd_local sample_node) = []"
    by (simp_all add: sample_node_def start_node_def NewLocalWithMaxEntries_def)
  have same [simp]: "sample_node\<lparr>nd_redis := sample_keys\<rparr> = sample_node"
      "sample_node\<lparr>nd_local := nd_local sample_node, nd_reads := 0\<rparr> = sample_node"
    using node by simp_all
  have valid: "ValidateShortCode ?c = None" by simp
  have one: "ef_MightContain (filter_port mem_redis node_bloom) ?c sample_node = (Inr True, sample_node)"
    using filter node by (simp add: filter_port_def on_redis_def RedisBloom_MightContain_def)
  have two: "ca_Get (local_port node_clock) ?c sample_node = ((zero_ShortLink, False, None), sample_node)"
    using node by (simp add: local_port_def on_local_def Local_Get_def)
  have three: "ca_Get (redis_port mem_redis J) ?c sample_node = ((zero_ShortLink, False, None), sample_node)" for J
    using node cache by (simp add: redis_port_def on_redis_def RedisCache_Get_def)
  have four: "fst (re_FindActiveByCode (repo_port node_clock text_db) ?c sample_node) = Inr (recordToShortLink ?r)"
    using node found by (simp add: repo_port_def on_db_def)
  have ports: "sv_filter S = Some (filter_port mem_redis node_bloom)"
    "sv_local S = Some (local_port node_clock)"
    "sv_remote S = Some (redis_port mem_redis (one_link_codec sample_link))"
    "sv_repo S = repo_port node_clock text_db" "sv_loadGroup S = one_caller"
    by (simp_all add: S the_service_def New_def service_options_def)
  obtain w where "re_FindActiveByCode (repo_port node_clock text_db) ?c sample_node = (Inr (recordToShortLink ?r), w)"
    using four by (metis prod.collapse)
  then have "load_link S ?c sample_node = (Inr (recordToShortLink ?r), setCaches S (recordToShortLink ?r) w)"
    by (simp add: load_link_def getCache_def ports three)
  then show ?thesis
    by (simp add: Resolve_def resolve_cached_def getCache_def valid ports one two one_caller_def)
qed

lemma sample_resolves:
  "fst (Resolve sample_service (NewShortCode 7) sample_node) = Inr (recordToShortLink (shortLinkToRecord (link_with_id 7)))"
  by (rule sample_resolves_as [OF sample_service_def])

lemma resolve_serves_database_witness:
  "\<exists>it w'. Resolve sample_service (NewShortCode 7) sample_node = (Inr it, w') \<and> sl_Code it = NewShortCode 7 \<and>
    (\<exists>row \<in> {shortLinkToRecord it, shortLinkToRecord it}.
      (\<exists>t \<in> set shard_tables. row \<in> mem_tb (nd_db w') t) \<or> expired_by (node_clock (nd_reads w')) row)"
proof -
  let ?J = "one_link_codec sample_link"
  obtain it w' where run: "Resolve sample_service (NewShortCode 7) sample_node = (Inr it, w')"
    using sample_resolves by (metis prod.collapse)
  have json: "json_faithful ?J" by (auto simp: json_faithful_def encodable_def one_link_codec_def)
  have clock: "mono node_clock" by (auto simp: mono_def node_clock_def)
  have keys: "keyed_by_code ?J sample_keys" by (simp add: keyed_by_code_def sample_keys_cached)
  have cached: "\<forall>c it. cached_in ?J sample_keys c = Some it \<longrightarrow>
      coherent (\<lambda>r. r) mem_tb node_clock (start_node node_clock text_db sample_gen sample_db sample_keys) it"
    by (simp add: sample_keys_cached)
  note served = resolve_serves_database [OF text_db_laws mem_redis_laws json clock one_caller_law sample_db_ok keys cached
      sample_service_def rtranclp.rtrancl_refl run [unfolded sample_node_def]]
  have "sl_Code it = NewShortCode 7"
    using conjunct1 [OF served] by (simp add: text_db_def mem_link_db_def)
  with run conjunct2 [OF conjunct2 [OF served]] show ?thesis by (intro exI conjI)
qed

definition empty_node :: "(mem_db, keyspace) node" where
  "empty_node = start_node node_clock text_db sample_gen empty_db (\<lambda>_. None)"

definition sample_request :: CreateRequest where
  "sample_request = \<lparr>cr_LongURL = ''http://a'', cr_Domain = [], cr_ExpireAt = None\<rparr>"

lemma bloom_key_set: "rb_key node_bloom \<noteq> []" "rb_markerKey node_bloom \<noteq> []"
  by (simp_all add: node_bloom_def NewRedisBloom_def defaultBloomFilterKey_def Let_def)

lemma store_in_empty:
  assumes "valid_item item" and "nd_db w = empty_db" and "nd_redis w = (\<lambda>_. None)" and "utf8_link item"
  shows "\<exists>resp w'. store_link sample_service item w = (Inr resp, w')"
proof -
  have "fst (Create (clocked node_clock text_db) item (empty_db, k)) = None" for k
  proof -
    have "fst (db_insert text_db t (shortLinkToRecord item) empty_db) = None" for t
      using assms(4) by (simp add: text_db_def mem_link_db_def mem_insert_def empty_db_def)
    then show ?thesis by (simp add: Create_valid [OF assms(1)] with_reads_def)
  qed
  then have one: "fst (re_Create (repo_port node_clock text_db) item w) = None"
    using assms(2) by (auto simp: repo_port_def on_db_def split: prod.splits) (metis fst_conv)
  obtain w1 where create: "re_Create (repo_port node_clock text_db) item w = (None, w1)"
    using one by (metis prod.collapse)
  then have "nd_redis w1 = (\<lambda>_. None)"
    using assms(3) by (auto simp: repo_port_def on_db_def split: prod.splits)
  then have "fst (ef_Add (filter_port mem_redis node_bloom) code w1) = None" for code
    using bloom_key_set(1)
    by (simp add: filter_port_def on_redis_def RedisBloom_Add_def addKeys_def addToKeys_def dedupeStrings_def
        mem_redis_def mem_write_def eff_bfadd_def)
  then obtain w2 where "ef_Add (filter_port mem_redis node_bloom) (sl_Code item) w1 = (None, w2)"
    by (metis prod.collapse)
  with create show ?thesis by (simp add: store_link_def sample_service_def the_service_sel)
qed

lemma create_in_empty_node:
  "\<exists>resp w'. CreateShortLink sample_service sample_request empty_node = Some (Inr resp, w')"
proof -
  have url: "TrimSpace ''http://a'' = ''http://a''" by (rule TrimSpace_graphic) (simp add: graphic_def)
  have valid: "isValidLongURL (sv_ParseRequestURI sample_service) ''http://a''"
    by (simp add: sample_service_def the_service_def New_def isValidLongURL_def sample_parser_def starts_with_def)
  have "(sf_sequence sample_gen + 1) AND snowflakeMaxSequence \<noteq> 0"
    by (simp add: sample_gen_def snowflakeMaxSequence_mask mask_eq_exp_minus_1)
  then obtain n s where gen: "NextID node_clock sample_gen 1 = Some (n, s, Suc 1)" using NextID_no_wait by blast
  have run: "CreateShortLink sample_service sample_request empty_node =
    Some (store_link sample_service
      \<lparr>sl_ID = n, sl_Code = NewShortCode n, sl_LongURL = ''http://a'', sl_Domain =
        (if TrimRightByte CHR ''/'' (TrimSpace []) = [] then sv_domain sample_service else TrimRightByte CHR ''/'' (TrimSpace [])),
       sl_ExpireAt = None, sl_Status = ShortLinkStatusActive,
       sl_CreatedAt = node_clock 0, sl_UpdatedAt = node_clock 0\<rparr>
      (empty_node\<lparr>nd_reads := Suc 1, nd_ids := s\<rparr>))"
    using gen url valid
    by (simp add: CreateShortLink_def sample_request_def Let_def sample_service_def the_service_sel read_clock_def
        on_ids_def empty_node_def start_node_def)
  have "TrimRightByte CHR ''/'' (TrimSpace []) = []" using TrimSpace_graphic [of "[]"] by (simp add: TrimRightByte_def)
  moreover have "sv_domain sample_service = ''http://a''"
    by (simp add: sample_service_def the_service_def New_def service_options_def TrimRightByte_def)
  moreover have "utf8_valid ''http://a''" by (rule utf8_valid_ascii) auto
  ultimately show ?thesis
    unfolding run option.inject
    by (intro store_in_empty) (simp_all add: valid_item_def empty_node_def start_node_def utf8_link_def)
qed

lemma created_link_resolves_witness:
  "\<exists>resp w1 v w2. CreateShortLink sample_service sample_request empty_node = Some (Inr resp, w1) \<and>
    Resolve sample_service (rs_Code resp) w1 = (v, w2) \<and> v \<notin> {Inl ErrNotFound, Inl ErrInvalidCode}"
proof -
  obtain resp w1 where create: "CreateShortLink sample_service sample_request empty_node = Some (Inr resp, w1)"
    using create_in_empty_node by blast
  obtain v w2 where resolve: "Resolve sample_service (rs_Code resp) w1 = (v, w2)" by fastforce
  have ok: "mem_ok (=) (nd_db empty_node)" by (simp add: empty_node_def start_node_def)
  have bloom: "persistent (nd_redis empty_node) (rb_key node_bloom)"
    by (simp add: empty_node_def start_node_def persistent_def)
  have errors: "\<forall>t P d. fst (db_first text_db t P d) \<notin> {Inl ErrNotFound, Inl ErrInvalidCode}"
    by (auto simp: text_db_def mem_link_db_def split: option.splits)
  have keys: "\<forall>c. LinkKey c \<noteq> rb_key node_bloom" using LinkKey_not_bloom by blast
  from created_link_resolves [OF text_db_laws mem_redis_laws ok bloom_key_set(1) bloom keys errors
      sample_service_def create resolve] create resolve
  show ?thesis by blast
qed

interpretation sample_parts: node_parts "\<lambda>r. r" mem_tb "mem_ok (=)" text_db "\<lambda>m. m" mem_redis
    "one_link_codec sample_link" node_clock one_caller
  by unfold_locales
    (auto simp: text_db_laws mem_redis_laws json_faithful_def encodable_def one_link_codec_def mono_def node_clock_def one_caller_law)

end
