(* ===== verification/Http_Api.thy ===== *)
theory Http_Api
  imports Grpc_Api Link_World "HOL-Library.Signed_Division"
begin

text \<open>
  \<open>internal/interfaces/httpapi/router.go\<close> and \<open>internal/app/health\<close>: the HTTP interface of the
  gateway. A request is what the handlers read of it; \<open>bind\<close> stands for gin's decoding of a JSON
  body. An answer is a status with a body. The routes are a table; gin's matching and its recovery from
  panics are not modelled.
  \<open>http_redirect_database\<close> composes the redirect with the gateway's client, the network, the server
  and the link service over the database.
\<close>

section \<open>Requests and answers\<close>

record createShortLinkRequest =
  hq_LongURL :: string
  hq_Domain :: string
  hq_ExpireAt :: "time option"

record visit_request =
  hv_code :: string
  hv_ClientIP :: string
  hv_UserAgent :: string
  hv_Referer :: string

datatype http_body =
    Body_error string
  | Body_created CreateResponse
  | Body_stats LinkStats
  | Body_location string

record http_answer =
  ha_Status :: nat
  ha_Body :: http_body

definition StatusOK :: nat where "StatusOK = 200"
definition StatusCreated :: nat where "StatusCreated = 201"
definition StatusFound :: nat where "StatusFound = 302"
definition StatusBadRequest :: nat where "StatusBadRequest = 400"
definition StatusNotFound :: nat where "StatusNotFound = 404"
definition StatusMethodNotAllowed :: nat where "StatusMethodNotAllowed = 405"
definition StatusGone :: nat where "StatusGone = 410"
definition StatusInternalServerError :: nat where "StatusInternalServerError = 500"

lemmas status_defs = StatusOK_def StatusCreated_def StatusFound_def StatusBadRequest_def StatusNotFound_def
  StatusMethodNotAllowed_def StatusGone_def StatusInternalServerError_def

section \<open>The handlers\<close>

definition writeError :: "go_error \<Rightarrow> http_answer" where
  "writeError err =
     (if errors_Is err ErrInvalidCode \<or> errors_Is err ErrInvalidURL
      then \<lparr>ha_Status = StatusBadRequest, ha_Body = Body_error (error_text err)\<rparr>
      else if errors_Is err ErrNotFound then \<lparr>ha_Status = StatusNotFound, ha_Body = Body_error (error_text err)\<rparr>
      else if errors_Is err ErrExpired then \<lparr>ha_Status = StatusGone, ha_Body = Body_error (error_text err)\<rparr>
      else \<lparr>ha_Status = StatusInternalServerError, ha_Body = Body_error ''internal server error''\<rparr>)"

definition http_createShortLink ::
  "'w link_api \<Rightarrow> ('b \<Rightarrow> go_error + createShortLinkRequest) \<Rightarrow> 'b \<Rightarrow> 'w \<Rightarrow> (http_answer \<times> 'w) option" where
  "http_createShortLink service bind body w =
     (case bind body of
        Inl err \<Rightarrow> Some (\<lparr>ha_Status = StatusBadRequest, ha_Body = Body_error ''invalid json body''\<rparr>, w)
      | Inr req \<Rightarrow>
          (case la_CreateShortLink service \<lparr>cr_LongURL = hq_LongURL req, cr_Domain = hq_Domain req,
                  cr_ExpireAt = hq_ExpireAt req\<rparr> w of
             None \<Rightarrow> None
           | Some (Inl err, w1) \<Rightarrow> Some (writeError err, w1)
           | Some (Inr resp, w1) \<Rightarrow> Some (\<lparr>ha_Status = StatusCreated, ha_Body = Body_created resp\<rparr>, w1)))"

definition http_getLinkStats :: "'w stats_api \<Rightarrow> string \<Rightarrow> 'w \<Rightarrow> http_answer \<times> 'w" where
  "http_getLinkStats service param w =
     (case service (TrimSpace param) w of
        (Inl err, w1) \<Rightarrow> (writeError err, w1)
      | (Inr stats, w1) \<Rightarrow> (\<lparr>ha_Status = StatusOK, ha_Body = Body_stats stats\<rparr>, w1))"

definition http_redirect :: "'w link_api \<Rightarrow> 'w visit_recorder option \<Rightarrow> visit_request \<Rightarrow> 'w \<Rightarrow> http_answer \<times> 'w" where
  "http_redirect service recorder req w =
     (let code = TrimSpace (hv_code req)
      in case la_Resolve service code w of
           (Inl err, w1) \<Rightarrow> (writeError err, w1)
         | (Inr item, w1) \<Rightarrow>
             (\<lparr>ha_Status = StatusFound, ha_Body = Body_location (sl_LongURL item)\<rparr>,
              (case recorder of
                 None \<Rightarrow> w1
               | Some record_visit \<Rightarrow>
                   snd (record_visit \<lparr>ve_Code = code, ve_IP = hv_ClientIP req, ve_UserAgent = hv_UserAgent req,
                     ve_Referer = hv_Referer req, ve_VisitedAt = zero_time\<rparr> w1))))"

text \<open>
  The middleware that logs every request, around any handler \<open>next\<close>: what it logs, beside the answer. The
  clock is read before and after; the path is the pattern of the route.
\<close>

record access_entry =
  ac_method :: string
  ac_path :: string
  ac_status :: nat
  ac_duration_ms :: int
  ac_client_ip :: string

definition accessLog ::
  "time \<Rightarrow> time \<Rightarrow> string \<Rightarrow> string \<Rightarrow> string \<Rightarrow> ('w \<Rightarrow> (http_answer \<times> 'w) option) \<Rightarrow> 'w \<Rightarrow> (access_entry \<times> http_answer \<times> 'w) option" where
  "accessLog start finish meth path ip next w =
     (case next w of
        None \<Rightarrow> None
      | Some (answer, w1) \<Rightarrow>
          Some (\<lparr>ac_method = meth, ac_path = path, ac_status = ha_Status answer,
                 ac_duration_ms = time_sub finish start sdiv millisecond, ac_client_ip = ip\<rparr>, answer, w1))"

section \<open>Health (internal/app/health)\<close>

record health_response =
  he_Service :: string
  he_Status :: string

definition health_handler :: "string \<Rightarrow> string \<Rightarrow> nat \<times> health_response option" where
  "health_handler service meth =
     (if meth \<noteq> ''GET'' then (StatusMethodNotAllowed, None)
      else (StatusOK, Some \<lparr>he_Service = service, he_Status = ''ok''\<rparr>))"

section \<open>The routes\<close>

datatype endpoint = Ep_health | Ep_pprof string | Ep_create | Ep_stats | Ep_redirect

text \<open>The methods that \<open>Any\<close> of gin registers.\<close>

definition any_methods :: "string list" where
  "any_methods = [''GET'', ''POST'', ''PUT'', ''PATCH'', ''HEAD'', ''OPTIONS'', ''DELETE'', ''CONNECT'', ''TRACE'']"

type_synonym route = "string \<times> string \<times> endpoint"

definition registerPprof :: "route list" where
  "registerPprof = map (\<lambda>(m, p, e). (m, ''/debug/pprof'' @ p, Ep_pprof e))
     [(''GET'', ''/'', ''index''), (''GET'', ''/cmdline'', ''cmdline''), (''GET'', ''/profile'', ''profile''),
      (''GET'', ''/symbol'', ''symbol''), (''POST'', ''/symbol'', ''symbol''), (''GET'', ''/trace'', ''trace''),
      (''GET'', ''/allocs'', ''allocs''), (''GET'', ''/block'', ''block''), (''GET'', ''/goroutine'', ''goroutine''),
      (''GET'', ''/heap'', ''heap''), (''GET'', ''/mutex'', ''mutex''), (''GET'', ''/threadcreate'', ''threadcreate'')]"

definition NewRouter :: "route list" where
  "NewRouter = map (\<lambda>m. (m, ''/healthz'', Ep_health)) any_methods @ registerPprof @
     [(''POST'', ''/api/links'', Ep_create), (''GET'', ''/api/links/:code/stats'', Ep_stats), (''GET'', ''/:code'', Ep_redirect)]"

text \<open>gin refuses a route that is registered twice.\<close>

lemma routes_distinct: "distinct (map (\<lambda>(m, p, e). (m, p)) NewRouter)"
  by (simp add: NewRouter_def registerPprof_def any_methods_def)

section \<open>The gateway\<close>

lemma TrimSpace_NewShortCode: "TrimSpace (NewShortCode n) = NewShortCode n"
  unfolding NewShortCode_def by (rule TrimSpace_digits) (simp add: EncodeBase62_digits)

text \<open>\<open>cmd/gateway\<close> serves the routes over the client's operations.\<close>

definition gateway_api :: "('c, 'w) GatewayClient \<Rightarrow> 'w link_api" where
  "gateway_api c = \<lparr>la_CreateShortLink = (\<lambda>req w. Some (client_CreateShortLink c req w)), la_Resolve = client_Resolve c\<rparr>"

lemma writeError_status:
  "ha_Status (writeError err) \<in> {StatusBadRequest, StatusNotFound, StatusGone, StatusInternalServerError}"
  by (simp add: writeError_def)

lemma writeError_domain [simp]:
  "writeError ErrInvalidCode = \<lparr>ha_Status = StatusBadRequest, ha_Body = Body_error ''invalid short code''\<rparr>"
  "writeError ErrInvalidURL = \<lparr>ha_Status = StatusBadRequest, ha_Body = Body_error ''invalid long url''\<rparr>"
  "writeError ErrNotFound = \<lparr>ha_Status = StatusNotFound, ha_Body = Body_error ''short link not found''\<rparr>"
  "writeError ErrExpired = \<lparr>ha_Status = StatusGone, ha_Body = Body_error ''short link expired''\<rparr>"
  by (simp_all add: writeError_def)

text \<open>A status on the wire is answered by a text of the domain, or by none of its own.\<close>

definition error_answer :: "http_answer \<Rightarrow> bool" where
  "error_answer a \<longleftrightarrow> (\<exists>m. ha_Body a = Body_error m \<and> (ha_Status a, m) \<in>
     {(StatusBadRequest, ''invalid json body''), (StatusBadRequest, ''invalid short code''), (StatusBadRequest, ''invalid long url''),
      (StatusNotFound, ''short link not found''), (StatusGone, ''short link expired''),
      (StatusInternalServerError, ''internal server error'')})"

lemma writeError_of_status: "error_answer (writeError (error_of_status (Rpc_status c m)))"
  by (cases c) (auto simp: error_of_status_def rpc_as_error_def writeError_def error_answer_def)

lemma remote_error:
  assumes "remote handler stub" and "stub t q w = (Inl err, w')" and "\<And>e w''. handler q w = Some (Inl e, w'') \<Longrightarrow> \<exists>c m. e = Rpc_status c m"
  shows "error_answer (writeError (error_of_status err))"
  using remote.refused [OF assms(1,2)] assms(3) writeError_of_status by metis

lemma status_of_status: "\<exists>c m. status_of e = Rpc_status c m"
  by (simp add: status_of_def)

lemma servers_report_statuses:
  "server_Resolve links q w = Some (Inl e, w') \<Longrightarrow> \<exists>c m. e = Rpc_status c m"
  "server_CreateShortLink links q1 w = Some (Inl e, w') \<Longrightarrow> \<exists>c m. e = Rpc_status c m"
  "server_GetLinkStats stats q2 w = Some (Inl e, w') \<Longrightarrow> \<exists>c m. e = Rpc_status c m"
  by (auto simp: server_Resolve_def server_CreateShortLink_def server_GetLinkStats_def status_of_status
      split: prod.splits sum.splits option.splits)

lemma client_Resolve_error:
  assumes "remote (server_Resolve links) (gw_Resolve c)" and "client_Resolve c code w = (Inl e, w')"
  shows "error_answer (writeError e)"
  using assms(2) remote_error [OF assms(1) _ servers_report_statuses(1)]
  by (auto simp: client_Resolve_def split: prod.splits sum.splits)

lemma client_CreateShortLink_error:
  assumes "remote (server_CreateShortLink links) (gw_CreateShortLink c)" and "client_CreateShortLink c req w = (Inl e, w')"
  shows "error_answer (writeError e)"
  using assms(2) remote_error [OF assms(1) _ servers_report_statuses(2)]
  by (auto simp: client_CreateShortLink_def split: prod.splits sum.splits)

lemma client_GetLinkStats_error:
  assumes "remote (server_GetLinkStats stats) (gw_GetLinkStats c)" and "client_GetLinkStats c code w = (Inl e, w')"
  shows "error_answer (writeError e)"
  using assms(2) remote_error [OF assms(1) _ servers_report_statuses(3)]
  by (auto simp: client_GetLinkStats_def split: prod.splits sum.splits)

text \<open>The target of a redirect is carried over whatever the times of the link are.\<close>

lemma client_Resolve_url:
  assumes "remote (server_Resolve links) (gw_Resolve c)" and "client_Resolve c code w = (Inr item, w')"
  shows "\<exists>it. la_Resolve links code w = (Inr it, w') \<and> sl_LongURL item = sl_LongURL it"
proof -
  obtain resp where stub: "gw_Resolve c (withTimeout c) \<lparr>pq_Code = code\<rparr> w = (Inr resp, w')"
      and item: "item = fromShortLinkMessage (pi_Item resp)"
    using assms(2) by (auto simp: client_Resolve_def split: prod.splits sum.splits)
  obtain v w1 where v: "la_Resolve links code w = (v, w1)" by fastforce
  with remote.answered [OF assms(1) stub] obtain it where it: "v = Inr it"
    by (cases v) (simp_all add: server_Resolve_def)
  with v remote.answered [OF assms(1) stub] have "la_Resolve links code w = (Inr it, w')"
      "resp = \<lparr>pi_Item = Some (toShortLinkMessage it)\<rparr>"
    by (simp_all add: server_Resolve_def)
  then show ?thesis unfolding item by (simp add: fromShortLinkMessage_def toShortLinkMessage_def)
qed

lemma client_Resolve_kind:
  assumes "remote (server_Resolve links) (gw_Resolve c)" and "client_Resolve c code w = (Inl e, w')"
    and "e \<in> {ErrNotFound, ErrExpired}"
  shows "\<exists>e1. la_Resolve links code w = (Inl e1, w') \<and> errors_Is e1 e"
proof -
  have "\<not> rpc_failure e" using rpc_failure_kinds assms(3) by blast
  with client_Resolve_result [OF assms(1,2)] obtain v1 where v1: "la_Resolve links code w = (v1, w')"
      "(\<forall>item. v1 = Inr item \<longrightarrow> go_link item) \<longrightarrow> Inl e = relay v1"
    by (auto simp: call_failed_def)
  show ?thesis
  proof (cases v1)
    case (Inl e1)
    with v1(2) have "error_of_status (status_of e1) = e" by simp
    with assms(3) have "errors_Is e1 e"
      using domain_error_seen [of e1 e] by (auto simp: domain_errors_def)
    with v1(1) Inl show ?thesis by blast
  next
    case (Inr it)
    obtain err where stub: "gw_Resolve c (withTimeout c) \<lparr>pq_Code = code\<rparr> w = (Inl err, w')"
        and e: "e = error_of_status err"
      using assms(2) by (auto simp: client_Resolve_def split: prod.splits sum.splits)
    from remote.refused [OF assms(1) stub] have "rpc_failure e"
      using v1(1) Inr e by (auto simp: server_Resolve_def rpc_failure_def)
    with \<open>\<not> rpc_failure e\<close> show ?thesis by blast
  qed
qed

lemma writeError_kind:
  "ha_Status (writeError e) = StatusNotFound \<Longrightarrow> errors_Is e ErrNotFound"
  "ha_Status (writeError e) = StatusGone \<Longrightarrow> errors_Is e ErrExpired"
  by (auto simp: writeError_def status_defs split: if_splits)

lemma errors_Is_seen:
  assumes "remote (server_Resolve links) (gw_Resolve c)" and "client_Resolve c code w = (Inl e, w')"
    and "errors_Is e s" and "s \<in> {ErrNotFound, ErrExpired}"
  shows "e = s"
proof -
  obtain err where stub: "gw_Resolve c (withTimeout c) \<lparr>pq_Code = code\<rparr> w = (Inl err, w')" and e: "e = error_of_status err"
    using assms(2) by (auto simp: client_Resolve_def split: prod.splits sum.splits)
  obtain k m where "err = Rpc_status k m"
    using remote.refused [OF assms(1) stub] servers_report_statuses(1) [of links "\<lparr>pq_Code = code\<rparr>" w err w'] by metis
  with e have "e = error_of_status (Rpc_status k m)" by simp
  with assms(3,4) show ?thesis by (cases k) (auto simp: error_of_status_def rpc_as_error_def split: if_splits)
qed

section \<open>Properties\<close>

text \<open>
  C4 (safety). From the request to the database: with every step a process can reach the service's
  state by, the gateway redirects only to the long URL of a link whose code equals the trimmed code for the
  database (exactly under a case-sensitive collation, up to case under that of the migrations), that is
  active and was unexpired when the call or the load it shares began, and is a row of the database, unless
  that row has expired meanwhile; it answers 404 or 410 only when
  the service said so, never because a call failed; a failure to record the visit changes nothing.
\<close>

theorem http_redirect_database:
  assumes "db_laws nf tb ok D" and "redis_laws db R" and "json_faithful J" and "mono now"
    and "flight_law (node_ok nf tb ok D db J now) (since_of now) (latest_of now) (coherent nf tb now) flights"
    and "ok d" and "keyed_by_code J (db r)"
    and "\<forall>c it. cached_in J (db r) c = Some it \<longrightarrow> coherent nf tb now (start_node now D gen d r) it"
    and S: "S = the_service ids now D R f J domain flights parser"
    and "(system_step S (others_step nf tb ok db J now))\<^sup>*\<^sup>* (start_node now D gen d r) w"
    and net: "remote (server_Resolve (service_api S)) (gw_Resolve client)"
    and http: "http_redirect (gateway_api client) recorder req w = (answer, w')"
    and code: "code = TrimSpace (hv_code req)"
  shows "(ha_Status answer = StatusFound \<longrightarrow> (\<exists>it w1. ha_Body answer = Body_location (sl_LongURL it) \<and>
      Resolve S code w = (Inr it, w1) \<and> db_text_eq D (sl_Code it) code \<and> IsActive it (now (nd_oldest w)) \<and>
      (\<exists>row \<in> {shortLinkToRecord it, nf (shortLinkToRecord it)}.
        (\<exists>t \<in> set shard_tables. row \<in> tb (nd_db w1) t) \<or> expired_by (now (nd_reads w1)) row))) \<and>
    (ha_Status answer = StatusNotFound \<longrightarrow> (\<exists>e. fst (Resolve S code w) = Inl e \<and> errors_Is e ErrNotFound)) \<and>
    (ha_Status answer = StatusGone \<longrightarrow> (\<exists>e. fst (Resolve S code w) = Inl e \<and> errors_Is e ErrExpired)) \<and>
    (\<forall>other. fst (http_redirect (gateway_api client) other req w) = answer)"
proof -
  have parts: "node_parts nf tb ok D db R J now flights"
    using assms(1-5) by (intro node_parts.intro) blast+
  have start: "node_ok nf tb ok D db J now (start_node now D gen d r)"
    by (rule start_node_ok) (use assms(6-8) in blast)+
  note ok = node_parts.system_run_ok [OF parts assms(10) [unfolded S] start]
  obtain v w1 where call: "client_Resolve client code w = (v, w1)" by fastforce
  have answer: "fst (http_redirect (gateway_api client) other req w) =
      (case v of Inl e \<Rightarrow> writeError e | Inr item \<Rightarrow> \<lparr>ha_Status = StatusFound, ha_Body = Body_location (sl_LongURL item)\<rparr>)" for other
    using call by (simp add: http_redirect_def gateway_api_def code split: sum.splits)
  show ?thesis
  proof (cases v)
    case (Inl e)
    have a: "answer = writeError e" using answer [of recorder] http Inl by simp
    have "\<exists>e1. fst (Resolve S code w) = Inl e1 \<and> errors_Is e1 s" if "s \<in> {ErrNotFound, ErrExpired}" "errors_Is e s" for s
      using client_Resolve_kind [OF net call [unfolded Inl]] errors_Is_seen [OF net call [unfolded Inl] that(2,1)] that(1)
      by (auto simp: service_api_def)
    then show ?thesis
      using writeError_status [of e] writeError_kind [of e] answer Inl unfolding a by (auto simp: status_defs)
  next
    case (Inr item)
    from client_Resolve_url [OF net call [unfolded Inr]] obtain it where
      it: "Resolve S code w = (Inr it, w1)" "sl_LongURL item = sl_LongURL it"
      by (auto simp: service_api_def)
    have a: "answer = \<lparr>ha_Status = StatusFound, ha_Body = Body_location (sl_LongURL it)\<rparr>"
      using answer [of recorder] http Inr it(2) by simp
    from node_parts.Resolve_vouched [OF parts ok it(1) [unfolded S]]
    have "db_text_eq D (sl_Code it) code \<and> IsActive it (now (nd_oldest w)) \<and>
      (\<exists>row \<in> {shortLinkToRecord it, nf (shortLinkToRecord it)}.
        (\<exists>t \<in> set shard_tables. row \<in> tb (nd_db w1) t) \<or> expired_by (now (nd_reads w1)) row)"
      by (auto simp: coherent_def stored_forms_def since_of_def)
    with it answer Inr show ?thesis unfolding a by (auto simp: status_defs)
  qed
qed

text \<open>The gateway before the sample node, every call delivered.\<close>

definition delivered_client :: "'w link_api \<Rightarrow> (unit, 'w) GatewayClient" where
  "delivered_client links = \<lparr>gw_linkConn = None, gw_redirectConn = None, gw_statsConn = None,
     gw_CreateShortLink = network (\<lambda>t q w. Delivered) (server_CreateShortLink links),
     gw_Resolve = network (\<lambda>t q w. Delivered) (server_Resolve links),
     gw_GetLinkStats = network (\<lambda>t q w. Delivered) (server_GetLinkStats (\<lambda>code w. (Inl ErrNotFound, w))),
     gw_RecordVisit = network (\<lambda>t q w. Delivered) (server_RecordVisit (\<lambda>event w. (None, w))),
     gw_timeout = 0\<rparr>"

lemma delivered_client_remote:
  "remote (server_Resolve links) (gw_Resolve (delivered_client links))"
  "remote (server_CreateShortLink links) (gw_CreateShortLink (delivered_client links))"
  "remote (server_GetLinkStats (\<lambda>code w. (Inl ErrNotFound, w))) (gw_GetLinkStats (delivered_client links))"
  by (simp_all add: delivered_client_def network_remote)

definition sample_visit :: visit_request where
  "sample_visit = \<lparr>hv_code = NewShortCode 7, hv_ClientIP = [], hv_UserAgent = [], hv_Referer = []\<rparr>"

lemma http_redirect_database_witness:
  "\<exists>it w1. ha_Body (fst (http_redirect (gateway_api (delivered_client (service_api sample_service))) None sample_visit sample_node)) =
      Body_location (sl_LongURL it) \<and>
    Resolve sample_service (NewShortCode 7) sample_node = (Inr it, w1) \<and> IsActive it (node_clock (nd_oldest sample_node))"
proof -
  let ?J = "one_link_codec sample_link" and ?c = "NewShortCode 7"
  let ?client = "delivered_client (service_api sample_service)"
  have json: "json_faithful ?J" by (auto simp: json_faithful_def encodable_def one_link_codec_def)
  have clock: "mono node_clock" by (auto simp: mono_def node_clock_def)
  have keys: "keyed_by_code ?J sample_keys" by (simp add: keyed_by_code_def sample_keys_cached)
  have cached: "\<forall>c it. cached_in ?J sample_keys c = Some it \<longrightarrow>
      coherent (\<lambda>r. r) mem_tb node_clock (start_node node_clock text_db sample_gen sample_db sample_keys) it"
    by (simp add: sample_keys_cached)
  have code: "?c = TrimSpace (hv_code sample_visit)" by (simp add: sample_visit_def TrimSpace_NewShortCode)
  obtain it w1 where run: "Resolve sample_service ?c sample_node = (Inr it, w1)"
    using sample_resolves by (metis prod.collapse)
  obtain answer w' where http: "http_redirect (gateway_api ?client) None sample_visit sample_node = (answer, w')" by fastforce
  then have "ha_Status answer = StatusFound"
    using run unfolding http_redirect_def code [symmetric]
    by (auto simp: gateway_api_def client_Resolve_def delivered_client_def network_def server_Resolve_def service_api_def)
  with conjunct1 [OF http_redirect_database [OF text_db_laws mem_redis_laws json clock one_caller_law sample_db_ok keys cached
      sample_service_def rtranclp.rtrancl_refl delivered_client_remote(1) http [unfolded sample_node_def] code]]
  show ?thesis using http unfolding sample_node_def by auto
qed

text \<open>
  C37 (type). What the gateway answers has the form its status says: 201 a created link, 200
  statistics, 302 a location, every other status an error text from a fixed list, and 500 always
  the same one, so that no message of the database, of Redis or of gRPC reaches a caller. Every
  handler answers.
\<close>

theorem http_answers_typed:
  assumes "remote (server_Resolve links) (gw_Resolve client)"
    and "remote (server_CreateShortLink links) (gw_CreateShortLink client)"
    and "remote (server_GetLinkStats stats) (gw_GetLinkStats client)"
  shows "(\<exists>a w1. http_createShortLink (gateway_api client) bind body w = Some (a, w1) \<and>
      (error_answer a \<or> ha_Status a = StatusCreated \<and> (\<exists>resp. ha_Body a = Body_created resp))) \<and>
    (let a = fst (http_getLinkStats (client_GetLinkStats client) param w)
     in error_answer a \<or> ha_Status a = StatusOK \<and> (\<exists>s. ha_Body a = Body_stats s)) \<and>
    (let a = fst (http_redirect (gateway_api client) recorder req w)
     in error_answer a \<or> ha_Status a = StatusFound \<and> (\<exists>url. ha_Body a = Body_location url))"
proof (intro conjI)
  have bad: "error_answer \<lparr>ha_Status = StatusBadRequest, ha_Body = Body_error ''invalid json body''\<rparr>"
    by (simp add: error_answer_def)
  show "\<exists>a w1. http_createShortLink (gateway_api client) bind body w = Some (a, w1) \<and>
      (error_answer a \<or> ha_Status a = StatusCreated \<and> (\<exists>resp. ha_Body a = Body_created resp))"
    using bad client_CreateShortLink_error [OF assms(2)]
    by (fastforce simp: http_createShortLink_def gateway_api_def split: sum.splits prod.splits)
  show "let a = fst (http_getLinkStats (client_GetLinkStats client) param w)
     in error_answer a \<or> ha_Status a = StatusOK \<and> (\<exists>s. ha_Body a = Body_stats s)"
    using client_GetLinkStats_error [OF assms(3)]
    by (auto simp: http_getLinkStats_def Let_def split: sum.splits prod.splits)
  show "let a = fst (http_redirect (gateway_api client) recorder req w)
     in error_answer a \<or> ha_Status a = StatusFound \<and> (\<exists>url. ha_Body a = Body_location url)"
    using client_Resolve_error [OF assms(1)]
    by (auto simp: http_redirect_def gateway_api_def Let_def split: sum.splits prod.splits)
qed

lemma http_answers_typed_witness:
  "(let a = fst (http_getLinkStats (client_GetLinkStats (delivered_client (service_api bare_service))) [] ())
    in error_answer a \<or> ha_Status a = StatusOK)"
  using http_answers_typed [OF delivered_client_remote, where param = "[]" and w = "()"
      and links = "service_api bare_service", THEN conjunct2, THEN conjunct1]
  unfolding Let_def by blast

end
