(* ===== verification/End_To_End.thy ===== *)
theory End_To_End
  imports Http_Api
begin

text \<open>
  The deployment: \<open>linksvc\<close> and \<open>redirectsvc\<close> are two processes with caches, generators, cleaners and
  clocks of their own over one database and one Redis; the gateway's client calls the first to
  create links and the second to resolve them.
\<close>

section \<open>Two processes\<close>

text \<open>
  The shared parts are kept in the record of the process that acts and copied to the other. So is the
  number of readings: \<open>now1 k\<close> and \<open>now2 k\<close> are what the clocks of the two processes show after
  the \<open>k\<close>-th reading of either.
\<close>

record ('d, 'r) cluster =
  cl_linksvc :: "('d, 'r) node"
  cl_redirectsvc :: "('d, 'r) node"

definition share :: "('d, 'r) node \<Rightarrow> ('d, 'r) node \<Rightarrow> ('d, 'r) node" where
  "share w other = other\<lparr>nd_db := nd_db w, nd_redis := nd_redis w, nd_reads := nd_reads w\<rparr>"

definition at_linksvc :: "('d, 'r) node \<Rightarrow> ('d, 'r) cluster \<Rightarrow> ('d, 'r) cluster" where
  "at_linksvc w c = \<lparr>cl_linksvc = w, cl_redirectsvc = share w (cl_redirectsvc c)\<rparr>"

definition at_redirectsvc :: "('d, 'r) node \<Rightarrow> ('d, 'r) cluster \<Rightarrow> ('d, 'r) cluster" where
  "at_redirectsvc w c = \<lparr>cl_linksvc = share w (cl_linksvc c), cl_redirectsvc = w\<rparr>"

text \<open>Each server holds its process's service; it is asked only for the operations it registers.\<close>

definition linksvc_api :: "('d, 'r) node Service \<Rightarrow> ('d, 'r) cluster link_api" where
  "linksvc_api S = \<lparr>
     la_CreateShortLink = (\<lambda>req c. case CreateShortLink S req (cl_linksvc c) of
        None \<Rightarrow> None | Some (v, w) \<Rightarrow> Some (v, at_linksvc w c)),
     la_Resolve = (\<lambda>code c. case Resolve S code (cl_linksvc c) of (v, w) \<Rightarrow> (v, at_linksvc w c))\<rparr>"

definition redirectsvc_api :: "('d, 'r) node Service \<Rightarrow> ('d, 'r) cluster link_api" where
  "redirectsvc_api S = \<lparr>
     la_CreateShortLink = (\<lambda>req c. case CreateShortLink S req (cl_redirectsvc c) of
        None \<Rightarrow> None | Some (v, w) \<Rightarrow> Some (v, at_redirectsvc w c)),
     la_Resolve = (\<lambda>code c. case Resolve S code (cl_redirectsvc c) of (v, w) \<Rightarrow> (v, at_redirectsvc w c))\<rparr>"

definition linksvc ::
  "clock \<Rightarrow> 'd link_db \<Rightarrow> 'r redis \<Rightarrow> RedisBloom \<Rightarrow> codec \<Rightarrow> string \<Rightarrow> url_parser \<Rightarrow> ('d, 'r) node Service" where
  "linksvc now D R f J domain parser = the_service True now D R f J domain one_caller parser"

definition redirectsvc ::
  "clock \<Rightarrow> 'd link_db \<Rightarrow> 'r redis \<Rightarrow> RedisBloom \<Rightarrow> codec \<Rightarrow> string \<Rightarrow> url_parser \<Rightarrow> ('d, 'r) node Service" where
  "redirectsvc now D R f J domain parser = the_service False now D R f J domain one_caller parser"

section \<open>From the creation to the redirect\<close>

text \<open>A created code comes from the service, with a state of the cluster in which both processes share what it wrote.\<close>

lemma http_created:
  assumes net: "remote (server_CreateShortLink (linksvc_api S)) (gw_CreateShortLink client)"
    and http: "http_createShortLink (gateway_api client) bind body c = Some (a, c1)" and made: "ha_Body a = Body_created resp"
  shows "\<exists>req sreq sresp w1. bind body = Inr req \<and> CreateShortLink S sreq (cl_linksvc c) = Some (Inr sresp, w1) \<and>
    rs_Code sresp = rs_Code resp \<and> (cr_ExpireAt sreq = None \<longleftrightarrow> hq_ExpireAt req = None) \<and> c1 = at_linksvc w1 c"
proof -
  obtain req where req: "bind body = Inr req" using http made by (cases "bind body") (auto simp: http_createShortLink_def)
  let ?cr = "\<lparr>cr_LongURL = hq_LongURL req, cr_Domain = hq_Domain req, cr_ExpireAt = hq_ExpireAt req\<rparr>"
  obtain v c' where call: "client_CreateShortLink client ?cr c = (v, c')" by fastforce
  have v: "v = Inr resp" "c' = c1"
    using http made req call by (cases v; auto simp: http_createShortLink_def gateway_api_def writeError_def split: if_splits)+
  let ?q = "\<lparr>pc_LongUrl = hq_LongURL req, pc_Domain = hq_Domain req, pc_ExpireAt = toTimestamp (hq_ExpireAt req)\<rparr>"
  obtain p where stub: "gw_CreateShortLink client (withTimeout client) ?q c = (Inr p, c1)" and code: "pr_Code p = rs_Code resp"
    using call v by (auto simp: client_CreateShortLink_def split: prod.splits sum.splits)
  let ?sreq = "\<lparr>cr_LongURL = hq_LongURL req, cr_Domain = hq_Domain req, cr_ExpireAt = fromTimestampPtr (toTimestamp (hq_ExpireAt req))\<rparr>"
  from remote.answered [OF net stub] obtain sresp w1 where
    "CreateShortLink S ?sreq (cl_linksvc c) = Some (Inr sresp, w1)" "c1 = at_linksvc w1 c" "p = \<lparr>pr_Code = rs_Code sresp,
      pr_ShortUrl = rs_ShortURL sresp, pr_LongUrl = rs_LongURL sresp, pr_ExpireAt = toTimestamp (rs_ExpireAt sresp)\<rparr>"
    by (auto simp: server_CreateShortLink_def linksvc_api_def split: option.splits prod.splits sum.splits)
  moreover have "cr_ExpireAt ?sreq = None \<longleftrightarrow> hq_ExpireAt req = None"
    by (cases "hq_ExpireAt req") (simp_all add: toTimestamp_def fromTimestampPtr_def)
  ultimately show ?thesis using req code by (intro exI [of _ req] exI [of _ ?sreq] exI [of _ sresp] exI [of _ w1]) simp
qed

lemma rpc_failure_status: "rpc_failure e \<Longrightarrow> ha_Status (writeError e) = StatusInternalServerError"
  by (auto simp: rpc_failure_def transport_codes_def error_of_status_def rpc_as_error_def writeError_def)

lemma seen_status:
  assumes "\<not> errors_Is e ErrNotFound" and "\<not> errors_Is e ErrInvalidCode" and "\<not> errors_Is e ErrInvalidURL"
  shows "ha_Status (writeError (error_of_status (status_of e))) =
    (if errors_Is e ErrExpired then StatusGone else StatusInternalServerError)"
  using assms by (simp add: status_of_def error_of_status_def rpc_as_error_def writeError_def)

text \<open>What the client sees of a resolution: its result as carried over, or a failure of the call.\<close>

lemma client_Resolve_seen:
  assumes "remote (server_Resolve links) (gw_Resolve client)" and "client_Resolve client code w = (Inl e, w')"
    and "fst (la_Resolve links code w) = v"
  shows "rpc_failure e \<or> (\<exists>e1. v = Inl e1 \<and> e = error_of_status (status_of e1))"
proof -
  obtain err where stub: "gw_Resolve client (withTimeout client) \<lparr>pq_Code = code\<rparr> w = (Inl err, w')" and e: "e = error_of_status err"
    using assms(2) by (auto simp: client_Resolve_def split: prod.splits sum.splits)
  from remote.refused [OF assms(1) stub] show ?thesis
    using assms(3) e by (auto simp: server_Resolve_def rpc_failure_def split: prod.splits sum.splits)
qed

text \<open>The errors of the domain, plain or wrapped.\<close>

definition domain_kind :: "go_error \<Rightarrow> bool" where
  "domain_kind e \<longleftrightarrow> (\<exists>s \<in> set domain_errors. errors_Is e s)"

text \<open>
  What following a code answers, when the service that is asked does not answer with a failure that
  names the link; \<open>expires\<close>: the service may say that it has expired.
\<close>

definition link_failures :: "bool \<Rightarrow> go_error set" where
  "link_failures expires = {e. errors_Is e ErrNotFound \<or> errors_Is e ErrInvalidCode \<or> errors_Is e ErrInvalidURL \<or>
     errors_Is e ErrExpired \<and> \<not> expires}"

lemma no_link_failures:
  assumes "\<forall>t P d e. fst (db_first D t P d) = Inl e \<longrightarrow> \<not> domain_kind e"
  shows "\<forall>t P d. fst (db_first D t P d) \<notin> Inl ` link_failures x"
  using assms unfolding link_failures_def domain_kind_def domain_errors_def by fastforce

lemma followed_answer:
  assumes net: "remote (server_Resolve (redirectsvc_api S)) (gw_Resolve client)"
    and follow: "http_redirect (gateway_api client) recorder req c = (answer, c2)" "TrimSpace (hv_code req) = code"
    and resolve: "fst (Resolve S code (cl_redirectsvc c)) \<notin> Inl ` link_failures expires"
  shows "ha_Status answer \<in> {StatusFound, StatusGone, StatusInternalServerError} \<and>
    (ha_Status answer = StatusGone \<longrightarrow> expires)"
proof -
  obtain u c' where call: "client_Resolve client code c = (u, c')" by fastforce
  have answer: "answer = (case u of Inl e \<Rightarrow> writeError e
      | Inr it \<Rightarrow> \<lparr>ha_Status = StatusFound, ha_Body = Body_location (sl_LongURL it)\<rparr>)"
    using follow call by (auto simp: http_redirect_def gateway_api_def split: sum.splits)
  show ?thesis
  proof (cases u)
    case (Inr it)
    then show ?thesis by (simp add: answer status_defs)
  next
    case (Inl e)
    have "fst (la_Resolve (redirectsvc_api S) code c) = fst (Resolve S code (cl_redirectsvc c))"
      by (simp add: redirectsvc_api_def split: prod.splits)
    from client_Resolve_seen [OF net call [unfolded Inl] this] show ?thesis
    proof (elim disjE exE conjE)
      assume "rpc_failure e"
      then show ?thesis using rpc_failure_status [of e] by (simp add: answer Inl status_defs)
    next
      fix e1 assume "fst (Resolve S code (cl_redirectsvc c)) = Inl e1" and e: "e = error_of_status (status_of e1)"
      with resolve have e1: "e1 \<notin> link_failures expires" by auto
      then show ?thesis using seen_status [of e1] by (auto simp: link_failures_def answer Inl e status_defs)
    qed
  qed
qed

section \<open>Properties\<close>

text \<open>
  A link that the gateway reports as created can be followed at once, through the other
  process: the answer to its code is a redirect, unless the link has an expiry that has passed (410) or
  something fails (500); it is never that the link is missing or the code invalid.
\<close>

theorem created_link_redirects:
  assumes "db_laws nf tb ok D" and "redis_laws db R" and "ok (nd_db (cl_linksvc c))"
    and f: "rb_key f \<noteq> []" "persistent (db (nd_redis (cl_linksvc c))) (rb_key f)" "\<forall>code. LinkKey code \<noteq> rb_key f"
    and errors: "\<forall>t P d e. fst (db_first D t P d) = Inl e \<longrightarrow> \<not> domain_kind e"
    and nets: "remote (server_CreateShortLink (linksvc_api (linksvc now1 D R f J domain parser))) (gw_CreateShortLink client)"
      "remote (server_Resolve (redirectsvc_api (redirectsvc now2 D R f J domain parser))) (gw_Resolve client)"
    and create: "http_createShortLink (gateway_api client) bind body c = Some (a, c1)" "ha_Body a = Body_created resp"
    and follow: "http_redirect (gateway_api client) recorder req c1 = (answer, c2)" "TrimSpace (hv_code req) = rs_Code resp"
  shows "ha_Status answer \<in> {StatusFound, StatusGone, StatusInternalServerError} \<and>
    (ha_Status answer = StatusGone \<longrightarrow> (\<exists>r t. bind body = Inr r \<and> hq_ExpireAt r = Some t))"
proof -
  let ?L = "linksvc now1 D R f J domain parser" and ?R = "redirectsvc now2 D R f J domain parser"
  from http_created [OF nets(1) create] obtain r sreq sresp w1 where r: "bind body = Inr r"
    and made: "CreateShortLink ?L sreq (cl_linksvc c) = Some (Inr sresp, w1)" "rs_Code sresp = rs_Code resp"
    and expiry: "cr_ExpireAt sreq = None \<longleftrightarrow> hq_ExpireAt r = None" and c1: "c1 = at_linksvc w1 c"
    by (elim exE conjE) (rule that)
  from created_state [OF assms(1-3) f linksvc_def made(1)] obtain item where
    item: "valid_item item" "sl_Status item = ShortLinkStatusActive" "ok (nd_db w1)"
      "nf (shortLinkToRecord item) \<in> tb (nd_db w1) (shard_tables ! item_shard item)"
      "bloom_key (rb_key f) {sl_Code item} (db (nd_redis w1))"
    and code: "sl_Code item = rs_Code resp" and exp: "sl_ExpireAt item = cr_ExpireAt sreq"
    using made(2) by auto
  let ?expires = "hq_ExpireAt r \<noteq> None" and ?w = "cl_redirectsvc c1"
  have w: "nd_db ?w = nd_db w1" "nd_redis ?w = nd_redis w1" by (simp_all add: c1 at_linksvc_def share_def)
  obtain v w2 where resolve: "Resolve ?R (rs_Code resp) ?w = (v, w2)" by fastforce
  have "ErrExpired \<in> link_failures ?expires \<longrightarrow> sl_ExpireAt item = None" using expiry exp by (simp add: link_failures_def)
  then have "v \<notin> Inl ` link_failures ?expires"
    using stored_link_answer [OF assms(1,2) f(1) item(1,2) _ _ _ _ no_link_failures [OF errors] redirectsvc_def resolve [folded code]]
      item(3-5) w by metis
  then have "fst (Resolve ?R (rs_Code resp) ?w) \<notin> Inl ` link_failures ?expires" by (simp add: resolve)
  from followed_answer [OF nets(2) follow this] r show ?thesis by auto
qed

text \<open>Both processes over the empty database and Redis in memory, every call delivered.\<close>

definition sample_linksvc :: "(mem_db, keyspace) node Service" where
  "sample_linksvc = linksvc node_clock text_db mem_redis node_bloom (one_link_codec sample_link) ''http://a'' sample_parser"

definition sample_redirectsvc :: "(mem_db, keyspace) node Service" where
  "sample_redirectsvc = redirectsvc node_clock text_db mem_redis node_bloom (one_link_codec sample_link) ''http://a'' sample_parser"

definition cluster_client :: "(unit, (mem_db, keyspace) cluster) GatewayClient" where
  "cluster_client = (delivered_client (linksvc_api sample_linksvc))\<lparr>
     gw_Resolve := network (\<lambda>t q w. Delivered) (server_Resolve (redirectsvc_api sample_redirectsvc))\<rparr>"

definition empty_cluster :: "(mem_db, keyspace) cluster" where
  "empty_cluster = \<lparr>cl_linksvc = empty_node, cl_redirectsvc = empty_node\<rparr>"

definition sample_bind :: "unit \<Rightarrow> go_error + createShortLinkRequest" where
  "sample_bind b = Inr \<lparr>hq_LongURL = ''http://a'', hq_Domain = [], hq_ExpireAt = None\<rparr>"

lemma created_code:
  assumes "CreateShortLink s req w = Some (Inr resp, w')"
  shows "\<exists>n. rs_Code resp = NewShortCode n"
proof -
  obtain t w1 where "sv_now s w = (t, w1)" by fastforce
  from CreateShortLink_stores [OF assms CreateShortLink_valid [OF assms] this]
  obtain n w2 item where "store_link s item w2 = (Inr resp, w')" "sl_Code item = NewShortCode n" by metis
  then have "rs_Code resp = NewShortCode n" by (auto simp: store_link_def split: option.splits prod.splits)
  then show ?thesis ..
qed

lemma sample_http_create:
  "\<exists>a c1 resp n. http_createShortLink (gateway_api cluster_client) sample_bind () empty_cluster = Some (a, c1) \<and>
    ha_Body a = Body_created resp \<and> rs_Code resp = NewShortCode n"
proof -
  obtain resp w' where run: "CreateShortLink sample_linksvc sample_request empty_node = Some (Inr resp, w')"
    using create_in_empty_node by (auto simp: sample_service_def sample_linksvc_def linksvc_def)
  from created_code [OF run] obtain n where "rs_Code resp = NewShortCode n" ..
  with run show ?thesis
    by (auto simp: http_createShortLink_def gateway_api_def client_CreateShortLink_def cluster_client_def delivered_client_def
        network_def server_CreateShortLink_def linksvc_api_def empty_cluster_def sample_bind_def sample_request_def
        toTimestamp_def fromTimestampPtr_def)
qed

lemma created_link_redirects_witness:
  "\<exists>a c1 resp. http_createShortLink (gateway_api cluster_client) sample_bind () empty_cluster = Some (a, c1) \<and>
    ha_Body a = Body_created resp \<and>
    ha_Status (fst (http_redirect (gateway_api cluster_client) None
      \<lparr>hv_code = rs_Code resp, hv_ClientIP = [], hv_UserAgent = [], hv_Referer = []\<rparr> c1)) \<in> {StatusFound, StatusInternalServerError}"
proof -
  obtain a c1 resp n where create: "http_createShortLink (gateway_api cluster_client) sample_bind () empty_cluster = Some (a, c1)"
      "ha_Body a = Body_created resp" and code: "rs_Code resp = NewShortCode n" using sample_http_create by blast
  let ?visit = "\<lparr>hv_code = rs_Code resp, hv_ClientIP = [], hv_UserAgent = [], hv_Referer = []\<rparr>"
  obtain answer c2 where follow: "http_redirect (gateway_api cluster_client) None ?visit c1 = (answer, c2)" by fastforce
  have node: "mem_ok (=) (nd_db (cl_linksvc empty_cluster))"
    "persistent (nd_redis (cl_linksvc empty_cluster)) (rb_key node_bloom)"
    by (simp_all add: empty_cluster_def empty_node_def start_node_def persistent_def)
  have errors: "\<forall>t P d e. fst (db_first text_db t P d) = Inl e \<longrightarrow> \<not> domain_kind e"
    by (auto simp: text_db_def mem_link_db_def domain_kind_def domain_errors_def split: option.splits)
  have keys: "\<forall>c. LinkKey c \<noteq> rb_key node_bloom" using LinkKey_not_bloom by blast
  have nets: "remote (server_CreateShortLink (linksvc_api sample_linksvc)) (gw_CreateShortLink cluster_client)"
    "remote (server_Resolve (redirectsvc_api sample_redirectsvc)) (gw_Resolve cluster_client)"
    by (simp_all add: cluster_client_def delivered_client_def network_remote)
  have "TrimSpace (hv_code ?visit) = rs_Code resp" by (simp add: code TrimSpace_NewShortCode)
  from created_link_redirects [OF text_db_laws mem_redis_laws node(1) bloom_key_set(1) node(2) keys errors
      nets [unfolded sample_linksvc_def sample_redirectsvc_def] create follow this]
  have "ha_Status answer \<in> {StatusFound, StatusInternalServerError}" by (auto simp: sample_bind_def)
  with create follow show ?thesis by (intro exI [of _ a] exI [of _ c1] exI [of _ resp]) simp
qed

end
