(* ===== verification/Bloom_Race.thy ===== *)
theory Bloom_Race
  imports Filters
begin

text \<open>
  The Bloom filter with several processes: link services that create links (\<open>CreateShortLink\<close>
  stores the row and then calls \<open>RedisBloom.Add\<close>) while the worker runs \<open>RedisBloom.Rebuild\<close>.
  A state holds the active codes of the database, the Redis state, how far the creation of each
  code has come, and how far the rebuild has come. A step is one Redis command of one process, the
  very command the sequential definitions of \<open>Filters\<close> execute at that point. The listing of
  codes is seen through its contract: it hands over, in batches, at least every code that was
  active when it began.
\<close>

section \<open>The processes\<close>

datatype add_phase = AIdle | AStored | AKeys "string list" | ADone | AFailed

datatype rebuild_phase =
    RIdle | RMarked string | RListing string "string set" | RFailed string | RDropped

record 'r race =
  rc_store :: "string set"
  rc_redis :: 'r
  rc_adders :: "string \<Rightarrow> add_phase"
  rc_rebuild :: rebuild_phase

definition set_adder :: "string \<Rightarrow> add_phase \<Rightarrow> 'r \<Rightarrow> 'r race \<Rightarrow> 'r race" where
  "set_adder c ph r s = s\<lparr>rc_redis := r, rc_adders := (rc_adders s)(c := ph)\<rparr>"

definition set_rebuild :: "rebuild_phase \<Rightarrow> 'r \<Rightarrow> 'r race \<Rightarrow> 'r race" where
  "set_rebuild ph r s = s\<lparr>rc_redis := r, rc_rebuild := ph\<rparr>"

text \<open>
  The first five steps are those of a creation, the rest those of the rebuild. The temporary key
  is new: its name holds the time in nanoseconds.
\<close>

inductive race_step :: "('r \<Rightarrow> keyspace) \<Rightarrow> 'r redis \<Rightarrow> RedisBloom \<Rightarrow> 'r race \<Rightarrow> 'r race \<Rightarrow> bool"
  for db R f where
  store: "rc_adders s c = AIdle \<Longrightarrow>
    race_step db R f s (set_adder c AStored (rc_redis s) s\<lparr>rc_store := insert c (rc_store s)\<rparr>)"
| get_keys: "rc_adders s c = AStored \<Longrightarrow> addKeys R f (rc_redis s) = (res, r) \<Longrightarrow>
    race_step db R f s
      (set_adder c (case res of Inr ks \<Rightarrow> AKeys (dedupeStrings ks) | Inl e \<Rightarrow> AFailed) r s)"
| add_key: "rc_adders s c = AKeys (k # ks) \<Longrightarrow> rd_BFAdd R k c (rc_redis s) = (e, r) \<Longrightarrow>
    race_step db R f s (set_adder c (case e of None \<Rightarrow> AKeys ks | Some x \<Rightarrow> AFailed) r s)"
| added: "rc_adders s c = AKeys [] \<Longrightarrow> race_step db R f s (set_adder c ADone (rc_redis s) s)"
| mark: "rc_rebuild s = RIdle \<Longrightarrow> t = rebuildTempKey f now \<Longrightarrow> db (rc_redis s) t = None \<Longrightarrow>
    rd_Set R (rb_markerKey f) t 0 (rc_redis s) = (e, r) \<Longrightarrow>
    race_step db R f s (set_rebuild (case e of None \<Rightarrow> RMarked t | Some x \<Rightarrow> RIdle) r s)"
| reserved: "rc_rebuild s = RMarked t \<Longrightarrow> reserve R f t (rc_redis s) = (e, r) \<Longrightarrow>
    race_step db R f s (set_rebuild (case e of None \<Rightarrow> RListing t (rc_store s) | Some x \<Rightarrow> RDropped) r s)"
| batch: "rc_rebuild s = RListing t todo \<Longrightarrow> addBatchToKey R t codes (rc_redis s) = (e, r) \<Longrightarrow>
    race_step db R f s
      (set_rebuild (case e of None \<Rightarrow> RListing t (todo - set codes) | Some x \<Rightarrow> RFailed t) r s)"
| list_error: "rc_rebuild s = RListing t todo \<Longrightarrow>
    race_step db R f s (set_rebuild (RFailed t) (rc_redis s) s)"
| drop_temp: "rc_rebuild s = RFailed t \<Longrightarrow> rd_Del R [t] (rc_redis s) = (e, r) \<Longrightarrow>
    race_step db R f s (set_rebuild RDropped r s)"
| unmark: "rc_rebuild s = RDropped \<Longrightarrow> rd_Del R [rb_markerKey f] (rc_redis s) = (e, r) \<Longrightarrow>
    race_step db R f s (set_rebuild RIdle r s)"
| finish: "rc_rebuild s = RListing t {} \<Longrightarrow> finishRebuild R f t (rc_redis s) = (e, r) \<Longrightarrow>
    race_step db R f s (set_rebuild RIdle r s)"

text \<open>
  A step is quiet unless it swaps the keys while some creation is between reading the keys to add
  to and its last \<open>BF.ADD\<close>.
\<close>

definition swaps :: "'r race \<Rightarrow> 'r race \<Rightarrow> bool" where
  "swaps s s' \<longleftrightarrow> (\<exists>t. rc_rebuild s = RListing t {}) \<and> rc_rebuild s' = RIdle"

definition busy :: "'r race \<Rightarrow> bool" where
  "busy s \<longleftrightarrow> (\<exists>c k ks. rc_adders s c = AKeys (k # ks))"

definition quiet_step :: "('r \<Rightarrow> keyspace) \<Rightarrow> 'r redis \<Rightarrow> RedisBloom \<Rightarrow> 'r race \<Rightarrow> 'r race \<Rightarrow> bool" where
  "quiet_step db R f s s' \<longleftrightarrow> race_step db R f s s' \<and> (swaps s s' \<longrightarrow> \<not> busy s)"

definition race_start :: "('r \<Rightarrow> keyspace) \<Rightarrow> RedisBloom \<Rightarrow> 'r race \<Rightarrow> bool" where
  "race_start db f s \<longleftrightarrow>
     (\<forall>c. rc_adders s c = AIdle \<or>
          rc_adders s c = ADone \<and> c \<in> rc_store s \<and> c \<in> bloom_items (db (rc_redis s)) (rb_key f)) \<and>
     persistent (db (rc_redis s)) (rb_key f) \<and> rc_rebuild s = RIdle"

section \<open>The invariant\<close>

text \<open>The codes that will not be added to the key any more.\<close>

definition settled :: "string \<Rightarrow> (string \<Rightarrow> add_phase) \<Rightarrow> string set" where
  "settled k adders = {c. adders c = ADone \<or> (\<exists>ks. adders c = AKeys ks \<and> k \<notin> set ks)}"

definition stored_phases :: "'r race \<Rightarrow> bool" where
  "stored_phases s \<longleftrightarrow>
     (\<forall>c. rc_adders s c = AStored \<or> rc_adders s c = ADone \<or> (\<exists>ks. rc_adders s c = AKeys ks) \<longrightarrow>
          c \<in> rc_store s)"

definition temp_keys :: "RedisBloom \<Rightarrow> string \<Rightarrow> bool" where
  "temp_keys f t \<longleftrightarrow> t \<noteq> [] \<and> t \<noteq> rb_key f \<and> t \<noteq> rb_markerKey f"

fun rebuild_inv :: "RedisBloom \<Rightarrow> (string \<Rightarrow> add_phase) \<Rightarrow> keyspace \<Rightarrow> rebuild_phase \<Rightarrow> bool" where
  "rebuild_inv f adders m RIdle = True"
| "rebuild_inv f adders m RDropped = True"
| "rebuild_inv f adders m (RFailed t) = temp_keys f t"
| "rebuild_inv f adders m (RMarked t) =
     (temp_keys f t \<and> marked (rb_markerKey f) t m \<and> bloom_key t {} m)"
| "rebuild_inv f adders m (RListing t todo) =
     (temp_keys f t \<and> marked (rb_markerKey f) t m \<and> bloom_key t (settled t adders - todo) m)"

definition race_inv :: "('r \<Rightarrow> keyspace) \<Rightarrow> RedisBloom \<Rightarrow> 'r race \<Rightarrow> bool" where
  "race_inv db f s \<longleftrightarrow>
     stored_phases s \<and> bloom_key (rb_key f) (settled (rb_key f) (rc_adders s)) (db (rc_redis s)) \<and>
     rebuild_inv f (rc_adders s) (db (rc_redis s)) (rc_rebuild s)"

lemma bloom_key_mono: "bloom_key k C m \<Longrightarrow> D \<subseteq> C \<Longrightarrow> bloom_key k D m"
  by (auto simp: bloom_key_def)

lemma rebuild_inv_evolves: "rebuild_inv f ad m ph \<Longrightarrow> evolves m m' \<Longrightarrow> rebuild_inv f ad m' ph"
  using bloom_key_evolves marked_evolves by (cases ph) auto

lemma rebuild_inv_mono:
  "rebuild_inv f ad m ph \<Longrightarrow> (\<And>k. settled k ad' \<subseteq> settled k ad) \<Longrightarrow> rebuild_inv f ad' m ph"
  using bloom_key_mono by (cases ph) (auto, metis Diff_mono subset_refl)

lemma settled_update:
  "settled k (ad(c := ph)) =
     (if ph = ADone \<or> (\<exists>ks. ph = AKeys ks \<and> k \<notin> set ks) then insert c (settled k ad) else settled k ad - {c})"
  by (auto simp: settled_def)

lemma race_start_inv: "race_start db f s \<Longrightarrow> race_inv db f s"
  unfolding race_start_def race_inv_def stored_phases_def settled_def bloom_key_def
  by (auto; metis add_phase.distinct(3,5,11) add_phase.distinct)

text \<open>A \<open>BF.ADD\<close> of any key leaves the rebuild as it is, and the key it wrote has the code.\<close>

lemma marked_bfadd: "marked k v m \<Longrightarrow> eff_bfadd k' vs m = Some m' \<Longrightarrow> marked k v m'"
  by (cases "k = k'") (auto simp: marked_def eff_bfadd_def split: option.splits prod.splits redis_value.splits)

lemma bfadd_marked:
  "redis_laws db R \<Longrightarrow> rd_BFAdd R k c r = (e, r') \<Longrightarrow> marked k' v (db r) \<Longrightarrow> marked k' v (db r')"
  by (rule write_keeps [OF redis_lawsD(9)]) (auto intro: marked_evolves marked_bfadd)

lemma bfadd_settled:
  assumes laws: "redis_laws db R" and run: "rd_BFAdd R k c r = (e, r')" and ad: "ad c = AKeys (k # ks)"
    and key: "bloom_key k' (settled k' ad - D) (db r)"
  shows "bloom_key k' (settled k' (ad(c := (case e of None \<Rightarrow> AKeys ks | Some x \<Rightarrow> AFailed))) - D) (db r')"
proof (cases "e = None \<and> k' = k")
  case True
  with bfadd_done [OF laws, of k c r r'] run key have "bloom_key k' (insert c (settled k' ad - D)) (db r')" by simp
  then show ?thesis by (rule bloom_key_mono) (auto simp: settled_update True)
next
  case False
  have "bloom_key k' (settled k' ad - D) (db r')" by (rule bfadd_keeps [OF laws run key])
  then show ?thesis
    by (rule bloom_key_mono) (use False ad in \<open>auto simp: settled_def split: option.splits if_splits\<close>)
qed

lemma inv_add_key:
  assumes laws: "redis_laws db R" and inv: "race_inv db f s" and ad: "rc_adders s c = AKeys (k # ks)"
    and run: "rd_BFAdd R k c (rc_redis s) = (e, r)"
  shows "race_inv db f (set_adder c (case e of None \<Rightarrow> AKeys ks | Some x \<Rightarrow> AFailed) r s)"
proof -
  let ?ph = "case e of None \<Rightarrow> AKeys ks | Some x \<Rightarrow> AFailed"
  note I = inv [unfolded race_inv_def]
  have "stored_phases (set_adder c ?ph r s)"
    using I ad by (auto simp: stored_phases_def set_adder_def split: option.splits)
  moreover have "bloom_key (rb_key f) (settled (rb_key f) ((rc_adders s)(c := ?ph))) (db r)"
    using bfadd_settled [where ad = "rc_adders s", OF laws run ad, of "rb_key f" "{}"] I by simp
  moreover have "rebuild_inv f ((rc_adders s)(c := ?ph)) (db r) (rc_rebuild s)"
  proof (cases "rc_rebuild s")
    case (RMarked t)
    with I bfadd_marked [OF laws run] bfadd_keeps [OF laws run] show ?thesis by simp
  next
    case (RListing t todo)
    with I bfadd_marked [OF laws run] bfadd_settled [where ad = "rc_adders s", OF laws run ad] show ?thesis by simp
  qed (use I in auto)
  ultimately show ?thesis by (simp add: race_inv_def set_adder_def)
qed

lemma inv_get_keys:
  assumes laws: "redis_laws db R" and inv: "race_inv db f s" and ad: "rc_adders s c = AStored"
    and key: "rb_key f \<noteq> []" and run: "addKeys R f (rc_redis s) = (res, r)"
  shows "race_inv db f
    (set_adder c (case res of Inr ks \<Rightarrow> AKeys (dedupeStrings ks) | Inl e \<Rightarrow> AFailed) r s)"
proof -
  let ?ph = "case res of Inr ks \<Rightarrow> AKeys (dedupeStrings ks) | Inl e \<Rightarrow> AFailed"
  note I = inv [unfolded race_inv_def]
  have ev: "evolves (db (rc_redis s)) (db r)" by (rule addKeys_result(1) [OF laws run])
  have keys: "rb_key f \<in> set ks" if "res = Inr ks" for ks
    using addKeys_result(2) [OF laws run that] .
  have temp: "t \<in> set ks" if "res = Inr ks" "marked (rb_markerKey f) t (db (rc_redis s))" "t \<noteq> []" for ks t
  proof -
    obtain v r1 where get: "rd_Get R (rb_markerKey f) (rc_redis s) = (v, r1)" by fastforce
    note law = redis_lawsD(1) [OF laws, of "rb_markerKey f", unfolded get_law_def, rule_format, OF get]
    have "evolves (db (rc_redis s)) (db r1)" using law by simp
    with that(2) have "marked (rb_markerKey f) t (db r1)" by (rule marked_evolves)
    with law that get run show ?thesis
      by (auto simp: addKeys_def marked_def split: sum.splits if_splits)
  qed
  have gone: "settled k ((rc_adders s)(c := ?ph)) \<subseteq> settled k (rc_adders s)"
    if "\<And>ks. res = Inr ks \<Longrightarrow> k \<in> set (dedupeStrings ks)" for k
    using that by (auto simp: settled_def split: sum.splits if_splits)
  have "stored_phases (set_adder c ?ph r s)"
    using I ad by (auto simp: stored_phases_def set_adder_def split: sum.splits)
  moreover have "bloom_key (rb_key f) (settled (rb_key f) ((rc_adders s)(c := ?ph))) (db r)"
    using gone [of "rb_key f"] keys key bloom_key_mono bloom_key_evolves [OF _ ev] I
    by (metis (no_types, lifting) Diff_iff dedupeStrings_set empty_iff insert_iff)
  moreover have "rebuild_inv f ((rc_adders s)(c := ?ph)) (db r) (rc_rebuild s)"
  proof (cases "rc_rebuild s")
    case (RListing t todo)
    with I have "t \<noteq> []" and "marked (rb_markerKey f) t (db (rc_redis s))" by (auto simp: temp_keys_def)
    with gone [of t] temp have "settled t ((rc_adders s)(c := ?ph)) \<subseteq> settled t (rc_adders s)"
      by (simp add: dedupeStrings_set)
    with RListing I marked_evolves [OF _ ev] bloom_key_evolves [OF _ ev] bloom_key_mono show ?thesis
      by (metis Diff_mono order_refl rebuild_inv.simps(5))
  qed (use I rebuild_inv_evolves [OF _ ev] marked_evolves [OF _ ev] bloom_key_evolves [OF _ ev] in auto)
  ultimately show ?thesis by (simp add: race_inv_def set_adder_def)
qed

text \<open>The steps of the rebuild.\<close>

lemma inv_mark:
  assumes laws: "redis_laws db R" and inv: "race_inv db f s" and f: "f = NewRedisBloom options"
    and t: "t = rebuildTempKey f now" and fresh: "db (rc_redis s) t = None"
    and run: "rd_Set R (rb_markerKey f) t 0 (rc_redis s) = (e, r)"
  shows "race_inv db f (set_rebuild (case e of None \<Rightarrow> RMarked t | Some x \<Rightarrow> RIdle) r s)"
proof -
  note I = inv [unfolded race_inv_def]
  let ?S = "settled (rb_key f) (rc_adders s)"
  note keys = NewRedisBloom_keys [OF f]
  have tk: "temp_keys f t" using keys by (auto simp: temp_keys_def t rebuildTempKey_def f NewRedisBloom_def Let_def)
  have "bloom_key (rb_key f) ?S (db r) \<and> (e = None \<longrightarrow> marked (rb_markerKey f) t (db r) \<and> bloom_key t {} (db r))"
    using redis_lawsD(2) [OF laws] run
  proof (cases rule: write_lawE)
    case (executed m)
    from executed(1) have m: "m = (db (rc_redis s))(rb_markerKey f \<mapsto> (RString t, False))"
      by (simp add: eff_set_def)
    with I keys(2) have "bloom_key (rb_key f) ?S m"
      by (auto simp: bloom_key_def persistent_def bloom_items_def)
    moreover have "marked (rb_markerKey f) t m" by (simp add: m marked_def)
    moreover have "bloom_key t {} m" using m fresh tk by (intro bloom_key_absent) (simp add: temp_keys_def)
    ultimately show ?thesis using executed(2) bloom_key_evolves marked_evolves by blast
  next
    case unexecuted
    then show ?thesis using I bloom_key_evolves by blast
  qed
  with I tk show ?thesis by (auto simp: race_inv_def set_rebuild_def stored_phases_def split: option.splits)
qed

lemma reserve_keeps:
  assumes laws: "redis_laws db R" and run: "reserve R f t r = (e, r')" and key: "bloom_key k C (db r)"
  shows "bloom_key k C (db r')"
proof -
  obtain e1 where "rd_BFReserve R t (rb_errorRate f) (rb_capacity f) r = (e1, r')"
    using run by (auto simp: reserve_def split: prod.splits option.splits)
  from redis_lawsD(12) [OF laws] this key bloom_key_evolves show ?thesis
    by (rule write_keeps)
      (auto simp: eff_reserve_def bloom_key_def persistent_def in_bloom_items subset_iff split: option.splits if_splits)
qed

lemma reserve_marked:
  assumes laws: "redis_laws db R" and run: "reserve R f t r = (e, r')" and mk: "marked k v (db r)"
  shows "marked k v (db r')"
proof -
  obtain e1 where "rd_BFReserve R t (rb_errorRate f) (rb_capacity f) r = (e1, r')"
    using run by (auto simp: reserve_def split: prod.splits option.splits)
  from redis_lawsD(12) [OF laws] this mk marked_evolves show ?thesis
    by (rule write_keeps) (auto simp: eff_reserve_def marked_def split: option.splits if_splits)
qed

lemma inv_reserved:
  assumes laws: "redis_laws db R" and inv: "race_inv db f s" and ph: "rc_rebuild s = RMarked t"
    and run: "reserve R f t (rc_redis s) = (e, r)"
  shows "race_inv db f
    (set_rebuild (case e of None \<Rightarrow> RListing t (rc_store s) | Some x \<Rightarrow> RDropped) r s)"
proof -
  note I = inv [unfolded race_inv_def ph, simplified]
  have none: "settled t (rc_adders s) - rc_store s = {}"
    using I by (auto simp: settled_def stored_phases_def)
  have "bloom_key t (settled t (rc_adders s) - rc_store s) (db r)"
    unfolding none using I reserve_keeps [OF laws run] by blast
  with I reserve_keeps [OF laws run] reserve_marked [OF laws run] show ?thesis
    by (simp add: race_inv_def set_rebuild_def stored_phases_def split: option.splits)
qed

lemma addBatch_keeps:
  assumes laws: "redis_laws db R" and run: "addBatchToKey R t codes r = (e, r')"
  shows "bloom_key k C (db r) \<Longrightarrow> bloom_key k C (db r')" and "marked k v (db r) \<Longrightarrow> marked k v (db r')"
    and "e = None \<Longrightarrow> bloom_key t C (db r) \<Longrightarrow> bloom_key t (C \<union> set codes) (db r')"
proof -
  have "(codes = [] \<and> e = None \<and> r' = r) \<or> rd_BFMAdd R t codes r = (e, r')"
    using run by (auto simp: addBatchToKey_def split: if_splits)
  moreover have "marked k v (db r')" if "rd_BFMAdd R t codes r = (e, r')" "marked k v (db r)"
    by (rule write_keeps [where Q = "marked k v", OF redis_lawsD(10) [OF laws] that])
      (auto intro: marked_evolves marked_bfadd)
  ultimately show "bloom_key k C (db r) \<Longrightarrow> bloom_key k C (db r')"
    and "marked k v (db r) \<Longrightarrow> marked k v (db r')"
    and "e = None \<Longrightarrow> bloom_key t C (db r) \<Longrightarrow> bloom_key t (C \<union> set codes) (db r')"
    using bfmadd_keeps [OF laws] bfmadd_done [OF laws] by fastforce+
qed

lemma inv_batch:
  assumes laws: "redis_laws db R" and inv: "race_inv db f s" and ph: "rc_rebuild s = RListing t todo"
    and run: "addBatchToKey R t codes (rc_redis s) = (e, r)"
  shows "race_inv db f
    (set_rebuild (case e of None \<Rightarrow> RListing t (todo - set codes) | Some x \<Rightarrow> RFailed t) r s)"
proof -
  note I = inv [unfolded race_inv_def ph, simplified]
  have "bloom_key t (settled t (rc_adders s) - (todo - set codes)) (db r)" if "e = None"
    using addBatch_keeps(3) [OF laws run that] I by (rule_tac bloom_key_mono) auto
  with I addBatch_keeps(1,2) [OF laws run] show ?thesis
    by (auto simp: race_inv_def set_rebuild_def stored_phases_def split: option.splits)
qed

lemma inv_del:
  assumes laws: "redis_laws db R" and inv: "race_inv db f s" and run: "rd_Del R [k] (rc_redis s) = (e, r)"
    and k: "k \<noteq> rb_key f" and ph: "ph = RIdle \<or> ph = RDropped"
  shows "race_inv db f (set_rebuild ph r s)"
proof -
  note I = inv [unfolded race_inv_def]
  have "bloom_key (rb_key f) (settled (rb_key f) (rc_adders s)) (db r)"
    using del_keeps [OF laws run] I k by simp
  with I ph show ?thesis by (auto simp: race_inv_def set_rebuild_def stored_phases_def)
qed

text \<open>The swap, when no creation is in between.\<close>

lemma inv_finish:
  assumes laws: "redis_laws db R" and inv: "race_inv db f s" and ph: "rc_rebuild s = RListing t {}"
    and run: "finishRebuild R f t (rc_redis s) = (e, r)" and quiet: "\<not> busy s"
    and f: "f = NewRedisBloom options"
  shows "race_inv db f (set_rebuild RIdle r s)"
proof -
  note I = inv [unfolded race_inv_def ph, simplified]
  have same: "settled k (rc_adders s) = settled (rb_key f) (rc_adders s)" for k
    using quiet unfolding settled_def busy_def by (auto simp: neq_Nil_conv) (metis list.set_intros(1) neq_Nil_conv empty_iff list.set(1))+
  let ?S = "settled (rb_key f) (rc_adders s)"
  have "rebuilding f t ?S ?S (db (rc_redis s))"
    using I same [of t] by (simp add: rebuilding_def)
  from finish_result [OF laws run _ NewRedisBloom_keys(2) [OF f] this]
  have "bloom_key (rb_key f) ?S (db r)" using I by (simp add: temp_keys_def split: if_splits)
  with I show ?thesis by (simp add: race_inv_def set_rebuild_def stored_phases_def)
qed

lemma inv_store:
  assumes "race_inv db f s" and "rc_adders s c = AIdle"
  shows "race_inv db f (set_adder c AStored (rc_redis s) s\<lparr>rc_store := insert c (rc_store s)\<rparr>)"
proof -
  have "settled k ((rc_adders s)(c := AStored)) = settled k (rc_adders s)" for k
    using assms(2) by (auto simp: settled_def)
  moreover from this have "rebuild_inv f ((rc_adders s)(c := AStored)) m ph = rebuild_inv f (rc_adders s) m ph" for m ph
    by (cases ph) auto
  ultimately show ?thesis
    using assms by (auto simp: race_inv_def set_adder_def stored_phases_def)
qed

lemma inv_added:
  assumes "race_inv db f s" and "rc_adders s c = AKeys []"
  shows "race_inv db f (set_adder c ADone (rc_redis s) s)"
proof -
  have "settled k ((rc_adders s)(c := ADone)) = settled k (rc_adders s)" for k
    using assms(2) by (auto simp: settled_def)
  moreover from this have "rebuild_inv f ((rc_adders s)(c := ADone)) m ph = rebuild_inv f (rc_adders s) m ph" for m ph
    by (cases ph) auto
  ultimately show ?thesis
    using assms by (auto simp: race_inv_def set_adder_def stored_phases_def)
qed

lemma quiet_step_inv:
  assumes laws: "redis_laws db R" and f: "f = NewRedisBloom options"
    and step: "quiet_step db R f s s'" and inv: "race_inv db f s"
  shows "race_inv db f s'"
proof -
  from step have "race_step db R f s s'" and quiet: "swaps s s' \<longrightarrow> \<not> busy s" by (auto simp: quiet_step_def)
  then show ?thesis
  proof (cases rule: race_step.cases)
    case (store c)
    with inv_store inv show ?thesis by simp
  next
    case (get_keys c res r)
    with inv_get_keys [OF laws inv _ NewRedisBloom_keys(1) [OF f]] show ?thesis by simp
  next
    case (add_key c k ks e r)
    with inv_add_key [OF laws inv] show ?thesis by simp
  next
    case (added c)
    with inv_added inv show ?thesis by simp
  next
    case (mark t now e r)
    with inv_mark [OF laws inv f] show ?thesis by simp
  next
    case (reserved t e r)
    with inv_reserved [OF laws inv] show ?thesis by simp
  next
    case (batch t todo codes e r)
    with inv_batch [OF laws inv] show ?thesis by simp
  next
    case (list_error t todo)
    with inv show ?thesis by (auto simp: race_inv_def set_rebuild_def stored_phases_def)
  next
    case (drop_temp t e r)
    with inv have "t \<noteq> rb_key f" by (simp add: race_inv_def temp_keys_def)
    with drop_temp inv_del [OF laws inv] show ?thesis by simp
  next
    case (unmark e r)
    with inv_del [OF laws inv] NewRedisBloom_keys(2) [OF f] show ?thesis by simp
  next
    case (finish t e r)
    then have "swaps s s'" by (auto simp: swaps_def set_rebuild_def)
    with quiet finish inv_finish [OF laws inv _ _ _ f] show ?thesis by simp
  qed
qed

lemma quiet_run_inv:
  assumes "redis_laws db R" and "f = NewRedisBloom options" and "(quiet_step db R f)\<^sup>*\<^sup>* s s'"
    and "race_inv db f s"
  shows "race_inv db f s'"
  using assms(3,4) by (induction rule: rtranclp_induct) (auto intro: quiet_step_inv [OF assms(1,2)])

section \<open>A run that loses a code\<close>

definition sample_bloom :: RedisBloom where
  "sample_bloom = NewRedisBloom \<lparr>bo_Key = [], bo_Capacity = 0, bo_ErrorRate = Finite 0\<rparr>"

definition sample_race :: "keyspace race" where
  "sample_race = \<lparr>rc_store = {}, rc_redis = (\<lambda>_. None), rc_adders = (\<lambda>_. AIdle), rc_rebuild = RIdle\<rparr>"

lemma sample_race_start: "race_start (\<lambda>m. m) sample_bloom sample_race"
  by (simp add: race_start_def sample_race_def persistent_def)

lemmas mem_simps = mem_redis_def mem_write_def eff_set_def eff_reserve_def eff_bfadd_def eff_del_def
  eff_rename_def

text \<open>The two keys \<open>Add\<close> works on while a rebuild with the temporary key \<open>t\<close> is running.\<close>

lemma addKeys_marked:
  assumes "marked (rb_markerKey f) t m" and "temp_keys f t" and "rb_key f \<noteq> []"
  shows "addKeys mem_redis f m = (Inr [rb_key f, t], m)" and "dedupeStrings [rb_key f, t] = [rb_key f, t]"
  using assms by (simp_all add: addKeys_def mem_redis_def marked_def temp_keys_def dedupeStrings_def)

lemma lost_code_run:
  fixes f :: RedisBloom and t c :: string
  defines "ck \<equiv> rb_key f" and "mk \<equiv> rb_markerKey f"
  defines "s0 \<equiv> sample_race"
  defines "s1 \<equiv> set_rebuild (RMarked t) [mk \<mapsto> (RString t, False)] s0"
  defines "s2 \<equiv> set_rebuild (RListing t {}) [mk \<mapsto> (RString t, False), t \<mapsto> (RBloom {}, False)] s1"
  defines "s3 \<equiv> set_adder c AStored (rc_redis s2) s2\<lparr>rc_store := insert c (rc_store s2)\<rparr>"
  defines "s4 \<equiv> set_adder c (AKeys [ck, t]) (rc_redis s3) s3"
  defines "s5 \<equiv> set_adder c (AKeys [t]) ((rc_redis s4)(ck \<mapsto> (RBloom {c}, False))) s4"
  defines "s6 \<equiv> set_rebuild RIdle [ck \<mapsto> (RBloom {}, False)] s5"
  defines "s7 \<equiv> set_adder c (AKeys []) [ck \<mapsto> (RBloom {}, False), t \<mapsto> (RBloom {c}, False)] s6"
  defines "s8 \<equiv> set_adder c ADone (rc_redis s7) s7"
  assumes f: "f = NewRedisBloom options" and t: "t = rebuildTempKey f now"
  shows "(race_step (\<lambda>m. m) mem_redis f)\<^sup>*\<^sup>* sample_race s8"
proof -
  let ?step = "race_step (\<lambda>m. m) mem_redis f"
  have keys: "ck \<noteq> []" "mk \<noteq> ck" "t \<noteq> ck" "t \<noteq> mk"
    using NewRedisBloom_keys [OF f] by (simp_all add: t ck_def mk_def)
  have tk: "temp_keys f t" using keys by (auto simp: temp_keys_def t rebuildTempKey_def f ck_def mk_def NewRedisBloom_def Let_def)
  note defs = set_rebuild_def set_adder_def
  note sdefs = s1_def s2_def s3_def s4_def s5_def s6_def s7_def s8_def
  have 1: "?step s0 s1"
    using race_step.mark [of s0 t f now "\<lambda>m. m" mem_redis None "[mk \<mapsto> (RString t, False)]"] t
    by (simp add: s0_def s1_def sample_race_def mem_simps mk_def)
  have 2: "?step s1 s2"
    using race_step.reserved [of s1 t mem_redis f None "[mk \<mapsto> (RString t, False), t \<mapsto> (RBloom {}, False)]" "\<lambda>m. m"]
      keys by (simp add: s0_def s1_def s2_def defs sample_race_def reserve_def mem_simps)
  have 3: "?step s2 s3"
    unfolding s3_def by (rule race_step.store) (simp add: s0_def s1_def s2_def defs sample_race_def)
  have "marked mk t (rc_redis s3)"
    using keys by (simp add: s3_def s2_def s1_def s0_def defs marked_def)
  then have get: "addKeys mem_redis f (rc_redis s3) = (Inr [ck, t], rc_redis s3)" "dedupeStrings [ck, t] = [ck, t]"
    using addKeys_marked [of f t "rc_redis s3"] tk keys by (simp_all add: ck_def mk_def)
  have 4: "?step s3 s4"
    using race_step.get_keys [OF _ get(1), of c "\<lambda>m. m"] get(2)
    by (simp add: s3_def s4_def defs)
  have 5: "?step s4 s5"
    using race_step.add_key [of s4 c ck "[t]" mem_redis None "(rc_redis s4)(ck \<mapsto> (RBloom {c}, False))" "\<lambda>m. m" f]
      keys by (simp add: s5_def) (simp add: s0_def s1_def s2_def s3_def s4_def defs mem_simps)
  have finish: "finishRebuild mem_redis f t (rc_redis s5) = (None, [ck \<mapsto> (RBloom {}, False)])"
    using keys by (auto simp: finishRebuild_def finishBloomRebuildScript_def s0_def s1_def s2_def s3_def s4_def s5_def
        defs mem_simps ck_def mk_def fun_eq_iff restrict_map_def)
  have 6: "?step s5 s6"
    unfolding s6_def
    by (rule race_step.finish [OF _ finish]) (simp add: s0_def s1_def s2_def s3_def s4_def s5_def defs)
  have 7: "?step s6 s7"
    using race_step.add_key [of s6 c t "[]" mem_redis None "[ck \<mapsto> (RBloom {}, False), t \<mapsto> (RBloom {c}, False)]" "\<lambda>m. m" f]
      keys by (simp add: s7_def) (simp add: s4_def s5_def s6_def defs mem_simps)
  have 8: "?step s7 s8"
    unfolding s8_def by (rule race_step.added) (simp add: s7_def defs)
  show ?thesis
    using 1 2 3 4 5 6 7 8 unfolding s0_def [symmetric]
    by (meson rtranclp.rtrancl_into_rtrancl rtranclp.rtrancl_refl)
qed

section \<open>Whole operations, one after the other\<close>

text \<open>
  What may follow the addition of \<open>code\<close>, on the state of the database and of Redis: additions and
  questions of any codes, with whatever result; rebuilds, successful or not, that begin while the
  database lists the code as active; and any change of the database. (Operations that overlap are
  the subject of \<open>race_step\<close>.)
\<close>

inductive bloom_life ::
  "('r \<Rightarrow> keyspace) \<Rightarrow> 'r redis \<Rightarrow> RedisBloom \<Rightarrow> ('d, 'r) code_lister \<Rightarrow> ('d \<Rightarrow> bool) \<Rightarrow> ('d \<Rightarrow> string set) \<Rightarrow>
   string \<Rightarrow> 'd \<times> 'r \<Rightarrow> 'd \<times> 'r \<Rightarrow> bool"
  for db R f source ok active code where
  life_start: "bloom_life db R f source ok active code s s"
| life_add: "bloom_life db R f source ok active code s (d, r) \<Longrightarrow> RedisBloom_Add R f c r = (e, r') \<Longrightarrow>
    bloom_life db R f source ok active code s (d, r')"
| life_question: "bloom_life db R f source ok active code s (d, r) \<Longrightarrow> RedisBloom_MightContain R f c r = (res, r') \<Longrightarrow>
    bloom_life db R f source ok active code s (d, r')"
| life_rebuild: "bloom_life db R f source ok active code s (d, r) \<Longrightarrow> ok d \<Longrightarrow> code \<in> active d \<Longrightarrow>
    db r (rebuildTempKey f now) = None \<Longrightarrow> RedisBloom_Rebuild R f now source b (d, r) = Some (e, d', r') \<Longrightarrow>
    bloom_life db R f source ok active code s (d', r')"
| life_database: "bloom_life db R f source ok active code s (d, r) \<Longrightarrow> bloom_life db R f source ok active code s (d', r)"

lemma bloom_life_keeps:
  assumes "bloom_life db R f source ok active code s s'" and "code_source source ok active" and "f = NewRedisBloom options"
    and "redis_bloom_ok db R f (snd s)" and "code \<in> bloom_items (db (snd s)) (rb_key f)"
  shows "redis_bloom_ok db R f (snd s') \<and> code \<in> bloom_items (db (snd s')) (rb_key f)"
  using assms(1,4,5)
proof (induction rule: bloom_life.induct)
  case (life_add s d r c e r')
  then show ?case
    using redis_bloom_filter.add_ok [OF _ life_add(2)] redis_bloom_filter.add_keeps [OF _ life_add(2)] by auto
next
  case (life_question s d r c res r')
  then show ?case
    using redis_bloom_filter.might_ok [OF _ life_question(2)] redis_bloom_filter.might_keeps [OF _ life_question(2)] by auto
next
  case (life_rebuild s d r now b e d' r')
  let ?C = "bloom_items (db r) (rb_key f)"
  have before: "redis_laws db R" "rb_key f \<noteq> []" "bloom_key (rb_key f) ?C (db r)" "code \<in> ?C"
    using life_rebuild by (simp_all add: redis_bloom_ok_key)
  from RedisBloom_Rebuild_result [OF assms(2) life_rebuild(2) before(1) assms(3) life_rebuild(4) before(3) life_rebuild(5)]
  have "bloom_key (rb_key f) ?C (db r') \<or> bloom_key (rb_key f) (active d) (db r')" by (auto split: if_splits)
  with before life_rebuild(3) show ?case by (auto simp: redis_bloom_ok_def bloom_key_def)
qed simp_all

section \<open>Properties\<close>

text \<open>
  C16 (safety). No false negatives: once a code was added without error, the Bloom filter never denies
  it, whatever additions and questions follow, and whatever rebuilds of the filter, successful or
  failed, that begin while the database lists the code as active, however the database changes in
  between; each operation is taken as a whole.
\<close>

theorem bloom_no_false_negative:
  assumes "code_source source ok active" and "f = NewRedisBloom options"
    and "redis_bloom_ok db R f r" and "RedisBloom_Add R f code r = (None, r1)"
    and "bloom_life db R f source ok active code (d1, r1) (d2, r2)"
    and "RedisBloom_MightContain R f code r2 = (Inr b, r3)"
  shows b
proof -
  have "redis_bloom_ok db R f r1" "code \<in> bloom_items (db r1) (rb_key f)"
    using redis_bloom_filter.add_ok [OF assms(3,4)] redis_bloom_filter.add_member [OF assms(3,4)] by simp_all
  with bloom_life_keeps [OF assms(5,1,2)] have "redis_bloom_ok db R f r2" "code \<in> bloom_items (db r2) (rb_key f)" by simp_all
  then show b using redis_bloom_filter.might_complete [OF _ assms(6)] by blast
qed

text \<open>
  C17 (functional). A rebuild that succeeds leaves every active code of the source in the Bloom
  filter, and one that fails leaves the filter with what it held before or with every active code;
  the same holds of the Redis set, and the filter in memory holds exactly the active codes or
  exactly its old ones.
\<close>

theorem rebuild_complete:
  assumes "code_source source ok active" and "ok d" and "redis_laws db R"
    and "f = NewRedisBloom options" and "db r (rebuildTempKey f now) = None"
    and "bloom_key (rb_key f) C (db r)" and "set_key redisFilterKey C (db r)"
    and "code_source msource ok active"
  shows "(case RedisBloom_Rebuild R f now source b (d, r) of None \<Rightarrow> True
      | Some (e, d', r') \<Rightarrow>
          if e = None then active d \<subseteq> bloom_items (db r') (rb_key f)
          else C \<subseteq> bloom_items (db r') (rb_key f) \<or> active d \<subseteq> bloom_items (db r') (rb_key f)) \<and>
    (case RedisSet_Rebuild R source b (d, r) of None \<Rightarrow> True
      | Some (e, d', r') \<Rightarrow>
          if e = None then active d - {redisFilterMarker} \<subseteq> set_items (db r') redisFilterKey
          else C - {redisFilterMarker} \<subseteq> set_items (db r') redisFilterKey \<or>
            active d - {redisFilterMarker} \<subseteq> set_items (db r') redisFilterKey) \<and>
    (case Memory_Rebuild msource b (d, m) of None \<Rightarrow> True
      | Some (e, d', m') \<Rightarrow> mf_codes m' = (if e = None then active d else mf_codes m))"
proof (intro conjI, goal_cases)
  case 1
  have "if e = None then active d \<subseteq> bloom_items (db r') (rb_key f)
      else C \<subseteq> bloom_items (db r') (rb_key f) \<or> active d \<subseteq> bloom_items (db r') (rb_key f)"
    if "RedisBloom_Rebuild R f now source b (d, r) = Some (e, d', r')" for e d' r'
    using RedisBloom_Rebuild_result [OF assms(1-6) that] by (cases e) (auto simp: bloom_key_def)
  then show ?case by (cases "RedisBloom_Rebuild R f now source b (d, r)") auto
next
  case 2
  have "if e = None then active d - {redisFilterMarker} \<subseteq> set_items (db r') redisFilterKey
      else C - {redisFilterMarker} \<subseteq> set_items (db r') redisFilterKey \<or>
        active d - {redisFilterMarker} \<subseteq> set_items (db r') redisFilterKey"
    if "RedisSet_Rebuild R source b (d, r) = Some (e, d', r')" for e d' r'
    using RedisSet_Rebuild_result [OF assms(1-3,7) that] by (cases e) (auto simp: set_key_def)
  then show ?case by (cases "RedisSet_Rebuild R source b (d, r)") auto
next
  case 3
  show ?case
    using Memory_Rebuild_members [OF assms(8,2), of b m] by (cases "Memory_Rebuild msource b (d, m)") auto
qed

text \<open>
  From an empty database a code can be created to the end
  while a rebuild swaps the keys between its two additions, \<open>Add\<close> having written the main key
  first and the temporary key, which is gone by then, second. The code is stored, its creation has
  succeeded, the rebuild is over, and the filter denies it.
\<close>

lemma rebuild_can_lose_code:
  "\<exists>s. (race_step (\<lambda>m. m) mem_redis sample_bloom)\<^sup>*\<^sup>* sample_race s \<and>
     rc_adders s code = ADone \<and> code \<in> rc_store s \<and> rc_rebuild s = RIdle \<and>
     fst (RedisBloom_MightContain mem_redis sample_bloom code (rc_redis s)) = Inr False"
proof -
  let ?t = "rebuildTempKey sample_bloom 0"
  have "?t \<noteq> rb_key sample_bloom" by (rule NewRedisBloom_keys(3) [OF sample_bloom_def])
  with lost_code_run [OF sample_bloom_def refl, of code 0] show ?thesis
    by (auto simp: set_adder_def set_rebuild_def RedisBloom_MightContain_def mem_redis_def)
qed

text \<open>
  C18 (invariant). With concurrent creations and rebuilds, a code whose creation has finished is
  never denied by the Bloom filter, provided no rebuild swaps the keys while a creation is between
  reading the keys and its last addition. The provision is needed: with a client in memory there is an
  interleaving that ends with a code whose creation succeeded, whose link is stored, and which the
  filter denies.
\<close>

theorem quiet_rebuild_keeps_codes:
  assumes "redis_laws db R" and "f = NewRedisBloom options" and "race_start db f s"
    and "(quiet_step db R f)\<^sup>*\<^sup>* s s'" and "rc_adders s' code = ADone"
    and "RedisBloom_MightContain R f code (rc_redis s') = (Inr b, r)"
  shows "b \<and> (\<exists>s. (race_step (\<lambda>m. m) mem_redis sample_bloom)\<^sup>*\<^sup>* sample_race s \<and>
     rc_adders s lost = ADone \<and> lost \<in> rc_store s \<and> rc_rebuild s = RIdle \<and>
     fst (RedisBloom_MightContain mem_redis sample_bloom lost (rc_redis s)) = Inr False)"
proof -
  have "race_inv db f s'" by (rule quiet_run_inv [OF assms(1,2,4) race_start_inv [OF assms(3)]])
  then have "redis_bloom_ok db R f (rc_redis s') \<and> code \<in> bloom_items (db (rc_redis s')) (rb_key f)"
    using assms(1,5) NewRedisBloom_keys(1) [OF assms(2)]
    by (auto simp: race_inv_def redis_bloom_ok_def bloom_key_def settled_def)
  with redis_bloom_filter.might_complete [OF _ assms(6)] rebuild_can_lose_code [of lost] show ?thesis by blast
qed

section \<open>Witnesses\<close>

text \<open>A source of two codes, handed over in one batch.\<close>

definition sample_source :: "(unit, 'h) code_lister" where
  "sample_source b h ds =
     (case h [''a'', ''b''] (snd ds) of (e, s) \<Rightarrow> Some (e, fst ds, s))"

lemma sample_code_source: "code_source sample_source (\<lambda>_. True) (\<lambda>_. {''a'', ''b''})"
proof (unfold_locales, goal_cases)
  case (1 d b h s e d' s')
  then show ?case
    by (intro exI [of _ "[[''a'', ''b'']]"]) (auto simp: sample_source_def split: prod.splits option.splits)
qed

text \<open>The code \<open>b\<close> is added, and the filter rebuilt from a database that has it.\<close>

theorem bloom_no_false_negative_witness:
  "\<exists>r2. (\<exists>e d. RedisBloom_Rebuild mem_redis sample_bloom 0 sample_source 10
      ((), snd (RedisBloom_Add mem_redis sample_bloom ''b'' (\<lambda>_. None))) = Some (e, d, r2)) \<and>
    fst (RedisBloom_MightContain mem_redis sample_bloom ''b'' r2) \<noteq> Inr False"
proof -
  let ?r1 = "snd (RedisBloom_Add mem_redis sample_bloom ''b'' (\<lambda>_. None))"
  have ok: "redis_bloom_ok (\<lambda>m. m) mem_redis sample_bloom (\<lambda>_. None)"
    using mem_redis_laws NewRedisBloom_keys(1) [OF sample_bloom_def]
    by (simp add: redis_bloom_ok_def persistent_def)
  have key: "?r1 = [rb_key sample_bloom \<mapsto> (RBloom {''b''}, False)]"
    by (simp add: RedisBloom_Add_def addKeys_def addToKeys_def mem_simps sample_bloom_def
        NewRedisBloom_def defaultBloomFilterKey_def dedupeStrings_def)
  have add: "RedisBloom_Add mem_redis sample_bloom ''b'' (\<lambda>_. None) = (None, ?r1)"
    by (simp add: RedisBloom_Add_def addKeys_def addToKeys_def mem_simps sample_bloom_def
        NewRedisBloom_def defaultBloomFilterKey_def dedupeStrings_def)
  have fresh: "?r1 (rebuildTempKey sample_bloom 0) = None"
    using NewRedisBloom_keys(3) [OF sample_bloom_def, of 0] unfolding key by simp
  obtain e r2 where run: "RedisBloom_Rebuild mem_redis sample_bloom 0 sample_source 10 ((), ?r1) = Some (e, (), r2)"
    using NewRedisBloom_keys(2) [OF sample_bloom_def] NewRedisBloom_keys(3,4) [OF sample_bloom_def, of 0] unfolding key
    by (auto simp: RedisBloom_Rebuild_def Let_def mem_simps reserve_def sample_source_def addBatchToKey_def
        finishRebuild_def finishBloomRebuildScript_def)
  have life: "bloom_life (\<lambda>m. m) mem_redis sample_bloom sample_source (\<lambda>_. True) (\<lambda>_. {''a'', ''b''}) ''b'' ((), ?r1) ((), r2)"
    by (rule bloom_life.life_rebuild [where r = ?r1 and d = "()" and now = 0 and b = 10 and e = e])
      (use fresh run in \<open>simp_all add: bloom_life.life_start\<close>)
  have "b" if "RedisBloom_MightContain mem_redis sample_bloom ''b'' r2 = (Inr b, r3)" for b r3
    by (rule bloom_no_false_negative [OF sample_code_source sample_bloom_def ok add life that])
  then have "fst (RedisBloom_MightContain mem_redis sample_bloom ''b'' r2) \<noteq> Inr False" by (metis prod.collapse)
  with run show ?thesis by blast
qed

theorem rebuild_complete_witness:
  "{''a'', ''b''} \<subseteq> bloom_items (snd (snd (the (RedisBloom_Rebuild mem_redis sample_bloom 0 sample_source 10 ((), \<lambda>_. None)))))
     (rb_key sample_bloom)"
proof -
  let ?run = "RedisBloom_Rebuild mem_redis sample_bloom 0 sample_source 10 ((), \<lambda>_. None)"
  have "bloom_key (rb_key sample_bloom) {} (\<lambda>_. None)" "set_key redisFilterKey {} (\<lambda>_. None)"
    by (simp_all add: bloom_key_def set_key_def persistent_def)
  note result = rebuild_complete [where db = "\<lambda>m. m" and r = "\<lambda>_. None" and d = "()" and now = 0 and b = 10,
      OF sample_code_source TrueI mem_redis_laws sample_bloom_def refl this sample_code_source]
  have "\<exists>r'. ?run = Some (None, (), r')"
    using NewRedisBloom_keys(2) [OF sample_bloom_def] NewRedisBloom_keys(3,4) [OF sample_bloom_def, of 0]
    by (auto simp: RedisBloom_Rebuild_def Let_def mem_simps reserve_def sample_source_def addBatchToKey_def
        finishRebuild_def finishBloomRebuildScript_def)
  with result show ?thesis by (auto split: option.splits prod.splits)
qed

theorem quiet_rebuild_keeps_codes_witness:
  "fst (RedisBloom_MightContain mem_redis sample_bloom ''c'' [rb_key sample_bloom \<mapsto> (RBloom {''c''}, False)]) \<noteq> Inr False"
proof -
  let ?m = "[rb_key sample_bloom \<mapsto> (RBloom {''c''}, False)]"
  let ?f = sample_bloom and ?s0 = sample_race
  let ?s1 = "set_adder ''c'' AStored (rc_redis ?s0) ?s0\<lparr>rc_store := insert ''c'' (rc_store ?s0)\<rparr>"
  let ?s2 = "set_adder ''c'' (AKeys [rb_key ?f]) (rc_redis ?s1) ?s1"
  let ?s3 = "set_adder ''c'' (AKeys []) ?m ?s2"
  let ?s4 = "set_adder ''c'' ADone (rc_redis ?s3) ?s3"
  note defs = set_adder_def sample_race_def
  have "rb_key ?f \<noteq> []" by (rule NewRedisBloom_keys(1) [OF sample_bloom_def])
  have step: "quiet_step (\<lambda>m. m) mem_redis ?f s s'"
    if "race_step (\<lambda>m. m) mem_redis ?f s s'" "rc_rebuild s = RIdle" for s s'
    using that by (simp add: quiet_step_def swaps_def)
  have 1: "race_step (\<lambda>m. m) mem_redis ?f ?s0 ?s1" by (rule race_step.store) (simp add: defs)
  have 2: "race_step (\<lambda>m. m) mem_redis ?f ?s1 ?s2"
    using race_step.get_keys [of ?s1 "''c''" mem_redis ?f "Inr [rb_key ?f]" "rc_redis ?s1" "\<lambda>m. m"]
      \<open>rb_key ?f \<noteq> []\<close>
    by (simp add: defs addKeys_def mem_redis_def dedupeStrings_def)
  have 3: "race_step (\<lambda>m. m) mem_redis ?f ?s2 ?s3"
    using race_step.add_key [of ?s2 "''c''" "rb_key ?f" "[]" mem_redis None ?m "\<lambda>m. m" ?f]
    by (simp add: defs mem_simps)
  have 4: "race_step (\<lambda>m. m) mem_redis ?f ?s3 ?s4" by (rule race_step.added) (simp add: defs)
  have "(quiet_step (\<lambda>m. m) mem_redis ?f)\<^sup>*\<^sup>* ?s0 ?s4"
    using step [OF 1] step [OF 2] step [OF 3] step [OF 4]
    by (simp add: defs)
  from quiet_rebuild_keeps_codes [OF mem_redis_laws sample_bloom_def sample_race_start this, of "''c''", THEN conjunct1]
  have "b" if "RedisBloom_MightContain mem_redis ?f ''c'' ?m = (Inr b, r)" for b r
    using that by (simp add: defs)
  then show ?thesis by (metis prod.collapse)
qed

end
