(* ===== verification/Cleanup.thy ===== *)
theory Cleanup
  imports Short_Link_Mem Visit_Repo Redis_Cache Bloom_Race
begin

text \<open>
  \<open>internal/app/cleanupapp\<close> and its wiring in \<open>cmd/worker\<close>: the periodic removal of expired
  links, old visits and old statistics, followed by the rebuild of the filter. \<open>'d\<close> is the state of
  the database, \<open>'h\<close> that of Redis, on which the cache and the filter work; \<open>None\<close> means that a call
  does not return.
  \<^item> \<open>batch_deleter\<close> is the contract of a limited deletion; the loop \<open>deleteAll\<close> over it ends and
    deletes everything.
  \<^item> \<open>cleanup_total\<close> composes the repositories, the cache and the filter.
\<close>

section \<open>The loop of limited deletions (service.go)\<close>

partial_function (option) deleteAll ::
  "('d \<Rightarrow> go_error option \<times> 'd) \<Rightarrow> int \<Rightarrow> ('d \<Rightarrow> (int \<times> go_error option) \<times> 'd) \<Rightarrow> int \<Rightarrow> 'd \<Rightarrow>
   ((int \<times> go_error option) \<times> 'd) option" where
  "deleteAll ctx_Err limit deleteBatch acc d =
     (case ctx_Err d of
        (Some err, d1) \<Rightarrow> Some ((acc, Some err), d1)
      | (None, d1) \<Rightarrow>
          (case deleteBatch d1 of
             ((deleted, Some err), d2) \<Rightarrow> Some ((acc, Some err), d2)
           | ((deleted, None), d2) \<Rightarrow>
               (if deleted < limit then Some ((acc + deleted, None), d2)
                else deleteAll ctx_Err limit deleteBatch (acc + deleted) d2)))"

declare deleteAll.simps [code]

section \<open>The service\<close>

record ('d, 'h) cleanup_links =
  cl_ListActiveCodes :: "('d, 'h) code_lister"
  cl_DeleteExpired :: "time \<Rightarrow> int \<Rightarrow> 'h code_handler option \<Rightarrow> 'd \<times> 'h \<Rightarrow>
    ((int \<times> go_error option) \<times> 'd \<times> 'h) option"

record 'd cleanup_visits =
  cv_DeleteVisitsBefore :: "time \<Rightarrow> int \<Rightarrow> 'd \<Rightarrow> (int \<times> go_error option) \<times> 'd"
  cv_DeleteDailyStatsBefore :: "time \<Rightarrow> int \<Rightarrow> 'd \<Rightarrow> (int \<times> go_error option) \<times> 'd"

type_synonym ('d, 'h) filter_rebuilder =
  "('d, 'h) code_lister \<Rightarrow> int \<Rightarrow> 'd \<times> 'h \<Rightarrow> (go_error option \<times> 'd \<times> 'h) option"

record ('d, 'h) CleanupOptions =
  co_Links :: "('d, 'h) cleanup_links option"
  co_Visits :: "'d cleanup_visits option"
  co_Cache :: "'h code_handler option"
  co_Filter :: "('d, 'h) filter_rebuilder option"
  co_BatchSize :: int
  co_VisitRetention :: duration
  co_StatRetention :: duration
  co_Now :: "('d \<Rightarrow> time \<times> 'd) option"

record ('d, 'h) CleanupService =
  cs_links :: "('d, 'h) cleanup_links option"
  cs_visits :: "'d cleanup_visits option"
  cs_cache :: "'h code_handler option"
  cs_filter :: "('d, 'h) filter_rebuilder option"
  cs_batchSize :: int
  cs_visitRetention :: duration
  cs_statRetention :: duration
  cs_now :: "'d \<Rightarrow> time \<times> 'd"

record Report =
  rp_ExpiredLinksDeleted :: int
  rp_VisitLogsDeleted :: int
  rp_DailyStatsDeleted :: int
  rp_FilterRebuilt :: bool

definition zero_Report :: Report where
  "zero_Report = \<lparr>rp_ExpiredLinksDeleted = 0, rp_VisitLogsDeleted = 0, rp_DailyStatsDeleted = 0, rp_FilterRebuilt = False\<rparr>"

definition cleanup_defaultBatchSize :: int where "cleanup_defaultBatchSize = 1000"
definition defaultVisitRetention :: duration where "defaultVisitRetention = 30 * 24 * hour"
definition defaultStatRetention :: duration where "defaultStatRetention = 180 * 24 * hour"

definition NewCleanup :: "('d \<Rightarrow> time \<times> 'd) \<Rightarrow> ('d, 'h) CleanupOptions \<Rightarrow> ('d, 'h) CleanupService" where
  "NewCleanup time_Now options =
     (let batchSize = (if co_BatchSize options \<le> 0 then cleanup_defaultBatchSize else co_BatchSize options);
          visitRetention = (if co_VisitRetention options \<le> 0 then defaultVisitRetention else co_VisitRetention options);
          statRetention = (if co_StatRetention options \<le> 0 then defaultStatRetention else co_StatRetention options);
          now = (case co_Now options of None \<Rightarrow> time_Now | Some f \<Rightarrow> f)
      in \<lparr>cs_links = co_Links options, cs_visits = co_Visits options, cs_cache = co_Cache options,
          cs_filter = co_Filter options, cs_batchSize = batchSize, cs_visitRetention = visitRetention,
          cs_statRetention = statRetention, cs_now = now\<rparr>)"

text \<open>The three parts of \<open>RunOnce\<close>, in its order; an error ends it with the report so far.\<close>

definition clean_links ::
  "('d, 'h) CleanupService \<Rightarrow> time \<Rightarrow> Report \<Rightarrow> 'd \<times> 'h \<Rightarrow> ((Report \<times> go_error option) \<times> 'd \<times> 'h) option" where
  "clean_links s now report dh =
     (case cs_links s of
        None \<Rightarrow> Some ((report, None), dh)
      | Some links \<Rightarrow>
          (case cl_DeleteExpired links now (cs_batchSize s)
                  (Some (\<lambda>codes h. case cs_cache s of None \<Rightarrow> (None, h) | Some delete \<Rightarrow> delete codes h)) dh of
             None \<Rightarrow> None
           | Some ((deleted, Some err), dh1) \<Rightarrow> Some ((report, Some err), dh1)
           | Some ((deleted, None), dh1) \<Rightarrow> Some ((report\<lparr>rp_ExpiredLinksDeleted := deleted\<rparr>, None), dh1)))"

definition clean_visits ::
  "('d \<Rightarrow> go_error option \<times> 'd) \<Rightarrow> ('d, 'h) CleanupService \<Rightarrow> time \<Rightarrow> Report \<Rightarrow> 'd \<Rightarrow>
   ((Report \<times> go_error option) \<times> 'd) option" where
  "clean_visits ctx_Err s now report d =
     (case cs_visits s of
        None \<Rightarrow> Some ((report, None), d)
      | Some visits \<Rightarrow>
          (case deleteAll ctx_Err (cs_batchSize s)
                  (cv_DeleteVisitsBefore visits (time_add now (- cs_visitRetention s)) (cs_batchSize s)) 0 d of
             None \<Rightarrow> None
           | Some ((deleted, Some err), d1) \<Rightarrow> Some ((report, Some err), d1)
           | Some ((deleted, None), d1) \<Rightarrow>
               (let report1 = report\<lparr>rp_VisitLogsDeleted := deleted\<rparr>
                in case deleteAll ctx_Err (cs_batchSize s)
                     (cv_DeleteDailyStatsBefore visits (time_add now (- cs_statRetention s)) (cs_batchSize s)) 0 d1 of
                     None \<Rightarrow> None
                   | Some ((deleted', Some err), d2) \<Rightarrow> Some ((report1, Some err), d2)
                   | Some ((deleted', None), d2) \<Rightarrow>
                       Some ((report1\<lparr>rp_DailyStatsDeleted := deleted'\<rparr>, None), d2))))"

definition rebuild_filter ::
  "('d, 'h) CleanupService \<Rightarrow> Report \<Rightarrow> 'd \<times> 'h \<Rightarrow> ((Report \<times> go_error option) \<times> 'd \<times> 'h) option" where
  "rebuild_filter s report dh =
     (case (cs_links s, cs_filter s) of
        (Some links, Some rebuild) \<Rightarrow>
          (case rebuild (cl_ListActiveCodes links) (cs_batchSize s) dh of
             None \<Rightarrow> None
           | Some (Some err, dh1) \<Rightarrow> Some ((report, Some err), dh1)
           | Some (None, dh1) \<Rightarrow> Some ((report\<lparr>rp_FilterRebuilt := True\<rparr>, None), dh1))
      | _ \<Rightarrow> Some ((report, None), dh))"

definition RunOnce ::
  "('d \<Rightarrow> go_error option \<times> 'd) \<Rightarrow> ('d, 'h) CleanupService \<Rightarrow> 'd \<times> 'h \<Rightarrow>
   ((Report \<times> go_error option) \<times> 'd \<times> 'h) option" where
  "RunOnce ctx_Err s dh =
     (case cs_now s (fst dh) of
        (now, d0) \<Rightarrow>
          (case clean_links s now zero_Report (d0, snd dh) of
             None \<Rightarrow> None
           | Some ((report, Some err), dh1) \<Rightarrow> Some ((report, Some err), dh1)
           | Some ((report, None), d1, h1) \<Rightarrow>
               (case clean_visits ctx_Err s now report d1 of
                  None \<Rightarrow> None
                | Some ((report1, Some err), d2) \<Rightarrow> Some ((report1, Some err), d2, h1)
                | Some ((report1, None), d2) \<Rightarrow> rebuild_filter s report1 (d2, h1))))"

section \<open>The scheduler (scheduler.go)\<close>

text \<open>
  The loop of \<open>run\<close>: in each turn either the context is done, or the ticker has fired and the
  service runs once; \<open>ticks\<close> is the number of ticks before the loop sees the end of the context. The
  result is what is logged, in order: a report, or an error.
\<close>

record ('d, 'h) Scheduler =
  sc_service :: "('d, 'h) CleanupService"
  sc_interval :: duration

definition NewScheduler :: "('d, 'h) CleanupService \<Rightarrow> duration \<Rightarrow> ('d, 'h) Scheduler" where
  "NewScheduler service interval =
     \<lparr>sc_service = service, sc_interval = (if interval \<le> 0 then 24 * hour else interval)\<rparr>"

fun scheduler_run ::
  "('d \<Rightarrow> go_error option \<times> 'd) \<Rightarrow> ('d, 'h) Scheduler \<Rightarrow> nat \<Rightarrow> 'd \<times> 'h \<Rightarrow> ((go_error + Report) list \<times> 'd \<times> 'h) option" where
  "scheduler_run ctx_Err s 0 dh = Some ([], dh)"
| "scheduler_run ctx_Err s (Suc ticks) dh =
     (case RunOnce ctx_Err (sc_service s) dh of
        None \<Rightarrow> None
      | Some ((report, err), dh1) \<Rightarrow>
          (case scheduler_run ctx_Err s ticks dh1 of
             None \<Rightarrow> None
           | Some (logged, dh2) \<Rightarrow>
               Some ((case err of Some e \<Rightarrow> Inl e | None \<Rightarrow> Inr report) # logged, dh2)))"

section \<open>Limited deletions\<close>

text \<open>
  From \<open>T\<close> to \<open>T'\<close> only rows with \<open>P\<close> went, and without an error all of them, \<open>n\<close> in number.
\<close>

definition cleared :: "('r \<Rightarrow> bool) \<Rightarrow> 'r set \<Rightarrow> int \<Rightarrow> go_error option \<Rightarrow> 'r set \<Rightarrow> bool" where
  "cleared P T n e T' \<longleftrightarrow>
     T' \<subseteq> T \<and> (\<forall>r \<in> T - T'. P r) \<and> (e = None \<longrightarrow> T' = {r \<in> T. \<not> P r} \<and> n = int (card {r \<in> T. P r}))"

lemma cleared_error [simp]: "cleared P T n (Some err) T"
  by (simp add: cleared_def)

text \<open>
  \<open>rows\<close> are those of the table a deletion works on, \<open>P\<close> its condition, \<open>rest\<close> everything else.
\<close>

locale batch_deleter =
  fixes ctx_Err :: "'d \<Rightarrow> go_error option \<times> 'd"
    and deleteBatch :: "'d \<Rightarrow> (int \<times> go_error option) \<times> 'd"
    and limit :: int
    and ok :: "'d \<Rightarrow> bool"
    and rows :: "'d \<Rightarrow> 'r set"
    and P :: "'r \<Rightarrow> bool"
    and rest :: "'d \<Rightarrow> 'x"
  assumes limit_pos: "0 < limit"
    and rows_finite: "ok d \<Longrightarrow> finite (rows d)"
    and ctx_keeps: "ok d \<Longrightarrow> ctx_Err d = (e, d') \<Longrightarrow> ok d' \<and> rows d' = rows d \<and> rest d' = rest d"
    and batch_deletes: "ok d \<Longrightarrow> deleteBatch d = (res, d') \<Longrightarrow>
      ok d' \<and> rest d' = rest d \<and> limited_delete (rows d) P limit res (rows d')"
begin

lemma deleteAll_acc:
  "ok d \<Longrightarrow> \<exists>n e d'. deleteAll ctx_Err limit deleteBatch acc d = Some ((n, e), d') \<and>
     ok d' \<and> rest d' = rest d \<and> rows d' \<subseteq> rows d \<and> (\<forall>r \<in> rows d - rows d'. P r) \<and>
     (e = None \<longrightarrow> rows d' = {r \<in> rows d. \<not> P r} \<and> n = acc + int (card {r \<in> rows d. P r}))"
proof (induction "card (rows d)" arbitrary: d acc rule: less_induct)
  case less
  obtain e1 d1 where ctx: "ctx_Err d = (e1, d1)" by fastforce
  note d1 = ctx_keeps [OF less.prems ctx]
  obtain n e2 d2 where batch: "deleteBatch d1 = ((n, e2), d2)" by (metis prod.collapse)
  note d2 = batch_deletes [OF conjunct1 [OF d1] batch]
  note fin = rows_finite [OF less.prems]
  show ?case
  proof (cases "e1 = None \<and> e2 = None \<and> limit \<le> n")
    case False
    then show ?thesis
    proof (cases e1)
      case (Some err)
      with ctx d1 show ?thesis by (subst deleteAll.simps) simp
    next
      case e1: None
      show ?thesis
      proof (cases e2)
        case (Some err)
        with ctx e1 batch d1 d2 show ?thesis by (subst deleteAll.simps) (simp add: limited_delete_def)
      next
        case None
        have "n < limit" using False e1 None by simp
        moreover have "rows d2 = {r \<in> rows d. \<not> P r}" "rows d - rows d2 = {r \<in> rows d. P r}"
          using d1 d2 None \<open>n < limit\<close> unfolding limited_delete_def by auto
        ultimately show ?thesis
          using ctx e1 batch None d1 d2 by (subst deleteAll.simps) (auto simp: limited_delete_def)
      qed
    qed
  next
    case True
    then have gone: "n = int (card (rows d - rows d2))" "rows d2 \<subseteq> rows d" "\<forall>r \<in> rows d - rows d2. P r"
      using d1 d2 by (simp_all add: limited_delete_def)
    with True limit_pos have "rows d - rows d2 \<noteq> {}" by auto
    with gone(2) fin have "card (rows d2) < card (rows d)" by (intro psubset_card_mono) auto
    from less.hyps [OF this conjunct1 [OF d2], of "acc + n"] obtain m e d' where
      run: "deleteAll ctx_Err limit deleteBatch (acc + n) d2 = Some ((m, e), d')"
      and res: "ok d'" "rest d' = rest d2" "rows d' \<subseteq> rows d2" "\<forall>r \<in> rows d2 - rows d'. P r"
        "e = None \<longrightarrow> rows d' = {r \<in> rows d2. \<not> P r} \<and> m = acc + n + int (card {r \<in> rows d2. P r})"
      by blast
    have run: "deleteAll ctx_Err limit deleteBatch acc d = Some ((m, e), d')"
      using ctx batch True run by (subst deleteAll.simps) simp
    have parts: "{r \<in> rows d. P r} = (rows d - rows d2) \<union> {r \<in> rows d2. P r}" using gone(2,3) by blast
    have "card {r \<in> rows d. P r} = card (rows d - rows d2) + card {r \<in> rows d2. P r}"
      unfolding parts using fin gone(2) by (intro card_Un_disjoint) (auto intro: finite_subset)
    with gone(1) have count: "acc + n + int (card {r \<in> rows d2. P r}) = acc + int (card {r \<in> rows d. P r})" by simp
    have left: "{r \<in> rows d2. \<not> P r} = {r \<in> rows d. \<not> P r}" using gone(2,3) by blast
    have "rows d' \<subseteq> rows d" "\<forall>r \<in> rows d - rows d'. P r" using res(3,4) gone(2,3) by blast+
    moreover have "rest d' = rest d" using res(2) d1 d2 by simp
    ultimately show ?thesis using run res(1) res(5) [unfolded count left] by blast
  qed
qed

lemma deleteAll_total:
  assumes "ok d"
  shows "\<exists>n e d'. deleteAll ctx_Err limit deleteBatch 0 d = Some ((n, e), d') \<and>
     ok d' \<and> rest d' = rest d \<and> cleared P (rows d) n e (rows d')"
  using deleteAll_acc [OF assms, of 0] unfolding cleared_def add_0 by blast

end

section \<open>The cleanup of worker\<close>

text \<open>
  \<open>cmd/worker/main.go\<close>: both repositories over one database, whose state is the pair of that of the
  links and that of the visits; the cache and the filter over one Redis client. \<open>filter_now\<close> is the
  reading of the clock that names the temporary key of the rebuild.
\<close>

definition on_links :: "('l \<times> 'h \<Rightarrow> ('a \<times> 'l \<times> 'h) option) \<Rightarrow> ('l \<times> 'v) \<times> 'h \<Rightarrow> ('a \<times> ('l \<times> 'v) \<times> 'h) option" where
  "on_links f dh =
     (case f (fst (fst dh), snd dh) of
        None \<Rightarrow> None
      | Some (a, l, h) \<Rightarrow> Some (a, (l, snd (fst dh)), h))"

definition on_first :: "('l \<Rightarrow> 'a \<times> 'l) \<Rightarrow> 'l \<times> 'v \<Rightarrow> 'a \<times> 'l \<times> 'v" where
  "on_first f d = (case f (fst d) of (a, l) \<Rightarrow> (a, l, snd d))"

definition on_second :: "('v \<Rightarrow> 'a \<times> 'v) \<Rightarrow> 'l \<times> 'v \<Rightarrow> 'a \<times> 'l \<times> 'v" where
  "on_second f d = (case f (snd d) of (a, v) \<Rightarrow> (a, fst d, v))"

definition worker_options ::
  "'l link_db \<Rightarrow> 'v visit_db \<Rightarrow> duration \<Rightarrow> 'h redis \<Rightarrow> RedisBloom \<Rightarrow> time \<Rightarrow> int \<Rightarrow> duration \<Rightarrow> duration \<Rightarrow>
   ('l \<times> 'v, 'h) CleanupOptions" where
  "worker_options D V zone R f filter_now batchSize visitRetention statRetention = \<lparr>
     co_Links = Some \<lparr>cl_ListActiveCodes = (\<lambda>b h. on_links (ListActiveCodes D b h)),
                       cl_DeleteExpired = (\<lambda>t b h. on_links (DeleteExpired D t b h))\<rparr>,
     co_Visits = Some \<lparr>cv_DeleteVisitsBefore = (\<lambda>t n. on_second (DeleteVisitsBefore V t n)),
                        cv_DeleteDailyStatsBefore = (\<lambda>t n. on_second (DeleteDailyStatsBefore zone V t n))\<rparr>,
     co_Cache = Some (RedisCache_Delete R),
     co_Filter = Some (RedisBloom_Rebuild R f filter_now),
     co_BatchSize = batchSize, co_VisitRetention = visitRetention, co_StatRetention = statRetention, co_Now = None\<rparr>"

definition worker_service ::
  "'l link_db \<Rightarrow> 'v visit_db \<Rightarrow> duration \<Rightarrow> 'h redis \<Rightarrow> RedisBloom \<Rightarrow> time \<Rightarrow> int \<Rightarrow> duration \<Rightarrow> duration \<Rightarrow>
   ('l \<times> 'v, 'h) CleanupService" where
  "worker_service D V zone R f filter_now batchSize visitRetention statRetention =
     NewCleanup (on_first (db_now D)) (worker_options D V zone R f filter_now batchSize visitRetention statRetention)"

lemma worker_service_sel:
  "cs_links (worker_service D V zone R f fnow b vr sr) =
     Some \<lparr>cl_ListActiveCodes = (\<lambda>b h. on_links (ListActiveCodes D b h)),
           cl_DeleteExpired = (\<lambda>t b h. on_links (DeleteExpired D t b h))\<rparr>"
  "cs_visits (worker_service D V zone R f fnow b vr sr) =
     Some \<lparr>cv_DeleteVisitsBefore = (\<lambda>t n. on_second (DeleteVisitsBefore V t n)),
           cv_DeleteDailyStatsBefore = (\<lambda>t n. on_second (DeleteDailyStatsBefore zone V t n))\<rparr>"
  "cs_cache (worker_service D V zone R f fnow b vr sr) = Some (RedisCache_Delete R)"
  "cs_filter (worker_service D V zone R f fnow b vr sr) = Some (RedisBloom_Rebuild R f fnow)"
  "cs_now (worker_service D V zone R f fnow b vr sr) = on_first (db_now D)"
  "cs_batchSize (worker_service D V zone R f fnow b vr sr) = (if b \<le> 0 then 1000 else b)"
  "cs_visitRetention (worker_service D V zone R f fnow b vr sr) = (if vr \<le> 0 then 30 * 24 * hour else vr)"
  "cs_statRetention (worker_service D V zone R f fnow b vr sr) = (if sr \<le> 0 then 180 * 24 * hour else sr)"
  by (simp_all add: worker_service_def NewCleanup_def worker_options_def Let_def cleanup_defaultBatchSize_def
      defaultVisitRetention_def defaultStatRetention_def)

text \<open>The two tables of the visits are cleaned by limited deletions.\<close>

lemma visits_deleter:
  assumes "db_laws nf tb ok D" and "visit_laws vt st okv V" and "0 < limit"
  shows "batch_deleter (on_first (db_ctx_Err D)) (on_second (DeleteVisitsBefore V before limit)) limit
      (\<lambda>d. ok (fst d) \<and> okv (snd d)) (\<lambda>d. vt (snd d)) (\<lambda>r. vr_VisitedAt r < before) (\<lambda>d. (tb (fst d), st (snd d)))"
    and "batch_deleter (on_first (db_ctx_Err D)) (on_second (DeleteDailyStatsBefore zone V before limit)) limit
      (\<lambda>d. ok (fst d) \<and> okv (snd d)) (\<lambda>d. st (snd d)) (\<lambda>r. ds_StatDate r < midnight zone before)
      (\<lambda>d. (tb (fst d), vt (snd d)))"
proof -
  have ctx: "ok (fst d') \<and> okv (snd d') \<and> snd d' = snd d \<and> tb (fst d') = tb (fst d)"
    if "ok (fst d) \<and> okv (snd d)" "on_first (db_ctx_Err D) d = (e, d')" for d e d'
  proof -
    have "db_ctx_Err D (fst d) = (e, fst d')" "snd d' = snd d"
      using that(2) by (auto simp: on_first_def split: prod.splits)
    with read_done(2) [OF assms(1) conjunct1 [OF that(1)] this(1)] that(1) show ?thesis by auto
  qed
  have second: "f (snd d) = (a, snd d') \<and> fst d' = fst d" if "on_second f d = (a, d')" for f :: "'b \<Rightarrow> 'e \<times> 'b" and d d' a
    using that by (auto simp: on_second_def split: prod.splits)
  show "batch_deleter (on_first (db_ctx_Err D)) (on_second (DeleteVisitsBefore V before limit)) limit
      (\<lambda>d. ok (fst d) \<and> okv (snd d)) (\<lambda>d. vt (snd d)) (\<lambda>r. vr_VisitedAt r < before) (\<lambda>d. (tb (fst d), st (snd d)))"
  proof (unfold_locales, goal_cases)
    case (4 d res d')
    have run: "vd_delete_visits V (\<lambda>r. vr_VisitedAt r < before) limit (snd d) = (res, snd d')" and "fst d' = fst d"
      using second [OF 4(2)] assms(3) by (simp_all add: DeleteVisitsBefore_def)
    with visit_write_done(2) [OF assms(2) conjunct2 [OF 4(1)] assms(3) run] 4(1) show ?case by simp
  next
    case (3 d e d')
    from ctx [OF 3] show ?case by auto
  next
    case (2 d)
    with visit_lawsD(2) [OF assms(2)] show ?case by blast
  qed (rule assms(3))
  show "batch_deleter (on_first (db_ctx_Err D)) (on_second (DeleteDailyStatsBefore zone V before limit)) limit
      (\<lambda>d. ok (fst d) \<and> okv (snd d)) (\<lambda>d. st (snd d)) (\<lambda>r. ds_StatDate r < midnight zone before)
      (\<lambda>d. (tb (fst d), vt (snd d)))"
  proof (unfold_locales, goal_cases)
    case (4 d res d')
    have run: "vd_delete_stats V (\<lambda>r. ds_StatDate r < midnight zone before) limit (snd d) = (res, snd d')" and "fst d' = fst d"
      using second [OF 4(2)] assms(3) by (simp_all add: DeleteDailyStatsBefore_def Let_def)
    with visit_write_done(3) [OF assms(2) conjunct2 [OF 4(1)] assms(3) run] 4(1) show ?case by simp
  next
    case (3 d e d')
    from ctx [OF 3] show ?case by auto
  next
    case (2 d)
    with visit_lawsD(2) [OF assms(2)] show ?case by blast
  qed (rule assms(3))
qed

interpretation mem_visit_deleter: batch_deleter "on_first (db_ctx_Err text_db)"
    "on_second (DeleteVisitsBefore mem_visit_db before 1000)" 1000 "\<lambda>d. mem_ok (=) (fst d) \<and> mem_visits_ok (snd d)"
    "\<lambda>d. set (mv_visits (snd d))" "\<lambda>r. vr_VisitedAt r < before" "\<lambda>d. (mem_tb (fst d), set (mv_stats (snd d)))" for before
  by (rule visits_deleter(1) [OF text_db_laws mem_visit_laws, where limit = 1000]) simp

interpretation mem_stat_deleter: batch_deleter "on_first (db_ctx_Err text_db)"
    "on_second (DeleteDailyStatsBefore zone mem_visit_db before 1000)" 1000 "\<lambda>d. mem_ok (=) (fst d) \<and> mem_visits_ok (snd d)"
    "\<lambda>d. set (mv_stats (snd d))" "\<lambda>r. ds_StatDate r < midnight zone before"
    "\<lambda>d. (mem_tb (fst d), set (mv_visits (snd d)))" for zone before
  by (rule visits_deleter(2) [OF text_db_laws mem_visit_laws, where limit = 1000]) simp

text \<open>The stage of the visits; \<open>old_visit\<close> and \<open>old_stat\<close> are the conditions of its deletions.\<close>

definition old_visit :: "('d, 'h) CleanupService \<Rightarrow> time \<Rightarrow> VisitLogRecord \<Rightarrow> bool" where
  "old_visit s now r \<longleftrightarrow> vr_VisitedAt r < now - cs_visitRetention s"

definition old_stat :: "('d, 'h) CleanupService \<Rightarrow> duration \<Rightarrow> time \<Rightarrow> DailyStatRecord \<Rightarrow> bool" where
  "old_stat s zone now r \<longleftrightarrow> ds_StatDate r < midnight zone (now - cs_statRetention s)"

lemma clean_visits_total:
  assumes "db_laws nf tb ok D" and "visit_laws vt st okv V" and "ok (fst d) \<and> okv (snd d)"
    and s_def: "s = worker_service D V zone R f fnow b vr sr"
  shows "\<exists>rep e d' n1 e1 n2 e2. clean_visits (on_first (db_ctx_Err D)) s now report d = Some ((rep, e), d') \<and>
    (ok (fst d') \<and> okv (snd d')) \<and> tb (fst d') = tb (fst d) \<and>
    cleared (old_visit s now) (vt (snd d)) n1 e1 (vt (snd d')) \<and>
    cleared (old_stat s zone now) (st (snd d)) n2 e2 (st (snd d')) \<and>
    (e = None \<longrightarrow> e1 = None \<and> e2 = None \<and> rep = report\<lparr>rp_VisitLogsDeleted := n1, rp_DailyStatsDeleted := n2\<rparr>)"
proof -
  have limit: "0 < cs_batchSize s" by (simp add: s_def worker_service_sel)
  let ?t1 = "now - cs_visitRetention s" and ?t2 = "now - cs_statRetention s"
  let ?del1 = "deleteAll (on_first (db_ctx_Err D)) (cs_batchSize s) (on_second (DeleteVisitsBefore V ?t1 (cs_batchSize s))) 0"
  let ?del2 = "deleteAll (on_first (db_ctx_Err D)) (cs_batchSize s) (on_second (DeleteDailyStatsBefore zone V ?t2 (cs_batchSize s))) 0"
  have stage: "clean_visits (on_first (db_ctx_Err D)) s now report d =
      (case ?del1 d of
         None \<Rightarrow> None
       | Some ((n1, Some err), d1) \<Rightarrow> Some ((report, Some err), d1)
       | Some ((n1, None), d1) \<Rightarrow>
           (case ?del2 d1 of
              None \<Rightarrow> None
            | Some ((n2, Some err), d2) \<Rightarrow> Some ((report\<lparr>rp_VisitLogsDeleted := n1\<rparr>, Some err), d2)
            | Some ((n2, None), d2) \<Rightarrow>
                Some ((report\<lparr>rp_VisitLogsDeleted := n1, rp_DailyStatsDeleted := n2\<rparr>, None), d2)))"
    unfolding clean_visits_def s_def worker_service_sel(2) option.case cleanup_visits.simps Let_def time_add_def
      add_uminus_conv_diff ..
  have old: "old_visit s now = (\<lambda>r. vr_VisitedAt r < ?t1)" "old_stat s zone now = (\<lambda>r. ds_StatDate r < midnight zone ?t2)"
    by (auto simp: old_visit_def old_stat_def)
  obtain n1 e1 d1 where F1: "?del1 d = Some ((n1, e1), d1) \<and> (ok (fst d1) \<and> okv (snd d1)) \<and>
      (tb (fst d1), st (snd d1)) = (tb (fst d), st (snd d)) \<and> cleared (old_visit s now) (vt (snd d)) n1 e1 (vt (snd d1))"
    using batch_deleter.deleteAll_total [OF visits_deleter(1) [OF assms(1,2) limit] assms(3), of ?t1, folded old(1)]
    by (elim exE) (rule that)
  then have okd1: "ok (fst d1) \<and> okv (snd d1)" by blast
  show ?thesis
  proof (cases e1)
    case (Some err)
    with F1 show ?thesis unfolding stage
      by (intro exI [of _ report] exI [of _ e1] exI [of _ d1] exI [of _ n1] exI [of _ 0] exI [of _ "Some err"]) simp
  next
    case None
    obtain n2 e2 d2 where F2: "?del2 d1 = Some ((n2, e2), d2) \<and> (ok (fst d2) \<and> okv (snd d2)) \<and>
        (tb (fst d2), vt (snd d2)) = (tb (fst d1), vt (snd d1)) \<and> cleared (old_stat s zone now) (st (snd d1)) n2 e2 (st (snd d2))"
      using batch_deleter.deleteAll_total [OF visits_deleter(2) [OF assms(1,2) limit] okd1, of zone ?t2, folded old(2)]
      by (elim exE) (rule that)
    have "clean_visits (on_first (db_ctx_Err D)) s now report d =
        Some ((if e2 = None then report\<lparr>rp_VisitLogsDeleted := n1, rp_DailyStatsDeleted := n2\<rparr>
               else report\<lparr>rp_VisitLogsDeleted := n1\<rparr>, e2), d2)"
      unfolding stage using F1 F2 None by (simp split: option.splits)
    with F1 F2 None show ?thesis
      by (intro exI [of _ "if e2 = None then report\<lparr>rp_VisitLogsDeleted := n1, rp_DailyStatsDeleted := n2\<rparr> else report\<lparr>rp_VisitLogsDeleted := n1\<rparr>"]
        exI [of _ e2] exI [of _ d2] exI [of _ n1] exI [of _ e1] exI [of _ n2]) simp
  qed
qed

text \<open>The stage of the links: the codes of the deleted rows go to the cache first.\<close>

lemma on_links_eq: "f (l, h) = Some (a, l', h') \<Longrightarrow> on_links f ((l, v), h) = Some (a, (l', v), h')"
  by (simp add: on_links_def)

lemma clean_links_total:
  assumes "db_laws nf tb ok D" and "ok l" and s_def: "s = worker_service D V zone R f fnow b vr sr"
  shows "\<exists>rep e l' h' bs e'. clean_links s now report ((l, v), h) = Some ((rep, e), (l', v), h') \<and> ok l' \<and>
    run_batches (RedisCache_Delete R) bs h = (e', h') \<and>
    (\<forall>t. cleared (expired_by now) (tb l t) (expired_count (tb l t) now)
       (if t \<in> set shard_tables then e else Some ErrExpired) (tb l' t)) \<and>
    (e = None \<longrightarrow> rep = report\<lparr>rp_ExpiredLinksDeleted := expired_total tb now l\<rparr>)"
proof -
  let ?handle = "Some (\<lambda>codes h. RedisCache_Delete R codes h)"
  obtain n e e' l' h' where F: "DeleteExpired D now (cs_batchSize s) ?handle (l, h) = Some ((n, e), l', h') \<and>
      removes tb ok (the_handler ?handle) now (l, h) e' (l', h') \<and> (\<forall>t. t \<notin> set shard_tables \<longrightarrow> tb l' t = tb l t) \<and>
      (e = None \<longrightarrow> e' = None \<and> (\<forall>t \<in> set shard_tables. tb l' t = {r \<in> tb l t. \<not> expired_by now r}) \<and>
        n = expired_total tb now l)"
    using DeleteExpired_total [OF assms(1,2), of now "cs_batchSize s" ?handle h] by (elim exE) (rule that)
  then have run: "DeleteExpired D now (cs_batchSize s) ?handle (l, h) = Some ((n, e), l', h')"
    and other: "\<And>t. t \<notin> set shard_tables \<Longrightarrow> tb l' t = tb l t"
    and all: "\<And>t. e = None \<Longrightarrow> t \<in> set shard_tables \<Longrightarrow> tb l' t = {r \<in> tb l t. \<not> expired_by now r}"
    and count: "e = None \<Longrightarrow> n = expired_total tb now l" by blast+
  from F obtain bs where bs: "run_batches (RedisCache_Delete R) bs h = (e', h')" and okl: "ok l'"
    and sub: "\<And>t. tb l' t \<subseteq> tb l t \<and> (\<forall>r \<in> tb l t - tb l' t. expired_by now r)"
    unfolding removes_def the_handler_def option.case fst_conv snd_conv by blast
  have clear: "cleared (expired_by now) (tb l t) (expired_count (tb l t) now)
      (if t \<in> set shard_tables then e else Some ErrExpired) (tb l' t)" for t
  proof (cases "t \<in> set shard_tables")
    case True
    have "e = None \<Longrightarrow> tb l' t = {r \<in> tb l t. \<not> expired_by now r}" by (rule all [OF _ True])
    with sub [of t] show ?thesis unfolding cleared_def expired_count_def if_P [OF True] by blast
  next
    case False
    from other [OF False] False show ?thesis by simp
  qed
  have "clean_links s now report ((l, v), h) =
      Some ((if e = None then report\<lparr>rp_ExpiredLinksDeleted := n\<rparr> else report, e), (l', v), h')"
    unfolding clean_links_def s_def worker_service_sel(1,3) option.case cleanup_links.simps
      on_links_eq [where f = "DeleteExpired D now (cs_batchSize (worker_service D V zone R f fnow b vr sr)) ?handle",
        OF run [unfolded s_def]]
    by (cases e) simp_all
  with bs okl clear count show ?thesis
    by (intro exI [of _ "if e = None then report\<lparr>rp_ExpiredLinksDeleted := n\<rparr> else report"] exI [of _ e] exI [of _ l'] exI [of _ h']
        exI [of _ bs] exI [of _ e'] conjI allI) simp_all
qed

text \<open>Deleting cached links takes nothing from a filter and creates no key.\<close>

lemma cache_delete_keeps:
  assumes "redis_laws db R" and "run_batches (RedisCache_Delete R) bs h = (e, h')"
  shows "(persistent (db h) k \<longrightarrow> persistent (db h') k) \<and> (db h k = None \<longrightarrow> db h' k = None)"
  using assms(2)
proof (induction bs arbitrary: h)
  case Nil
  then show ?case by simp
next
  case (Cons codes bs)
  obtain e1 h1 where one: "RedisCache_Delete R codes h = (e1, h1)" by fastforce
  have "(persistent (db h) k \<longrightarrow> persistent (db h1) k) \<and> (db h k = None \<longrightarrow> db h1 k = None)"
  proof (cases "codes = []")
    case True
    with one show ?thesis by (simp add: RedisCache_Delete_def)
  next
    case False
    with one have del: "rd_Del R (map LinkKey codes) h = (e1, h1)" by (simp add: RedisCache_Delete_def)
    have later: "(persistent m k \<longrightarrow> persistent m' k) \<and> (m k = None \<longrightarrow> m' k = None)" if "evolves m m'" for m m'
      using that persistent_evolves unfolding evolves_def map_le_def by (metis domIff)
    from redis_lawsD(3) [OF assms(1)] del show ?thesis
    proof (rule write_lawE)
      fix m assume "eff_del (map LinkKey codes) (db h) = Some m" and "evolves m (db h1)"
      moreover from this(1) have "(persistent (db h) k \<longrightarrow> persistent m k) \<and> (db h k = None \<longrightarrow> m k = None)"
        by (auto simp: eff_del_def persistent_def restrict_map_def split: if_splits)
      ultimately show ?thesis using later by blast
    next
      assume "evolves (db h) (db h1)"
      then show ?thesis by (rule later)
    qed
  qed
  with one Cons show ?case by (cases e1) auto
qed

text \<open>The stage of the filter ends and leaves the tables as they are.\<close>

lemma lifted_source:
  assumes "db_laws nf tb ok D"
  shows "code_source (\<lambda>b h. on_links (ListActiveCodes D b h)) (\<lambda>d. ok (fst d)) (\<lambda>d. active_codes tb D (fst d))"
proof (unfold_locales, goal_cases)
  case (1 d b h s e d' s')
  then obtain l' where "ListActiveCodes D b h (fst d, s) = Some (e, l', s')"
    by (auto simp: on_links_def split: option.splits)
  with ListActiveCodes_total [OF assms 1(1), of b h s] show ?case by (auto simp: hands_over_def)
qed

lemma lifted_source_total:
  assumes "db_laws nf tb ok D" and "ok l"
  shows "\<exists>e l' s'. on_links (ListActiveCodes D b handle) ((l, v), s) = Some (e, (l', v), s') \<and> ok l' \<and> tb l' = tb l"
proof -
  from ListActiveCodes_total [OF assms, of b handle s] obtain e l' s' where
    "ListActiveCodes D b handle (l, s) = Some (e, l', s')" "ok l'" "tb l' = tb l"
    by (auto simp: hands_over_def)
  then show ?thesis by (simp add: on_links_def)
qed

lemma RedisBloom_Rebuild_total:
  assumes "\<And>b handle h. \<exists>e d' h'. source b handle (d, h) = Some (e, d', h') \<and> kept d'" and "kept d"
  shows "\<exists>e d' h'. RedisBloom_Rebuild R f fnow source b (d, h) = Some (e, d', h') \<and> kept d'"
proof -
  obtain e1 h1 where "rd_Set R (rb_markerKey f) (rebuildTempKey f fnow) 0 h = (e1, h1)" by fastforce
  moreover obtain e2 h2 where "reserve R f (rebuildTempKey f fnow) h1 = (e2, h2)" by fastforce
  moreover obtain e3 d3 h3 where "source (if b \<le> 0 then 1000 else b) (addBatchToKey R (rebuildTempKey f fnow)) (d, h2) =
      Some (e3, d3, h3)" "kept d3"
    using assms(1) by blast
  moreover obtain e4 h4 where "finishRebuild R f (rebuildTempKey f fnow) h3 = (e4, h4)" by fastforce
  ultimately show ?thesis
    using assms(2) by (cases e1; cases e2; cases e3) (simp_all add: RedisBloom_Rebuild_def Let_def)
qed

lemma rebuild_filter_total:
  assumes "db_laws nf tb ok D" and "ok l" and s_def: "s = worker_service D V zone R f fnow b vr sr"
  shows "\<exists>rep e l' h'. rebuild_filter s report ((l, v), h) = Some ((rep, e), (l', v), h') \<and> ok l' \<and> tb l' = tb l \<and>
    (e = None \<longrightarrow> rep = report\<lparr>rp_FilterRebuilt := True\<rparr> \<and>
      RedisBloom_Rebuild R f fnow (\<lambda>b h. on_links (ListActiveCodes D b h)) (cs_batchSize s) ((l, v), h) =
        Some (None, (l', v), h'))"
proof -
  let ?source = "\<lambda>b h. on_links (ListActiveCodes D b h)"
  let ?kept = "\<lambda>d. ok (fst d) \<and> tb (fst d) = tb l \<and> snd d = v"
  have "\<exists>e d' h'. ?source b handle ((l, v), h) = Some (e, d', h') \<and> ?kept d'" for b handle h
    using lifted_source_total [OF assms(1,2), of b handle v h] by fastforce
  from RedisBloom_Rebuild_total [of ?source "(l, v)" ?kept R f fnow "cs_batchSize s" h, OF this] assms(2)
  obtain e l' h' where "RedisBloom_Rebuild R f fnow ?source (cs_batchSize s) ((l, v), h) = Some (e, (l', v), h')"
      and kept: "ok l'" "tb l' = tb l"
    by (auto 0 0)
  moreover from this(1) have "rebuild_filter s report ((l, v), h) =
      Some ((if e = None then report\<lparr>rp_FilterRebuilt := True\<rparr> else report, e), (l', v), h')"
    by (cases e) (simp_all add: rebuild_filter_def s_def worker_service_sel)
  ultimately show ?thesis
    by (intro exI [of _ "if e = None then report\<lparr>rp_FilterRebuilt := True\<rparr> else report"] exI [of _ e] exI [of _ l']
        exI [of _ h']) simp
qed

text \<open>What a run leaves of the database: links, visits and statistics, with their counts.\<close>

definition swept :: "('r \<Rightarrow> bool) \<Rightarrow> 'r set \<Rightarrow> 'r set \<Rightarrow> bool" where
  "swept P T T' \<longleftrightarrow> T' \<subseteq> T \<and> (\<forall>r \<in> T - T'. P r)"

lemma exI5: "P a b c d e \<Longrightarrow> \<exists>a b c d e. P a b c d e"
  by blast

lemma swept_refl [simp]: "swept P T T"
  by (simp add: swept_def)

lemma cleared_swept: "cleared P T n e T' \<Longrightarrow> swept P T T'"
  by (simp add: cleared_def swept_def)

lemma cleared_all: "cleared P T n None T' \<Longrightarrow> T' = {r \<in> T. \<not> P r} \<and> n = int (card {r \<in> T. P r})"
  unfolding cleared_def by blast

section \<open>Properties\<close>

text \<open>
  C8 (termination). A run of the cleanup returns, for every batch size and whatever fails. It removes
  only links that have expired, visits older than their retention and statistics of days before the
  one of theirs, by the time it began. If it reports no error it has removed all of these, its report
  holds their numbers, and the filter holds every active code that is left.
\<close>

theorem cleanup_total:
  assumes laws: "db_laws nf tb ok D" "visit_laws vt st okv V" "redis_laws db R"
    and state: "ok l" "okv v" "db h (rebuildTempKey f fnow) = None" "persistent (db h) (rb_key f)"
    and f: "f = NewRedisBloom options" and s: "s = worker_service D V zone R f fnow b vr sr"
    and now: "now = fst (db_now D l)"
  shows "\<exists>rep e l' v' h'. RunOnce (on_first (db_ctx_Err D)) s ((l, v), h) = Some ((rep, e), (l', v'), h') \<and>
    (\<forall>t. swept (expired_by now) (tb l t) (tb l' t)) \<and>
    swept (\<lambda>r. vr_VisitedAt r < now - cs_visitRetention s) (vt v) (vt v') \<and>
    swept (\<lambda>r. ds_StatDate r < midnight zone (now - cs_statRetention s)) (st v) (st v') \<and>
    (e = None \<longrightarrow>
      (\<forall>t \<in> set shard_tables. tb l' t = {r \<in> tb l t. \<not> expired_by now r}) \<and>
      vt v' = {r \<in> vt v. now - cs_visitRetention s \<le> vr_VisitedAt r} \<and>
      st v' = {r \<in> st v. midnight zone (now - cs_statRetention s) \<le> ds_StatDate r} \<and>
      rep = \<lparr>rp_ExpiredLinksDeleted = expired_total tb now l,
             rp_VisitLogsDeleted = int (card {r \<in> vt v. vr_VisitedAt r < now - cs_visitRetention s}),
             rp_DailyStatsDeleted = int (card {r \<in> st v. ds_StatDate r < midnight zone (now - cs_statRetention s)}),
             rp_FilterRebuilt = True\<rparr> \<and>
      (\<exists>l1. tb l1 = tb l' \<and> active_codes tb D l1 \<subseteq> bloom_items (db h') (rb_key f)))"
proof -
  obtain l0 where read: "db_now D l = (now, l0)" using now by (metis prod.collapse)
  note l0 = read_done(1) [OF laws(1) state(1) read]
  have now_s: "cs_now s (fst ((l, v), h)) = (now, l0, v)" using read by (simp add: s worker_service_sel on_first_def)
  have totals: "expired_total tb now l0 = expired_total tb now l" using l0 by (simp add: expired_total_def)
  obtain rep1 e1 l1 h1 bs e1' where L: "clean_links s now zero_Report ((l0, v), h) = Some ((rep1, e1), (l1, v), h1)" "ok l1"
      "run_batches (RedisCache_Delete R) bs h = (e1', h1)"
      "\<And>t. cleared (expired_by now) (tb l0 t) (expired_count (tb l0 t) now)
         (if t \<in> set shard_tables then e1 else Some ErrExpired) (tb l1 t)"
      "e1 = None \<Longrightarrow> rep1 = zero_Report\<lparr>rp_ExpiredLinksDeleted := expired_total tb now l\<rparr>"
    using clean_links_total [OF laws(1) conjunct1 [OF l0] s, of now zero_Report v h] unfolding totals by blast
  have links: "swept (expired_by now) (tb l t) (tb l1 t)" for t using cleared_swept [OF L(4)] l0 by simp
  have all_links: "tb l1 t = {r \<in> tb l t. \<not> expired_by now r}" if "e1 = None" "t \<in> set shard_tables" for t
    using cleared_all [OF L(4) [of t, unfolded if_P [OF that(2)] that(1)]] l0 by simp
  show ?thesis
  proof (cases e1)
    case (Some err)
    then have "RunOnce (on_first (db_ctx_Err D)) s ((l, v), h) = Some ((rep1, e1), (l1, v), h1)"
      using now_s L(1) by (simp add: RunOnce_def)
    with links Some show ?thesis
      by (intro exI [of _ rep1] exI [of _ e1] exI [of _ l1] exI [of _ v] exI [of _ h1] conjI allI) simp_all
  next
    case e1: None
    from L(2) state(2) have "ok (fst (l1, v)) \<and> okv (snd (l1, v))" by simp
    from clean_visits_total [OF laws(1,2) this s, of now rep1] obtain rep2 e2 l2 v2 n1 f1 n2 f2 where
      V: "clean_visits (on_first (db_ctx_Err D)) s now rep1 (l1, v) = Some ((rep2, e2), (l2, v2))" "ok l2" "tb l2 = tb l1"
        "cleared (old_visit s now) (vt v) n1 f1 (vt v2)" "cleared (old_stat s zone now) (st v) n2 f2 (st v2)"
        "e2 = None \<Longrightarrow> f1 = None \<and> f2 = None \<and> rep2 = rep1\<lparr>rp_VisitLogsDeleted := n1, rp_DailyStatsDeleted := n2\<rparr>"
      by auto
    have olds: "old_visit s now = (\<lambda>r. vr_VisitedAt r < now - cs_visitRetention s)"
      "old_stat s zone now = (\<lambda>r. ds_StatDate r < midnight zone (now - cs_statRetention s))"
      by (auto simp: old_visit_def old_stat_def)
    note visits = cleared_swept [OF V(4), unfolded olds] cleared_swept [OF V(5), unfolded olds]
    show ?thesis
    proof (cases e2)
      case (Some err)
      then have "RunOnce (on_first (db_ctx_Err D)) s ((l, v), h) = Some ((rep2, e2), (l2, v2), h1)"
        using now_s L(1) V(1) e1 by (simp add: RunOnce_def)
      with links visits Some V(3) show ?thesis
        by (intro exI [of _ rep2] exI [of _ e2] exI [of _ l2] exI [of _ v2] exI [of _ h1] conjI allI) simp_all
    next
      case e2: None
      obtain rep e l' h' where F: "rebuild_filter s rep2 ((l2, v2), h1) = Some ((rep, e), (l', v2), h')" "ok l'" "tb l' = tb l2"
          "e = None \<Longrightarrow> rep = rep2\<lparr>rp_FilterRebuilt := True\<rparr> \<and>
            RedisBloom_Rebuild R f fnow (\<lambda>b h. on_links (ListActiveCodes D b h)) (cs_batchSize s) ((l2, v2), h1) =
              Some (None, (l', v2), h')"
        using rebuild_filter_total [OF laws(1) V(2) s, of rep2 v2 h1] by blast
      have run: "RunOnce (on_first (db_ctx_Err D)) s ((l, v), h) = Some ((rep, e), (l', v2), h')"
        using now_s L(1) V(1) F(1) e1 e2 by (simp add: RunOnce_def)
      note keep = cache_delete_keeps [OF laws(3) L(3)]
      have "bloom_key (rb_key f) {} (db h1)" using keep [of "rb_key f"] state(4) by (simp add: bloom_key_def)
      moreover have "db h1 (rebuildTempKey f fnow) = None" using keep state(3) by blast
      ultimately have bloom: "active_codes tb D l2 \<subseteq> bloom_items (db h') (rb_key f)" if "e = None"
        using RedisBloom_Rebuild_result [OF lifted_source [OF laws(1)] _ laws(3) f, of "(l2, v2)" h1 fnow "{}" "cs_batchSize s"
            None "(l', v2)" h'] F(4) [OF that] V(2) by (simp add: bloom_key_def)
      have done_all: "vt v2 = {r \<in> vt v. now - cs_visitRetention s \<le> vr_VisitedAt r} \<and>
          st v2 = {r \<in> st v. midnight zone (now - cs_statRetention s) \<le> ds_StatDate r} \<and>
          n1 = int (card {r \<in> vt v. vr_VisitedAt r < now - cs_visitRetention s}) \<and>
          n2 = int (card {r \<in> st v. ds_StatDate r < midnight zone (now - cs_statRetention s)})"
        using V(4,5) V(6) [OF e2] unfolding olds by (auto dest!: cleared_all simp: not_less)
      have same: "tb l' = tb l1" using F(3) V(3) by simp
      have "rep = \<lparr>rp_ExpiredLinksDeleted = expired_total tb now l, rp_VisitLogsDeleted = n1, rp_DailyStatsDeleted = n2,
          rp_FilterRebuilt = True\<rparr>" if "e = None"
        using F(4) [OF that] V(6) [OF e2] L(5) [OF e1] by (simp add: zero_Report_def)
      moreover have "\<exists>l1. tb l1 = tb l' \<and> active_codes tb D l1 \<subseteq> bloom_items (db h') (rb_key f)" if "e = None"
        using bloom [OF that] F(3) by auto
      ultimately show ?thesis
        using run links [folded same] visits all_links [OF e1, folded same] done_all
        by - (rule exI5 [of _ rep e l' v2 h'], intro conjI impI allI ballI; simp only: simp_thms)
    qed
  qed
qed

text \<open>The sample database of links and one day of statistics, cleaned at time 2000.\<close>

definition old_visits :: mem_visits where
  "old_visits = \<lparr>mv_visits =
     [\<lparr>vr_ID = 1, vr_Code = NewShortCode 7, vr_VisitedAt = 1000, vr_IP = [], vr_UserAgent = [], vr_Referer = []\<rparr>],
     mv_stats = [], mv_now = 3000\<rparr>"

lemma old_visits_ok: "mem_visits_ok old_visits"
  by (simp add: mem_visits_ok_def old_visits_def)

lemma cleanup_total_witness:
  "\<exists>rep e l' v' h'. RunOnce (on_first (db_ctx_Err text_db))
      (worker_service text_db mem_visit_db 0 mem_redis sample_bloom 0 10 1 1) ((sample_db, old_visits), \<lambda>_. None) =
      Some ((rep, e), (l', v'), h') \<and>
    (\<forall>t. swept (expired_by (fst (db_now text_db sample_db))) (mem_tb sample_db t) (mem_tb l' t)) \<and>
    (e = None \<longrightarrow> rp_FilterRebuilt rep \<and> rp_ExpiredLinksDeleted rep =
      expired_total mem_tb (fst (db_now text_db sample_db)) sample_db)"
proof -
  have "persistent (\<lambda>_. None) (rb_key sample_bloom)" by (simp add: persistent_def)
  from cleanup_total [where db = "\<lambda>m. m" and h = "\<lambda>_. None" and fnow = 0 and b = 10 and vr = 1 and sr = 1 and zone = 0,
      OF text_db_laws mem_visit_laws mem_redis_laws sample_db_ok old_visits_ok refl this sample_bloom_def refl refl]
  obtain rep e l' v' h' where
    "RunOnce (on_first (db_ctx_Err text_db))
      (worker_service text_db mem_visit_db 0 mem_redis sample_bloom 0 10 1 1) ((sample_db, old_visits), \<lambda>_. None) =
      Some ((rep, e), (l', v'), h')"
    "\<forall>t. swept (expired_by (fst (db_now text_db sample_db))) (mem_tb sample_db t) (mem_tb l' t)"
    "e = None \<Longrightarrow> rep = \<lparr>rp_ExpiredLinksDeleted = expired_total mem_tb (fst (db_now text_db sample_db)) sample_db,
       rp_VisitLogsDeleted = rp_VisitLogsDeleted rep, rp_DailyStatsDeleted = rp_DailyStatsDeleted rep, rp_FilterRebuilt = True\<rparr>"
    by (elim exE conjE) (rule that, assumption, assumption, simp)
  then show ?thesis
    by - (rule exI5 [of _ rep e l' v' h'], intro conjI impI, assumption, assumption, (metis Report.select_convs(1,4))+)
qed

end
