(* ===== verification/Held_Links.thy ===== *)
theory Held_Links
  imports Link_World
begin

text \<open>
  What a process needs of the shared database and Redis to find a created link: its row and its code in
  the Bloom filter. The service's contract \<open>link_service\<close> is interpreted a second time, with this as a
  part of the legal states: no call of the service, its caches or its cleaner takes either away before
  the link has expired.
\<close>

section \<open>The held links\<close>

definition links_held ::
  "(ShortLinkRecord \<Rightarrow> ShortLinkRecord) \<Rightarrow> ('d \<Rightarrow> string \<Rightarrow> ShortLinkRecord set) \<Rightarrow> ('r \<Rightarrow> keyspace) \<Rightarrow> clock \<Rightarrow>
   string \<Rightarrow> ShortLink set \<Rightarrow> ('d, 'r) node \<Rightarrow> bool" where
  "links_held nf tb db now key X w \<longleftrightarrow>
     persistent (db (nd_redis w)) key \<and>
     (\<forall>item \<in> X. expired_by (now (nd_reads w)) (nf (shortLinkToRecord item)) \<or>
        nf (shortLinkToRecord item) \<in> tb (nd_db w) (shard_tables ! item_shard item) \<and>
        sl_Code item \<in> bloom_items (db (nd_redis w)) key)"

text \<open>Rows go only when they have expired, and the filter keeps what it holds.\<close>

definition keeps_held ::
  "('d \<Rightarrow> string \<Rightarrow> ShortLinkRecord set) \<Rightarrow> ('r \<Rightarrow> keyspace) \<Rightarrow> clock \<Rightarrow> string \<Rightarrow>
   ('d, 'r) node \<Rightarrow> ('d, 'r) node \<Rightarrow> bool" where
  "keeps_held tb db now key w w' \<longleftrightarrow> keeps_rows tb now w w' \<and>
     (\<forall>C. bloom_key key C (db (nd_redis w)) \<longrightarrow> bloom_key key C (db (nd_redis w')))"

lemma expired_by_mono: "s \<le> t \<Longrightarrow> expired_by s r \<Longrightarrow> expired_by t r"
  by (auto simp: expired_by_def split: option.splits)

lemma links_held_keeps:
  assumes "mono now" and "links_held nf tb db now key X w" and "keeps_held tb db now key w w'"
  shows "links_held nf tb db now key X w'"
  unfolding links_held_def
proof (intro conjI ballI)
  have keys: "\<And>C. bloom_key key C (db (nd_redis w)) \<Longrightarrow> bloom_key key C (db (nd_redis w'))"
    and rows: "keeps_rows tb now w w'" using assms(3) by (auto simp: keeps_held_def)
  have "bloom_key key {} (db (nd_redis w))" using assms(2) by (simp add: links_held_def bloom_key_def)
  from keys [OF this] show "persistent (db (nd_redis w')) key" by (simp add: bloom_key_def)
  have later: "now (nd_reads w) \<le> now (nd_reads w')"
    using rows assms(1) by (simp add: keeps_rows_def monoD)
  fix item assume "item \<in> X"
  let ?r = "nf (shortLinkToRecord item)" and ?t = "shard_tables ! item_shard item"
  consider "expired_by (now (nd_reads w)) ?r" | "?r \<in> tb (nd_db w) ?t" "bloom_key key {sl_Code item} (db (nd_redis w))"
    using assms(2) \<open>item \<in> X\<close> by (auto simp: links_held_def bloom_key_def)
  then show "expired_by (now (nd_reads w')) ?r \<or>
      ?r \<in> tb (nd_db w') ?t \<and> sl_Code item \<in> bloom_items (db (nd_redis w')) key"
  proof cases
    case 1
    with later show ?thesis using expired_by_mono by blast
  next
    case 2
    from keys [OF 2(2)] 2(1) rows show ?thesis by (auto simp: keeps_rows_def bloom_key_def)
  qed
qed

lemma links_held_insert:
  "links_held nf tb db now key (insert item X) w \<longleftrightarrow>
     links_held nf tb db now key {item} w \<and> links_held nf tb db now key X w"
  by (auto simp: links_held_def)

lemma keeps_held_trans:
  assumes "mono now" and "keeps_held tb db now key w w1" and "keeps_held tb db now key w1 w2"
  shows "keeps_held tb db now key w w2"
proof -
  have r: "nd_reads w \<le> nd_reads w1" "nd_reads w1 \<le> nd_reads w2"
    using assms(2,3) by (simp_all add: keeps_held_def keeps_rows_def)
  have "now (nd_reads w1) \<le> now (nd_reads w2)" by (rule monoD [OF assms(1) r(2)])
  then have "expired_by (now (nd_reads w1)) x \<Longrightarrow> expired_by (now (nd_reads w2)) x" for x by (rule expired_by_mono)
  with assms(2,3) r show ?thesis unfolding keeps_held_def keeps_rows_def by (meson order.trans)
qed

text \<open>The calls of the parts.\<close>

lemma same_db_keeps:
  "nd_reads w \<le> nd_reads w' \<Longrightarrow> nd_db w' = nd_db w \<Longrightarrow> nd_redis w' = nd_redis w \<Longrightarrow> keeps_held tb db now key w w'"
  by (simp add: keeps_held_def keeps_rows_def)

lemma clock_keeps: "read_clock now w = (t, w') \<Longrightarrow> keeps_held tb db now key w w'"
  by (rule same_db_keeps) (auto simp: read_clock_def)

lemma ids_keeps: "on_ids now w = Some (n, w') \<Longrightarrow> keeps_held tb db now key w w'"
  by (rule same_db_keeps) (auto simp: on_ids_def split: option.splits prod.splits dest!: NextID_reads)

lemma cleaner_keeps: "on_cleaner c t w = (b, w') \<Longrightarrow> keeps_held tb db now key w w'"
  by (rule same_db_keeps) (auto simp: on_cleaner_def split: prod.splits)

lemma local_keeps:
  assumes "on_local g w = (v, w')" and "\<And>c k. g (nd_local w, nd_reads w) = (v, c, k) \<Longrightarrow> nd_reads w \<le> k"
  shows "keeps_held tb db now key w w'"
  by (rule same_db_keeps) (use assms in \<open>auto simp: on_local_def split: prod.splits\<close>)

lemma redis_keeps:
  assumes "on_redis g w = (v, w')"
    and "\<And>C r. g (nd_redis w) = (v, r) \<Longrightarrow> bloom_key key C (db (nd_redis w)) \<Longrightarrow> bloom_key key C (db r)"
  shows "keeps_held tb db now key w w'"
  using assms by (auto simp: on_redis_def keeps_held_def keeps_rows_def split: prod.splits)

lemma redis_evolves_keeps:
  assumes "on_redis g w = (v, w')" and "\<And>r. g (nd_redis w) = (v, r) \<Longrightarrow> evolves (db (nd_redis w)) (db r)"
  shows "keeps_held tb db now key w w'"
  using assms(1) by (rule redis_keeps) (use assms(2) bloom_key_evolves in blast)

lemma cache_delete_bloom:
  assumes "redis_laws db R" and "\<forall>c. LinkKey c \<noteq> k" and "RedisCache_Delete R cs r = (e, r')" and "bloom_key k C (db r)"
  shows "bloom_key k C (db r')"
proof (cases "cs = []")
  case True
  with assms(3,4) show ?thesis by (simp add: RedisCache_Delete_def)
next
  case False
  with assms(3) have "rd_Del R (map LinkKey cs) r = (e, r')" by (simp add: RedisCache_Delete_def)
  from del_keeps [OF assms(1) this assms(4)] assms(2) show ?thesis by auto
qed

lemma db_keeps:
  assumes "on_db g w = (v, w')"
    and "\<And>d k. g (nd_db w, nd_reads w) = (v, d, k) \<Longrightarrow> nd_reads w \<le> k \<and> (\<forall>t. tb (nd_db w) t \<subseteq> tb d t)"
  shows "keeps_held tb db now key w w'"
  using assms by (fastforce simp: on_db_def keeps_held_def keeps_rows_def split: prod.splits)

lemma create_keeps:
  assumes "db_laws nf tb ok D" and "ok (nd_db w)" and "re_Create (repo_port now D) it w = (e, w')"
  shows "keeps_held tb db now key w w'"
proof -
  have run: "on_db (Create (clocked now D) it) w = (e, w')" using assms(3) by (simp add: repo_port_def)
  show ?thesis
  proof (rule db_keeps [OF run])
    fix d k assume run: "Create (clocked now D) it (nd_db w, nd_reads w) = (e, d, k)"
    show "nd_reads w \<le> k \<and> (\<forall>t. tb (nd_db w) t \<subseteq> tb d t)"
    proof (cases "valid_item it")
      case False
      with run Create_invalid [OF False, of "clocked now D" "(nd_db w, nd_reads w)"] show ?thesis by auto
    next
      case True
      let ?t = "shard_tables ! item_shard it"
      obtain e' d' where ins: "db_insert D ?t (shortLinkToRecord it) (nd_db w) = (e', d')" by fastforce
      then have "d' = d" "k = nd_reads w"
        using run Create_valid [OF True, of "clocked now D" "(nd_db w, nd_reads w)"] by auto
      moreover have "tb (nd_db w) t \<subseteq> tb d' t" for t by (rule insert_done [OF assms(1,2) ins]; auto)
      ultimately show ?thesis by blast
    qed
  qed
qed

lemma find_keeps:
  assumes "db_laws nf tb ok D" and "ok (nd_db w)" and "re_FindActiveByCode (repo_port now D) c w = (v, w')"
  shows "keeps_held tb db now key w w'"
proof -
  have run: "on_db (FindActiveByCode (clocked now D) c) w = (v, w')" using assms(3) by (simp add: repo_port_def)
  show ?thesis by (rule db_keeps [OF run]) (use FindActive_clocked(1) [OF assms(1,2)] in auto)
qed

lemma run_cleaner_keeps:
  assumes "db_laws nf tb ok D" and "node_ok nf tb ok D db J now w" and "run_cleaner w = Some w'"
  shows "keeps_held tb db now key w w'"
proof -
  note rows = run_cleaner_rows [OF assms]
  then obtain c d where "w' = w\<lparr>nd_cleaner := c, nd_db := d, nd_reads := nd_reads w\<rparr>" by (elim conjE exE) (rule that)
  with conjunct1 [OF rows] show ?thesis by (simp add: keeps_held_def)
qed

section \<open>The service keeps them\<close>

lemma held_adv:
  assumes "advances I (since_of now) (latest_of now) Q w w'" and "mono now"
    and "I w \<and> links_held nf tb db now key X w \<and> k \<le> nd_reads w" and "keeps_held tb db now key w w'"
  shows "advances (\<lambda>w. I w \<and> links_held nf tb db now key X w \<and> k \<le> nd_reads w) (since_of now) (latest_of now) Q w w'"
proof -
  have "nd_reads w \<le> nd_reads w'" using assms(4) by (simp add: keeps_held_def keeps_rows_def)
  with assms(1) links_held_keeps [OF assms(2) _ assms(4)] assms(3) show ?thesis by (simp add: advances_def)
qed

locale held_parts = node_parts nf tb ok D db R J now one_caller
  for nf :: "ShortLinkRecord \<Rightarrow> ShortLinkRecord" and tb :: "'d \<Rightarrow> string \<Rightarrow> ShortLinkRecord set" and ok :: "'d \<Rightarrow> bool"
    and D :: "'d link_db" and db :: "'r \<Rightarrow> keyspace" and R :: "'r redis" and J :: codec and now :: clock +
  fixes f :: RedisBloom
  assumes other_keys: "LinkKey c \<noteq> rb_key f"

sublocale held_parts \<subseteq> held: link_service "the_service ids now D R f J domain one_caller parser"
    "\<lambda>w. node_ok nf tb ok D db J now w \<and> links_held nf tb db now (rb_key f) X w \<and> k \<le> nd_reads w"
    "since_of now" "latest_of now" "coherent nf tb now" "db_text_eq D"
  for ids domain parser X k
proof (unfold_locales, goal_cases)
  case (1 c)
  show ?case by (rule text_eq_refl [OF database])
next
  case (2 w t w')
  from parts.now_law [OF conjunct1 [OF 2(1)] 2(2)] have adv: "advances (node_ok nf tb ok D db J now) (since_of now) (latest_of now) (coherent nf tb now) w w'"
    "since_of now w \<le> t \<and> t \<le> latest_of now w'" by blast+
  from 2(2) have "read_clock now w = (t, w')" by (simp add: the_service_sel)
  from held_adv [OF adv(1) clock 2(1) clock_keeps [OF this]] adv(2) show ?case by blast
next
  case (3 C w c it hit e w')
  note adv = parts.get_law [OF 3(1) conjunct1 [OF 3(2)] 3(3)]
  have "keeps_held tb db now (rb_key f) w w'"
  proof (cases "C = local_port now")
    case True
    with 3(3) have "on_local (Local_Get now c) w = ((it, hit, e), w')" by (simp add: local_port_def)
    then show ?thesis by (rule local_keeps) (rule Local_Get_reads)
  next
    case False
    with 3(1) have "C = redis_port R J" by (auto simp: caches_def the_service_sel)
    with 3(3) have "on_redis (RedisCache_Get R J c) w = ((it, hit, e), w')" by (simp add: redis_port_def)
    then show ?thesis by (rule redis_evolves_keeps) (rule RedisCache_Get_result(1) [OF redis_server])
  qed
  from held_adv [OF conjunct1 [OF adv] clock 3(2) this] adv show ?case by blast
next
  case (4 C w it ttl e w')
  note adv = parts.set_law [OF 4(1) conjunct1 [OF 4(2)] 4(3,4)]
  have "keeps_held tb db now (rb_key f) w w'"
  proof (cases "C = local_port now")
    case True
    with 4(4) have "on_local (Local_Set now it ttl) w = (e, w')" by (simp add: local_port_def)
    then show ?thesis by (rule local_keeps) (rule Local_Set_reads)
  next
    case False
    with 4(1) have "C = redis_port R J" by (auto simp: caches_def the_service_sel)
    with 4(4) have "on_redis (RedisCache_Set R J it ttl) w = (e, w')" by (simp add: redis_port_def)
    then show ?thesis by (rule redis_keeps) (rule redis_set_bloom [OF redis_server allI [OF other_keys]])
  qed
  from held_adv [OF adv clock 4(2) this] show ?case .
next
  case (5 C delete w cs e w')
  note adv = parts.del_law [OF 5(1,2) conjunct1 [OF 5(3)] 5(4)]
  have "keeps_held tb db now (rb_key f) w w'"
  proof (cases "C = local_port now")
    case True
    with 5(2,4) have "on_local (Local_Delete cs) w = (e, w')" by (auto simp: local_port_def)
    then show ?thesis by (rule local_keeps) (simp add: Local_Delete_def)
  next
    case False
    with 5(1) have "C = redis_port R J" by (auto simp: caches_def the_service_sel)
    with 5(2,4) have "on_redis (RedisCache_Delete R cs) w = (e, w')" by (auto simp: redis_port_def)
    then show ?thesis by (rule redis_keeps) (rule cache_delete_bloom [OF redis_server allI [OF other_keys]])
  qed
  from held_adv [OF adv clock 5(3) this] show ?case .
next
  case (6 F w c e w')
  note adv = parts.add_law [OF 6(1) conjunct1 [OF 6(2)] 6(3)]
  have "on_redis (RedisBloom_Add R f c) w = (e, w')" using 6(1,3) by (auto simp: the_service_sel filter_port_def)
  then have "keeps_held tb db now (rb_key f) w w'" by (rule redis_keeps) (rule RedisBloom_Add_keeps [OF redis_server])
  from held_adv [OF adv clock 6(2) this] show ?case .
next
  case (7 F w c m w')
  note adv = parts.might_law [OF 7(1) conjunct1 [OF 7(2)] 7(3)]
  have "on_redis (RedisBloom_MightContain R f c) w = (m, w')" using 7(1,3) by (auto simp: the_service_sel filter_port_def)
  then have "keeps_held tb db now (rb_key f) w w'"
    by (rule redis_evolves_keeps) (simp add: RedisBloom_MightContain_def read_evolves(3) [OF redis_server, of "rb_key f" c])
  from held_adv [OF adv clock 7(2) this] show ?case .
next
  case (8 enqueue w t c b w')
  note adv = parts.enqueue_law [OF 8(1) conjunct1 [OF 8(2)] 8(3,4)]
  have "on_cleaner c t w = (b, w')" using 8(1,4) by (auto simp: the_service_sel)
  from held_adv [OF adv clock 8(2) cleaner_keeps [OF this]] show ?case .
next
  case (9 gen w n w')
  note adv = parts.id_law [OF 9(1) conjunct1 [OF 9(2)] 9(3)]
  have "on_ids now w = Some (n, w')" using 9(1,3) by (auto simp: the_service_sel split: if_splits)
  from held_adv [OF adv clock 9(2) ids_keeps [OF this]] show ?case .
next
  case (10 w it e w')
  note adv = parts.create_law [OF conjunct1 [OF 10(1)] 10(2)]
  have "re_Create (repo_port now D) it w = (e, w')" "ok (nd_db w)" using 10 by (simp_all add: the_service_sel node_ok_def)
  from held_adv [OF conjunct1 [OF adv] clock 10(1) create_keeps [OF database this(2,1)]] adv show ?case by blast
next
  case (11 w c v w')
  note adv = parts.find_law [OF conjunct1 [OF 11(1)] 11(2)]
  have "re_FindActiveByCode (repo_port now D) c w = (v, w')" "ok (nd_db w)" using 11 by (simp_all add: the_service_sel node_ok_def)
  from held_adv [OF conjunct1 [OF adv] clock 11(1) find_keeps [OF database this(2,1)]] adv show ?case by blast
next
  case (12 fn w c v w')
  then show ?case by (auto simp: the_service_sel one_caller_def)
qed

context held_parts
begin

text \<open>A creation that succeeds leaves one more held link.\<close>

lemma created_held:
  assumes "node_ok nf tb ok D db J now w" and "links_held nf tb db now (rb_key f) X w" and "rb_key f \<noteq> []"
    and "CreateShortLink (the_service True now D R f J domain one_caller parser) req w = Some (Inr resp, w')"
  shows "\<exists>item. valid_item item \<and> sl_Code item = rs_Code resp \<and> sl_Code item = NewShortCode (sl_ID item) \<and>
    sl_Status item = ShortLinkStatusActive \<and> sl_ExpireAt item = cr_ExpireAt req \<and>
    nf (shortLinkToRecord item) \<in> tb (nd_db w') (shard_tables ! item_shard item) \<and>
    links_held nf tb db now (rb_key f) (insert item X) w'"
proof -
  have "ok (nd_db w)" "persistent (db (nd_redis w)) (rb_key f)" using assms(1,2) by (simp_all add: node_ok_def links_held_def)
  from created_state [OF database redis_server this(1) assms(3) this(2) allI [OF other_keys] refl assms(4)] obtain item where
    item: "sl_Code item = rs_Code resp" "valid_item item" "sl_Status item = ShortLinkStatusActive"
      "sl_ExpireAt item = cr_ExpireAt req" "nf (shortLinkToRecord item) \<in> tb (nd_db w') (shard_tables ! item_shard item)"
      "bloom_key (rb_key f) {rs_Code resp} (db (nd_redis w'))" "sl_Code item = NewShortCode (sl_ID item)"
    by (elim exE conjE) (rule that)
  have "links_held nf tb db now (rb_key f) X w'"
    using held.CreateShortLink_result [OF _ assms(4), of X 0] assms(1,2) by (simp add: advances_def)
  moreover have "links_held nf tb db now (rb_key f) {item} w'"
    using item by (simp add: links_held_def bloom_key_def)
  ultimately have "links_held nf tb db now (rb_key f) (insert item X) w'"
    using links_held_insert [of nf tb db now "rb_key f" item X w'] by blast
  with item show ?thesis by blast
qed

text \<open>What a creation and a resolution leave of the state, whichever links are held.\<close>

lemma service_leaves:
  assumes "node_ok nf tb ok D db J now w" and "links_held nf tb db now (rb_key f) X w"
    and "CreateShortLink (the_service ids now D R f J domain one_caller parser) req w = Some (v, w') \<or>
      Resolve (the_service ids now D R f J domain one_caller parser) code w = (u, w')"
  shows "node_ok nf tb ok D db J now w' \<and> links_held nf tb db now (rb_key f) X w' \<and> nd_reads w \<le> nd_reads w' \<and>
    (\<forall>it. coherent nf tb now w it \<longrightarrow> coherent nf tb now w' it)"
proof -
  let ?I = "\<lambda>w'. node_ok nf tb ok D db J now w' \<and> links_held nf tb db now (rb_key f) X w' \<and> nd_reads w \<le> nd_reads w'"
  have I: "?I w" using assms(1,2) by simp
  from assms(3) have "advances ?I (since_of now) (latest_of now) (coherent nf tb now) w w'"
  proof
    assume "CreateShortLink (the_service ids now D R f J domain one_caller parser) req w = Some (v, w')"
    from conjunct1 [OF held.CreateShortLink_result [OF I this]] show ?thesis .
  next
    assume "Resolve (the_service ids now D R f J domain one_caller parser) code w = (u, w')"
    from conjunct1 [OF held.Resolve_result [OF I this]] show ?thesis .
  qed
  then show ?thesis by (simp add: advances_def)
qed

lemma cleaner_leaves:
  assumes "node_ok nf tb ok D db J now w" and "links_held nf tb db now (rb_key f) X w" and "run_cleaner w = Some w'"
  shows "node_ok nf tb ok D db J now w' \<and> links_held nf tb db now (rb_key f) X w' \<and> nd_reads w \<le> nd_reads w' \<and>
    (\<forall>it. coherent nf tb now w it \<longrightarrow> coherent nf tb now w' it)"
proof -
  note keep = run_cleaner_keeps [OF database assms(1,3)]
  have "nd_reads w \<le> nd_reads w'" using run_cleaner_rows [OF database assms(1,3)] by (simp add: keeps_rows_def)
  with run_cleaner_adv [OF database clock assms(1,3)] links_held_keeps [OF clock assms(2) keep]
  show ?thesis by (simp add: node_adv_def advances_def)
qed

end

interpretation sample_held: held_parts "\<lambda>r. r" mem_tb "mem_ok (=)" text_db "\<lambda>m. m" mem_redis
    "one_link_codec sample_link" node_clock node_bloom
  by unfold_locales (rule LinkKey_not_bloom)

end
