(* ===== verification/Deployment.thy ===== *)
theory Deployment
  imports End_To_End Cleanup Held_Links
begin

text \<open>
  The whole deployment: \<open>linksvc\<close> and \<open>redirectsvc\<close>, the cleaners inside them, and the runs of
  \<open>worker\<close>, over one database, one Redis and one clock. Here the assumption of the service's theorems
  about the other processes is discharged: what every process does leaves the others' states legal, and
  a link that was created stays where a resolution finds it until it expires.

  A creation, a resolution, the handling of one item by a cleaner and a run of the worker are one step
  each, as if nothing else ran between their commands. For a creation and a rebuild of the filter this
  is a real restriction: \<open>Bloom_Race\<close> takes these two apart into single commands and has the run, allowed
  by \<open>bloom.go\<close>, in which a code that is being added while the rebuild swaps its keys is missing from the
  filter afterwards. So the properties here say nothing of a creation that overlaps a rebuild.
\<close>

section \<open>What the worker does to the cached links\<close>

lemma write_shrinks:
  assumes "write_law db eff cmd" and "cmd r = (e, r')"
    and "\<And>m. eff (db r) = Some m \<Longrightarrow> cached_in J m \<subseteq>\<^sub>m cached_in J (db r)"
  shows "cached_in J (db r') \<subseteq>\<^sub>m cached_in J (db r)"
  using assms(1,2)
proof (rule write_lawE)
  fix m assume "eff (db r) = Some m" and "evolves m (db r')"
  with map_le_trans [OF cached_in_evolves assms(3)] show ?thesis by blast
qed (rule cached_in_evolves)

lemma set_shrinks:
  assumes "redis_laws db R" and "rd_Set R k v ttl r = (e, r')" and "\<forall>c. LinkKey c \<noteq> k"
  shows "cached_in J (db r') \<subseteq>\<^sub>m cached_in J (db r)"
  using redis_lawsD(2) [OF assms(1)] assms(2)
  by (rule write_shrinks) (use assms(3) in \<open>auto simp: eff_set_def cached_in_def map_le_def\<close>)

lemma del_shrinks:
  assumes "redis_laws db R" and "rd_Del R ks r = (e, r')"
  shows "cached_in J (db r') \<subseteq>\<^sub>m cached_in J (db r)"
  using redis_lawsD(3) [OF assms(1)] assms(2)
  by (rule write_shrinks) (auto simp: eff_del_def cached_in_def map_le_def restrict_map_def split: if_splits)

lemma reserve_shrinks:
  assumes "redis_laws db R" and "reserve R f k r = (e, r')"
  shows "cached_in J (db r') \<subseteq>\<^sub>m cached_in J (db r)"
proof -
  obtain e1 where "rd_BFReserve R k (rb_errorRate f) (rb_capacity f) r = (e1, r')"
    using assms(2) by (auto simp: reserve_def split: prod.splits option.splits)
  with redis_lawsD(12) [OF assms(1)] show ?thesis
    by (rule write_shrinks)
      (auto simp: eff_reserve_def cached_in_def map_le_def decoded_def split: option.splits if_splits)
qed

lemma batch_shrinks:
  assumes "redis_laws db R" and "addBatchToKey R k codes r = (e, r')"
  shows "cached_in J (db r') \<subseteq>\<^sub>m cached_in J (db r)"
proof (cases "codes = []")
  case True
  with assms(2) show ?thesis by (simp add: addBatchToKey_def)
next
  case False
  with assms(2) have "rd_BFMAdd R k codes r = (e, r')" by (simp add: addBatchToKey_def)
  with redis_lawsD(10) [OF assms(1)] show ?thesis
    by (rule write_shrinks) (auto simp: map_le_def cached_in_def eff_bfadd_def decoded_def
        split: option.splits prod.splits redis_value.splits if_splits)
qed

lemma rename_shrinks:
  assumes "redis_laws db R" and "rd_Rename R k k' r = (e, r')" and "\<forall>c. LinkKey c \<noteq> k'"
  shows "cached_in J (db r') \<subseteq>\<^sub>m cached_in J (db r)"
  using redis_lawsD(4) [OF assms(1)] assms(2)
  by (rule write_shrinks)
    (use assms(3) in \<open>auto simp: eff_rename_def cached_in_def map_le_def split: option.splits if_splits\<close>)

lemma script_shrinks:
  assumes "redis_laws db R" and "finishBloomRebuildScript R k k' mk t r = (e, r')" and "\<forall>c. LinkKey c \<noteq> k'"
  shows "cached_in J (db r') \<subseteq>\<^sub>m cached_in J (db r)"
proof -
  obtain v r1 where get: "rd_Get R mk r = (v, r1)" by fastforce
  have one: "cached_in J (db r1) \<subseteq>\<^sub>m cached_in J (db r)" by (rule cached_in_evolves [OF read_evolves(1) [OF assms(1) get]])
  obtain e2 r2 where ren: "rd_Rename R k k' r1 = (e2, r2)" by fastforce
  note two = map_le_trans [OF rename_shrinks [OF assms(1) ren assms(3)] one]
  obtain e3 r3 where del: "rd_Del R [mk] r2 = (e3, r3)" by fastforce
  note three = map_le_trans [OF del_shrinks [OF assms(1) del] two]
  have "r' \<in> {r1, r2, r3}"
    using assms(2) get ren del by (auto simp: finishBloomRebuildScript_def split: sum.splits option.splits if_splits)
  with one two three show ?thesis by blast
qed

lemma finish_shrinks:
  assumes "redis_laws db R" and "finishRebuild R f t r = (e, r')" and "\<forall>c. LinkKey c \<noteq> rb_key f"
  shows "cached_in J (db r') \<subseteq>\<^sub>m cached_in J (db r)"
proof -
  from redis_lawsD(5) [OF assms(1)] assms(2) consider
    es r1 where "finishBloomRebuildScript R t (rb_key f) (rb_markerKey f) t r = (es, r1)" "evolves (db r1) (db r')"
    | "evolves (db r) (db r')"
    unfolding eval_law_def finishRebuild_def by blast
  then show ?thesis
    using map_le_trans [OF cached_in_evolves script_shrinks [OF assms(1) _ assms(3)]] cached_in_evolves by cases blast+
qed

lemma Rebuild_shrinks:
  assumes source: "code_source source ok active" "ok d" and laws: "redis_laws db R"
    and keys: "\<forall>c. LinkKey c \<noteq> rb_key f" "\<forall>c. LinkKey c \<noteq> rb_markerKey f"
    and run: "RedisBloom_Rebuild R f fnow source b (d, r) = Some (e, d', r')"
  shows "cached_in J (db r') \<subseteq>\<^sub>m cached_in J (db r)"
proof -
  define t where "t = rebuildTempKey f fnow"
  define n where "n = (if b \<le> 0 then 1000 else b)"
  note run = run [unfolded RedisBloom_Rebuild_def, folded t_def n_def]
  note del = del_shrinks [OF laws, where J = J]
  obtain e1 r1 where set: "rd_Set R (rb_markerKey f) t 0 r = (e1, r1)" by fastforce
  note one = set_shrinks [OF laws set keys(2), of J]
  obtain e2 r2 where res: "reserve R f t r1 = (e2, r2)" by fastforce
  note two = map_le_trans [OF reserve_shrinks [OF laws res] one]
  obtain e3 r3 where del1: "rd_Del R [rb_markerKey f] r2 = (e3, r3)" by fastforce
  note three = map_le_trans [OF del [OF del1] two]
  show ?thesis
  proof (cases "e1 = None \<and> e2 = None")
    case False
    then have "r' \<in> {r1, r3}" using run set res del1 by (auto split: option.splits)
    with one three show ?thesis by blast
  next
    case True
    obtain e4 r4 where list: "source n (addBatchToKey R t) (d, r2) = Some (e4, d', r4)"
      using True run set res by (auto split: option.splits prod.splits)
    have four: "cached_in J (db r4) \<subseteq>\<^sub>m cached_in J (db r)"
      by (rule code_source.list_invariant [OF source list, where I = "\<lambda>s. cached_in J (db s) \<subseteq>\<^sub>m cached_in J (db r)"])
        (use two map_le_trans [OF batch_shrinks [OF laws]] in blast)+
    obtain e5 r5 where del2: "rd_Del R [t] r4 = (e5, r5)" by fastforce
    obtain e6 r6 where del3: "rd_Del R [rb_markerKey f] r5 = (e6, r6)" by fastforce
    note six = map_le_trans [OF del [OF del3] map_le_trans [OF del [OF del2] four]]
    obtain e7 r7 where fin: "finishRebuild R f t r4 = (e7, r7)" by fastforce
    note seven = map_le_trans [OF finish_shrinks [OF laws fin keys(1)] four]
    have "r' \<in> {r6, r7}" using True run set res list del2 del3 fin by (auto split: option.splits)
    with six seven show ?thesis by blast
  qed
qed

lemma cache_delete_shrinks:
  assumes "redis_laws db R" and "run_batches (RedisCache_Delete R) bs h = (e, h')"
  shows "cached_in J (db h') \<subseteq>\<^sub>m cached_in J (db h)"
  using assms(2)
proof (induction bs arbitrary: h)
  case Nil
  then show ?case by simp
next
  case (Cons codes bs)
  obtain e1 h1 where one: "RedisCache_Delete R codes h = (e1, h1)" by fastforce
  note first = RedisCache_Delete_result(1) [OF assms(1) one, of J]
  from Cons one first map_le_trans show ?case by (cases e1) auto
qed

section \<open>A run of the worker, whatever it reports\<close>

text \<open>What every call of the database keeps may be added to its legal states.\<close>

lemma db_laws_inv:
  assumes laws: "db_laws nf tb ok D"
    and "\<And>t r d e d'. db_insert D t r d = (e, d') \<Longrightarrow> P d \<Longrightarrow> P d'"
    and "\<And>t rs d e d'. db_insert_batch D t rs d = (e, d') \<Longrightarrow> P d \<Longrightarrow> P d'"
    and "\<And>t Q d v d'. db_first D t Q d = (v, d') \<Longrightarrow> P d \<Longrightarrow> P d'"
    and "\<And>t Q ord n d v d'. db_find D t Q ord n d = (v, d') \<Longrightarrow> P d \<Longrightarrow> P d'"
    and "\<And>t Q d v d'. db_delete D t Q d = (v, d') \<Longrightarrow> P d \<Longrightarrow> P d'"
    and "\<And>d x d'. db_now D d = (x, d') \<Longrightarrow> P d \<Longrightarrow> P d'"
    and "\<And>d x d'. db_ctx_Err D d = (x, d') \<Longrightarrow> P d \<Longrightarrow> P d'"
  shows "db_laws nf tb (\<lambda>d. ok d \<and> P d) D"
proof -
  note L = db_lawsD [OF laws]
  have "insert_law nf tb (\<lambda>d. ok d \<and> P d) D"
    unfolding insert_law_def
  proof (rule conjI; intro allI impI)
    fix t r d e d' assume "ok d \<and> P d" and run: "db_insert D t r d = (e, d')"
    with L(4) [unfolded insert_law_def, THEN conjunct1, rule_format, OF _ run] assms(2) [OF run]
    show "(ok d' \<and> P d') \<and> ((tb d' = (tb d)(t := insert (nf r) (tb d t)) \<and>
        (\<forall>x \<in> tb d t. sr_ID x \<noteq> sr_ID r \<and> \<not> db_text_eq D (sr_Code x) (sr_Code r))) \<or> (e \<noteq> None \<and> tb d' = tb d))"
      by blast
  next
    fix t rs d e d' assume "ok d \<and> P d" and run: "db_insert_batch D t rs d = (e, d')"
    with insert_batch_done [OF laws _ run] assms(3) [OF run]
    show "(ok d' \<and> P d') \<and> (tb d' = (tb d)(t := nf ` set rs \<union> tb d t) \<or> (e \<noteq> None \<and> tb d' = tb d))"
      by blast
  qed
  moreover have "query_law tb (\<lambda>d. ok d \<and> P d) D"
    unfolding query_law_def
  proof (intro conjI allI impI, goal_cases)
    case (1 t Q d v d') with first_done(1) [OF laws _ 1(2)] show ?case by blast
  next
    case (2 t Q d v d') with assms(4) show ?case by blast
  next
    case (3 t Q d v d') with first_done(2) [OF laws _ 3(2)] show ?case by blast
  next
    case (4 t Q d v d' r) with first_done(3) [OF laws _ 4(2)] show ?case by blast
  next
    case (5 t Q d v d' r) with first_done(3) [OF laws _ 5(2)] show ?case by blast
  next
    case (6 t Q d v d' e) with first_done(4) [OF laws _ 6(2)] show ?case by blast
  next
    case (7 t Q ord n d v d') with find_done(1) [OF laws _ 7(2)] show ?case by blast
  next
    case (8 t Q ord n d v d') with assms(5) show ?case by blast
  next
    case (9 t Q ord n d v d') with find_done(2) [OF laws _ 9(2)] show ?case by blast
  next
    case (10 t Q ord n d v d' rows) with find_done(3) [OF laws _ 10(2)] show ?case by blast
  next
    case (11 d x d') with read_done(1) [OF laws _ 11(2)] show ?case by blast
  next
    case (12 d x d') with assms(7) show ?case by blast
  next
    case (13 d x d') with read_done(1) [OF laws _ 13(2)] show ?case by blast
  next
    case (14 d x d') with read_done(2) [OF laws _ 14(2)] show ?case by blast
  next
    case (15 d x d') with assms(8) show ?case by blast
  next
    case (16 d x d') with read_done(2) [OF laws _ 16(2)] show ?case by blast
  qed
  moreover have "delete_law tb (\<lambda>d. ok d \<and> P d) D"
    unfolding delete_law_def
  proof (intro allI impI)
    fix t Q d v d' assume "ok d \<and> P d" and run: "db_delete D t Q d = (v, d')"
    with L(6) [unfolded delete_law_def, rule_format, OF _ run] assms(6) [OF run]
    show "(ok d' \<and> P d') \<and> (case v of
        Inr n \<Rightarrow> tb d' = (tb d)(t := {r \<in> tb d t. \<not> Q r}) \<and> n = int (card {r \<in> tb d t. Q r})
      | Inl e \<Rightarrow> tb d' = (tb d)(t := {r \<in> tb d t. \<not> Q r}) \<or> tb d' = tb d)"
      by (simp split: sum.splits)
  qed
  ultimately show ?thesis using L(1-3) unfolding db_laws_def by blast
qed

lemma clocked_laws_from:
  assumes "db_laws nf tb ok D"
  shows "db_laws nf (\<lambda>dk. tb (fst dk)) (\<lambda>dk. ok (fst dk) \<and> k \<le> snd dk) (clocked now D)"
  by (rule db_laws_inv [OF clocked_laws [OF assms]])
    (auto simp: with_reads_def split: prod.splits)

lemma Rebuild_source:
  assumes "db_laws nf tb ok D" and "ok l"
    and "RedisBloom_Rebuild R f fnow (\<lambda>b h. on_links (ListActiveCodes D b h)) b ((l, v), h) = Some (e, (l', v'), h')"
  shows "ok l' \<and> tb l' = tb l \<and> v' = v"
proof -
  let ?source = "\<lambda>b h. on_links (ListActiveCodes D b h)"
  let ?kept = "\<lambda>d. ok (fst d) \<and> tb (fst d) = tb l \<and> snd d = v"
  have "\<exists>e d' h'. ?source b handle ((l, v), h) = Some (e, d', h') \<and> ?kept d'" for b handle h
    using lifted_source_total [OF assms(1,2), of b handle v h] by fastforce
  from RedisBloom_Rebuild_total [of ?source "(l, v)" ?kept R f fnow b h, OF this] assms(2,3) show ?thesis by auto
qed

text \<open>The run of the worker as the deletion of expired links, and perhaps a rebuild of the filter after it.\<close>

lemma RunOnce_stages:
  assumes laws: "db_laws nf tb ok D" "visit_laws vt st okv V"
    and state: "ok l" "okv v" and s: "s = worker_service D V zone R f fnow b vr sr"
    and run: "RunOnce (on_first (db_ctx_Err D)) s ((l, v), h) = Some (res, (l', v'), h')"
  shows "\<exists>l2 h1 bs e1. ok l2 \<and> (\<forall>t. swept (expired_by (fst (db_now D l))) (tb l t) (tb l2 t)) \<and>
    run_batches (RedisCache_Delete R) bs h = (e1, h1) \<and> okv v' \<and>
    ((l' = l2 \<and> h' = h1) \<or>
     (\<exists>e. RedisBloom_Rebuild R f fnow (\<lambda>b h. on_links (ListActiveCodes D b h)) (cs_batchSize s) ((l2, v'), h1) =
        Some (e, (l', v'), h')))"
proof -
  define now where "now = fst (db_now D l)"
  obtain l0 where read: "db_now D l = (now, l0)" using now_def by (metis prod.collapse)
  note l0 = read_done(1) [OF laws(1) state(1) read]
  have now_s: "cs_now s (fst ((l, v), h)) = (now, l0, v)" using read by (simp add: s worker_service_sel on_first_def)
  obtain rep1 e1 l1 h1 bs e1' where L: "clean_links s now zero_Report ((l0, v), h) = Some ((rep1, e1), (l1, v), h1)" "ok l1"
      "run_batches (RedisCache_Delete R) bs h = (e1', h1)"
      "\<And>t. cleared (expired_by now) (tb l0 t) (expired_count (tb l0 t) now)
         (if t \<in> set shard_tables then e1 else Some ErrExpired) (tb l1 t)"
    using clean_links_total [OF laws(1) conjunct1 [OF l0] s, of now zero_Report v h] by blast
  have links: "swept (expired_by now) (tb l t) (tb l1 t)" for t using cleared_swept [OF L(4)] l0 by simp
  show ?thesis
  proof (cases e1)
    case (Some err)
    with now_s L(1) run have "l' = l1" "v' = v" "h' = h1" by (simp_all add: RunOnce_def)
    with L links state(2) show ?thesis unfolding now_def [symmetric] by blast
  next
    case e1: None
    from L(2) state(2) have "ok (fst (l1, v)) \<and> okv (snd (l1, v))" by simp
    from clean_visits_total [OF laws(1,2) this s, of now rep1] obtain rep2 e2 l2 v2 where
      V: "clean_visits (on_first (db_ctx_Err D)) s now rep1 (l1, v) = Some ((rep2, e2), (l2, v2))" "ok l2" "okv v2" "tb l2 = tb l1"
      by auto
    have links2: "swept (expired_by now) (tb l t) (tb l2 t)" for t using links V(4) by simp
    show ?thesis
    proof (cases e2)
      case (Some err)
      with now_s L(1) e1 V(1) run have "l' = l2" "v' = v2" "h' = h1" by (simp_all add: RunOnce_def)
      with L V links2 show ?thesis unfolding now_def [symmetric] by blast
    next
      case e2: None
      obtain res' where "rebuild_filter s rep2 ((l2, v2), h1) = Some (res', (l', v'), h')"
        using now_s L(1) e1 V(1) e2 run by (auto simp: RunOnce_def)
      then obtain e where "RedisBloom_Rebuild R f fnow (\<lambda>b h. on_links (ListActiveCodes D b h)) (cs_batchSize s) ((l2, v2), h1) =
          Some (e, (l', v'), h')"
        by (auto simp: rebuild_filter_def s worker_service_sel split: option.splits)
      moreover from Rebuild_source [OF laws(1) V(2) this] have "v' = v2" by simp
      ultimately show ?thesis using L V links2 unfolding now_def [symmetric] by blast
    qed
  qed
qed

lemma run_batches_bloom:
  assumes "redis_laws db R" and "run_batches (RedisCache_Delete R) bs h = (e, h')"
    and "\<forall>c. LinkKey c \<noteq> k" and "bloom_key k C (db h)"
  shows "bloom_key k C (db h')"
  using assms(2,4)
proof (induction bs arbitrary: h)
  case (Cons codes bs)
  obtain e1 h1 where one: "RedisCache_Delete R codes h = (e1, h1)" by fastforce
  note cache_delete_bloom [OF assms(1,3) one Cons.prems(2)]
  with Cons one show ?case by (cases e1) auto
qed simp

text \<open>
  The worker over the clock of the deployment: rows go only when they have expired, cached links only
  get fewer, and the filter keeps what it was bound to answer for or is left with the active codes.
\<close>

lemma RunOnce_effect:
  assumes laws: "db_laws nf tb ok D" "visit_laws vt st okv V" "redis_laws db R"
    and state: "ok l" "okv v" and f: "f = NewRedisBloom options"
    and keys: "\<forall>c. LinkKey c \<noteq> rb_key f" "\<forall>c. LinkKey c \<noteq> rb_markerKey f"
    and fresh: "db h (rebuildTempKey f fnow) = None"
    and run: "RunOnce (on_first (db_ctx_Err (clocked now D))) (worker_service (clocked now D) V zone R f fnow b vr sr)
      (((l, k), v), h) = Some (res, ((l', k'), v'), h')"
  shows "ok l' \<and> okv v' \<and> k \<le> k' \<and> (\<forall>t. swept (expired_by (now k)) (tb l t) (tb l' t)) \<and>
    cached_in J (db h') \<subseteq>\<^sub>m cached_in J (db h) \<and>
    (\<exists>d. tb (fst d) = tb l' \<and> snd d \<le> k' \<and> (\<forall>C. bloom_key (rb_key f) C (db h) \<longrightarrow> bloom_key (rb_key f) C (db h') \<or>
      bloom_key (rb_key f) (active_codes (\<lambda>dk. tb (fst dk)) (clocked now D) d) (db h')))"
proof -
  let ?D = "clocked now D" and ?tb = "\<lambda>dk. tb (fst dk)" and ?s = "worker_service (clocked now D) V zone R f fnow b vr sr"
  note from_k = clocked_laws_from [OF laws(1), of k now]
  have "ok (fst (l, k)) \<and> k \<le> snd (l, k)" using state(1) by simp
  from RunOnce_stages [OF from_k laws(2) this state(2) refl run] obtain l2 h1 bs e1 where
    l2: "ok (fst l2)" "k \<le> snd l2" and rows: "\<forall>t. swept (expired_by (now k)) (tb l t) (tb (fst l2) t)" and okv: "okv v'"
    and del: "run_batches (RedisCache_Delete R) bs h = (e1, h1)"
    and last: "((l', k') = l2 \<and> h' = h1) \<or> (\<exists>e. RedisBloom_Rebuild R f fnow (\<lambda>b h. on_links (ListActiveCodes ?D b h))
      (cs_batchSize ?s) ((l2, v'), h1) = Some (e, ((l', k'), v'), h'))"
    by auto
  note shrink = cache_delete_shrinks [OF laws(3) del, of J]
  note keep = run_batches_bloom [OF laws(3) del keys(1)]
  from last show ?thesis
  proof (elim disjE exE conjE)
    assume "(l', k') = l2" "h' = h1"
    with l2 rows okv shrink keep show ?thesis by (intro conjI exI [of _ l2]) auto
  next
    fix e assume rebuild: "RedisBloom_Rebuild R f fnow (\<lambda>b h. on_links (ListActiveCodes ?D b h)) (cs_batchSize ?s) ((l2, v'), h1) =
        Some (e, ((l', k'), v'), h')"
    have "ok (fst l2) \<and> snd l2 \<le> snd l2" using l2 by simp
    from Rebuild_source [OF clocked_laws_from [OF laws(1)] this rebuild] have l': "ok l'" "snd l2 \<le> k'" "tb l' = tb (fst l2)"
      by simp_all
    note source = lifted_source [OF clocked_laws [OF laws(1)], of now, where 'c = 'e]
    have okd: "ok (fst (fst (l2, v')))" using l2 by simp
    have "db h1 (rebuildTempKey f fnow) = None" using cache_delete_keeps [OF laws(3) del] fresh by blast
    note built = RedisBloom_Rebuild_result [OF source okd laws(3) f this _ rebuild, unfolded fst_conv]
    have "bloom_key (rb_key f) C (db h) \<Longrightarrow> bloom_key (rb_key f) C (db h') \<or>
        bloom_key (rb_key f) (active_codes ?tb ?D l2) (db h')" for C
      using built [OF keep, of C] by (simp split: if_splits)
    moreover note map_le_trans [OF Rebuild_shrinks [OF source okd laws(3) keys rebuild] shrink]
    ultimately show ?thesis using l2 l' rows okv by (intro conjI exI [of _ l2]) auto
  qed
qed

section \<open>The deployment and its steps\<close>

text \<open>The state: the two services on the shared database, Redis and clock, and the database of the visits.\<close>

type_synonym ('d, 'r, 'v) deployment = "('d, 'r) cluster \<times> 'v"

definition start_cluster ::
  "clock \<Rightarrow> 'd link_db \<Rightarrow> Snowflake \<Rightarrow> Snowflake \<Rightarrow> 'd \<Rightarrow> 'r \<Rightarrow> ('d, 'r) cluster" where
  "start_cluster now D ids ids' d r = \<lparr>cl_linksvc = start_node now D ids d r, cl_redirectsvc = start_node now D ids' d r\<rparr>"

text \<open>One run of \<open>worker\<close>'s cleanup on the shared state; \<open>fnow\<close> names the temporary key of the filter.\<close>

definition run_worker ::
  "clock \<Rightarrow> 'd link_db \<Rightarrow> 'v visit_db \<Rightarrow> duration \<Rightarrow> 'r redis \<Rightarrow> RedisBloom \<Rightarrow> int \<Rightarrow> duration \<Rightarrow> duration \<Rightarrow> time \<Rightarrow>
   ('d, 'r, 'v) deployment \<Rightarrow> ('d, 'r, 'v) deployment option" where
  "run_worker now D V zone R f b vr sr fnow cv =
     (let w = cl_linksvc (fst cv)
      in case RunOnce (on_first (db_ctx_Err (clocked now D))) (worker_service (clocked now D) V zone R f fnow b vr sr)
             (((nd_db w, nd_reads w), snd cv), nd_redis w) of
           None \<Rightarrow> None
         | Some (report, ((d, k), v), r) \<Rightarrow> Some (at_linksvc (w\<lparr>nd_db := d, nd_redis := r, nd_reads := k\<rparr>) (fst cv), v))"

text \<open>
  Time passes: the clock has been read by others, and loads that were running have ended.
\<close>

definition later :: "nat \<Rightarrow> nat \<Rightarrow> ('d, 'r) node \<Rightarrow> ('d, 'r) node" where
  "later k oldest w = w\<lparr>nd_reads := k, nd_oldest := oldest\<rparr>"

inductive deployment_step ::
  "('d, 'r) node Service \<Rightarrow> ('d, 'r) node Service \<Rightarrow> (time \<Rightarrow> ('d, 'r, 'v) deployment \<Rightarrow> ('d, 'r, 'v) deployment option) \<Rightarrow>
   ('r \<Rightarrow> time \<Rightarrow> bool) \<Rightarrow> ('v \<Rightarrow> bool) \<Rightarrow> ('d, 'r, 'v) deployment \<Rightarrow> ('d, 'r, 'v) deployment \<Rightarrow> bool"
  for L Rd worker fresh okv where
  create: "CreateShortLink L req (cl_linksvc c) = Some (v, w) \<Longrightarrow>
    deployment_step L Rd worker fresh okv (c, vs) (at_linksvc w c, vs)"
| resolve: "Resolve Rd code (cl_redirectsvc c) = (u, w) \<Longrightarrow>
    deployment_step L Rd worker fresh okv (c, vs) (at_redirectsvc w c, vs)"
| clean_linksvc: "run_cleaner (cl_linksvc c) = Some w \<Longrightarrow>
    deployment_step L Rd worker fresh okv (c, vs) (at_linksvc w c, vs)"
| clean_redirectsvc: "run_cleaner (cl_redirectsvc c) = Some w \<Longrightarrow>
    deployment_step L Rd worker fresh okv (c, vs) (at_redirectsvc w c, vs)"
| cleanup: "fresh (nd_redis (cl_linksvc c)) fnow \<Longrightarrow> worker fnow (c, vs) = Some cv \<Longrightarrow>
    deployment_step L Rd worker fresh okv (c, vs) cv"
| visits: "okv vs' \<Longrightarrow> deployment_step L Rd worker fresh okv (c, vs) (c, vs')"
| time: "nd_reads (cl_linksvc c) \<le> k \<Longrightarrow> nd_oldest (cl_linksvc c) \<le> i \<Longrightarrow> i \<le> k \<Longrightarrow>
    nd_oldest (cl_redirectsvc c) \<le> j \<Longrightarrow> j \<le> k \<Longrightarrow>
    deployment_step L Rd worker fresh okv (c, vs) (\<lparr>cl_linksvc = later k i (cl_linksvc c), cl_redirectsvc = later k j (cl_redirectsvc c)\<rparr>, vs)"

section \<open>The invariant\<close>

text \<open>A link that the filter must not lose: active and, as any snowflake id is, not numbered zero.\<close>

definition lists_link :: "ShortLink \<Rightarrow> bool" where
  "lists_link item \<longleftrightarrow> sl_Status item = ShortLinkStatusActive \<and> sl_ID item \<noteq> 0"

definition deployment_ok ::
  "(ShortLinkRecord \<Rightarrow> ShortLinkRecord) \<Rightarrow> ('d \<Rightarrow> string \<Rightarrow> ShortLinkRecord set) \<Rightarrow> ('d \<Rightarrow> bool) \<Rightarrow> ('v \<Rightarrow> bool) \<Rightarrow> 'd link_db \<Rightarrow>
   ('r \<Rightarrow> keyspace) \<Rightarrow> codec \<Rightarrow> clock \<Rightarrow> string \<Rightarrow> ShortLink set \<Rightarrow> ('d, 'r, 'v) deployment \<Rightarrow> bool" where
  "deployment_ok nf tb ok okv D db J now key X cv \<longleftrightarrow>
     (let a = cl_linksvc (fst cv); b = cl_redirectsvc (fst cv)
      in nd_db b = nd_db a \<and> nd_redis b = nd_redis a \<and> nd_reads b = nd_reads a \<and>
         node_ok nf tb ok D db J now a \<and> node_ok nf tb ok D db J now b \<and> okv (snd cv) \<and>
         links_held nf tb db now key X a \<and> (\<forall>item \<in> X. lists_link item))"

lemma coherent_shared:
  "nd_db w' = nd_db w \<Longrightarrow> nd_reads w' = nd_reads w \<Longrightarrow> coherent nf tb now w' it = coherent nf tb now w it"
  by (simp add: coherent_def)

lemma links_held_shared:
  "nd_db w' = nd_db w \<Longrightarrow> nd_redis w' = nd_redis w \<Longrightarrow> nd_reads w' = nd_reads w \<Longrightarrow>
   links_held nf tb db now key X w' = links_held nf tb db now key X w"
  by (simp add: links_held_def)

text \<open>What one process does leaves the state of the other legal.\<close>

lemma share_ok:
  assumes "mono now" and other: "node_ok nf tb ok D db J now b"
    and same: "nd_db b = nd_db a" "nd_reads b = nd_reads a"
    and after: "node_ok nf tb ok D db J now a'" "nd_reads a \<le> nd_reads a'"
    and keeps: "\<And>it. coherent nf tb now a it \<Longrightarrow> coherent nf tb now a' it"
  shows "node_ok nf tb ok D db J now (share a' b)"
proof -
  have coh: "coherent nf tb now (share a' b) it = coherent nf tb now a' it" for it
    by (rule coherent_shared) (simp_all add: share_def)
  have coh': "coherent nf tb now b it = coherent nf tb now a it" for it by (rule coherent_shared [OF same])
  show ?thesis
    unfolding node_ok_def coh
  proof (intro conjI allI impI)
    show "cleaner_ok now D (nd_reads (share a' b)) (nd_cleaner (share a' b))"
      using other after(2) same(2) cleaner_ok_later [OF assms(1), of "nd_reads b" "nd_reads a'" D "nd_cleaner b"]
      by (simp add: share_def node_ok_def)
    fix c it assume "Local_holds (nd_local (share a' b), nd_reads (share a' b)) c = Some it"
    then have "Local_holds (nd_local b, nd_reads b) c = Some it" 
      using holds_reads [of "nd_local b" "nd_reads a'" "nd_reads b"] by (simp add: share_def)
    with other have "coherent nf tb now b it" by (simp add: node_ok_def)
    then show "coherent nf tb now a' it" using keeps coh' by blast
  qed (use other after same in \<open>auto simp: share_def node_ok_def\<close>)
qed

text \<open>No key is left under the name that the reading \<open>t\<close> of the clock gives the temporary key of the filter.\<close>

definition temp_key_free :: "('r \<Rightarrow> keyspace) \<Rightarrow> RedisBloom \<Rightarrow> 'r \<Rightarrow> time \<Rightarrow> bool" where
  "temp_key_free db f r t \<longleftrightarrow> db r (rebuildTempKey f t) = None"

text \<open>The steps of the deployment that \<open>cmd\<close> starts.\<close>

definition deployment_steps ::
  "clock \<Rightarrow> 'd link_db \<Rightarrow> 'v visit_db \<Rightarrow> 'r redis \<Rightarrow> RedisBloom \<Rightarrow> codec \<Rightarrow> ('r \<Rightarrow> keyspace) \<Rightarrow> ('v \<Rightarrow> bool) \<Rightarrow>
   string \<Rightarrow> url_parser \<Rightarrow> duration \<Rightarrow> int \<Rightarrow> duration \<Rightarrow> duration \<Rightarrow>
   ('d, 'r, 'v) deployment \<Rightarrow> ('d, 'r, 'v) deployment \<Rightarrow> bool" where
  "deployment_steps now D V R f J db okv domain parser zone b vr sr =
     (deployment_step (linksvc now D R f J domain parser) (redirectsvc now D R f J domain parser)
        (run_worker now D V zone R f b vr sr) (temp_key_free db f) okv)\<^sup>*\<^sup>*"

locale shared_parts = held_parts nf tb ok D db R J now f
  for nf :: "ShortLinkRecord \<Rightarrow> ShortLinkRecord" and tb :: "'d \<Rightarrow> string \<Rightarrow> ShortLinkRecord set" and ok :: "'d \<Rightarrow> bool"
    and D :: "'d link_db" and db :: "'r \<Rightarrow> keyspace" and R :: "'r redis" and J :: codec and now :: clock and f :: RedisBloom +
  fixes vt :: "'v \<Rightarrow> VisitLogRecord set" and st :: "'v \<Rightarrow> DailyStatRecord set" and okv :: "'v \<Rightarrow> bool"
    and V :: "'v visit_db" and options :: RedisBloomOptions
  assumes visit_database: "visit_laws vt st okv V"
    and filter: "f = NewRedisBloom options"
    and marker_key: "LinkKey c \<noteq> rb_markerKey f"
begin

lemma at_linksvc_ok:
  assumes "deployment_ok nf tb ok okv D db J now (rb_key f) X (c, vs)"
    and "node_ok nf tb ok D db J now w \<and> links_held nf tb db now (rb_key f) Y w \<and> nd_reads (cl_linksvc c) \<le> nd_reads w \<and>
      (\<forall>it. coherent nf tb now (cl_linksvc c) it \<longrightarrow> coherent nf tb now w it)"
    and "okv vs'" and "\<forall>item \<in> Y. lists_link item"
  shows "deployment_ok nf tb ok okv D db J now (rb_key f) Y (at_linksvc w c, vs')"
proof -
  have "node_ok nf tb ok D db J now (share w (cl_redirectsvc c))"
    by (rule share_ok [OF clock, where a = "cl_linksvc c"]) (use assms(1,2) in \<open>auto simp: deployment_ok_def Let_def\<close>)
  with assms show ?thesis by (simp add: deployment_ok_def Let_def at_linksvc_def share_def)
qed

lemma at_redirectsvc_ok:
  assumes ok: "deployment_ok nf tb ok okv D db J now (rb_key f) X (c, vs)"
    and after: "node_ok nf tb ok D db J now w \<and> links_held nf tb db now (rb_key f) X w \<and> nd_reads (cl_redirectsvc c) \<le> nd_reads w \<and>
      (\<forall>it. coherent nf tb now (cl_redirectsvc c) it \<longrightarrow> coherent nf tb now w it)"
  shows "deployment_ok nf tb ok okv D db J now (rb_key f) X (at_redirectsvc w c, vs)"
proof -
  let ?a = "share w (cl_linksvc c)"
  have "node_ok nf tb ok D db J now ?a"
    by (rule share_ok [OF clock, where a = "cl_redirectsvc c"]) (use ok after in \<open>auto simp: deployment_ok_def Let_def\<close>)
  moreover have "links_held nf tb db now (rb_key f) X ?a"
    using after by (subst links_held_shared [where w = w]) (simp_all add: share_def)
  ultimately show ?thesis using ok after by (simp add: deployment_ok_def Let_def at_redirectsvc_def share_def)
qed

lemma redirectsvc_held:
  "deployment_ok nf tb ok okv D db J now (rb_key f) X (c, vs) \<Longrightarrow>
   node_ok nf tb ok D db J now (cl_redirectsvc c) \<and> links_held nf tb db now (rb_key f) X (cl_redirectsvc c)"
  using links_held_shared [of "cl_redirectsvc c" "cl_linksvc c"] by (auto simp: deployment_ok_def Let_def)

text \<open>A run of the worker.\<close>

lemma worker_leaves:
  assumes "deployment_ok nf tb ok okv D db J now (rb_key f) X (c, vs)" and "temp_key_free db f (nd_redis (cl_linksvc c)) fnow"
    and run: "run_worker now D V zone R f b vr sr fnow (c, vs) = Some cv"
  shows "deployment_ok nf tb ok okv D db J now (rb_key f) X cv"
proof -
  let ?w = "cl_linksvc c"
  obtain rep d k v r where once: "RunOnce (on_first (db_ctx_Err (clocked now D))) (worker_service (clocked now D) V zone R f fnow b vr sr)
      (((nd_db ?w, nd_reads ?w), vs), nd_redis ?w) = Some (rep, ((d, k), v), r)"
    and cv: "cv = (at_linksvc (?w\<lparr>nd_db := d, nd_redis := r, nd_reads := k\<rparr>) c, v)"
    using run by (auto simp: run_worker_def Let_def split: option.splits)
  let ?w' = "?w\<lparr>nd_db := d, nd_redis := r, nd_reads := k\<rparr>"
  have node: "node_ok nf tb ok D db J now ?w" and held: "links_held nf tb db now (rb_key f) X ?w"
    and okv: "okv vs" and X: "\<forall>item \<in> X. lists_link item"
    using assms(1) by (simp_all add: deployment_ok_def Let_def)
  have "ok (nd_db ?w)" using node by (simp add: node_ok_def)
  note effect = RunOnce_effect [OF database visit_database redis_server this okv filter allI [OF other_keys] allI [OF marker_key]
      assms(2) [unfolded temp_key_free_def] once, of J]
  then obtain e where after: "ok d" "okv v" "nd_reads ?w \<le> k" "\<And>t. swept (expired_by (now (nd_reads ?w))) (tb (nd_db ?w) t) (tb d t)"
    "cached_in J (db r) \<subseteq>\<^sub>m cached_in J (db (nd_redis ?w))" "tb (fst e) = tb d" "snd e \<le> k"
    and filter: "\<And>C. bloom_key (rb_key f) C (db (nd_redis ?w)) \<Longrightarrow> bloom_key (rb_key f) C (db r) \<or>
      bloom_key (rb_key f) (active_codes (\<lambda>dk. tb (fst dk)) (clocked now D) e) (db r)"
    by (elim conjE exE) (rule that, blast+)
  have time: "now (nd_reads ?w) \<le> now k" "now (snd e) \<le> now k" using after(3,7) clock by (simp_all add: monoD)
  have gone: "r' \<in> tb d t \<or> expired_by (now k) r'" if "r' \<in> tb (nd_db ?w) t" for r' t
    using after(4) [of t] that expired_by_mono [OF time(1)] unfolding swept_def by blast
  have rows: "keeps_rows tb now ?w ?w'" using gone after(3) unfolding keeps_rows_def by simp
  have "node_adv nf tb ok D db J now ?w ?w'"
  proof (rule node_advI [OF clock node rows])
    show "keyed_by_code J (db (nd_redis ?w'))" using node keyed_by_code_mono [OF _ after(5)] by (simp add: node_ok_def)
    show "cached_in J (db (nd_redis ?w')) x = Some it \<Longrightarrow> cached_in J (db (nd_redis ?w)) x = Some it \<or>
        coherent nf tb now ?w it \<or> coherent nf tb now ?w' it" for x it
      using after(5) unfolding map_le_def by (metis domI node.select_convs(2) node.surjective node.update_convs(1,2,6))
  qed (use node after holds_reads [of _ k "nd_reads ?w"] in \<open>auto simp: node_ok_def\<close>)
  moreover have "links_held nf tb db now (rb_key f) X ?w'"
    unfolding links_held_def
  proof (intro conjI ballI)
    have "bloom_key (rb_key f) {} (db (nd_redis ?w))" using held by (simp add: links_held_def bloom_key_def)
    from filter [OF this] show "persistent (db (nd_redis ?w')) (rb_key f)" by (auto simp: bloom_key_def)
    fix item assume item: "item \<in> X"
    let ?r = "nf (shortLinkToRecord item)" and ?t = "shard_tables ! item_shard item"
    show "expired_by (now (nd_reads ?w')) ?r \<or> ?r \<in> tb (nd_db ?w') ?t \<and> sl_Code item \<in> bloom_items (db (nd_redis ?w')) (rb_key f)"
    proof (cases "expired_by (now k) ?r")
      case True
      then show ?thesis by simp
    next
      case False
      then have "\<not> expired_by (now (nd_reads ?w)) ?r" using expired_by_mono [OF time(1)] by blast
      with held item have row: "?r \<in> tb (nd_db ?w) ?t" and code: "bloom_key (rb_key f) {sl_Code item} (db (nd_redis ?w))"
        by (auto simp: links_held_def bloom_key_def)
      from gone [OF row] False have row': "?r \<in> tb (fst e) ?t" using after(6) by simp
      have nf: "sr_ID ?r = sl_ID item" "sr_Code ?r = sl_Code item" "sr_Status ?r = sl_Status item"
        using db_lawsD(1) [OF database] by (simp_all add: stores_as_def shortLinkToRecord_def)
      have "active_after 0 (now (snd e)) ?r"
        using X item nf False time(2) by (auto simp: lists_link_def active_after_def expired_by_def word_gt_0 split: option.splits)
      moreover have "fst (db_now (clocked now D) e) = now (snd e)" by simp
      ultimately have "sl_Code item \<in> active_codes (\<lambda>dk. tb (fst dk)) (clocked now D) e"
        unfolding active_codes_def using row' shard_table_mem [OF item_shard_less, of item] nf(2) by force
      with filter [OF code] have "sl_Code item \<in> bloom_items (db r) (rb_key f)" by (auto simp: bloom_key_def)
      with row' after(6) show ?thesis by simp
    qed
  qed
  ultimately have "node_ok nf tb ok D db J now ?w' \<and> links_held nf tb db now (rb_key f) X ?w' \<and> nd_reads ?w \<le> nd_reads ?w' \<and>
      (\<forall>it. coherent nf tb now ?w it \<longrightarrow> coherent nf tb now ?w' it)"
    using after(3) by (simp add: node_adv_def advances_def)
  from at_linksvc_ok [OF assms(1) this after(2) X] show ?thesis by (simp add: cv)
qed

text \<open>Every step keeps the invariant, whichever links are held.\<close>

lemma later_leaves:
  assumes "node_ok nf tb ok D db J now w" and "nd_reads w \<le> k" and "nd_oldest w \<le> i" and "i \<le> k"
  shows "node_ok nf tb ok D db J now (later k i w)"
proof -
  have "others_step nf tb ok db J now w (later k i w)"
    using assms by (auto simp: others_step_def later_def node_ok_def keeps_rows_def)
  from others_adv [OF clock assms(1) this] show ?thesis by (simp add: node_adv_def advances_def)
qed

lemma step_ok:
  assumes "deployment_step (linksvc now D R f J domain parser) (redirectsvc now D R f J domain parser)
      (run_worker now D V zone R f b vr sr) (temp_key_free db f) okv cv cv'"
    and "deployment_ok nf tb ok okv D db J now (rb_key f) X cv"
  shows "deployment_ok nf tb ok okv D db J now (rb_key f) X cv'"
  using assms
proof (induction rule: deployment_step.induct)
  case (create req c v w vs)
  then have "node_ok nf tb ok D db J now (cl_linksvc c)" "links_held nf tb db now (rb_key f) X (cl_linksvc c)"
    "okv vs" "\<forall>item \<in> X. lists_link item" by (simp_all add: deployment_ok_def Let_def)
  from at_linksvc_ok [OF create(2) service_leaves [OF this(1,2) disjI1 [OF create(1) [unfolded linksvc_def]]] this(3,4)] show ?case .
next
  case (resolve code c u w vs)
  note held = redirectsvc_held [OF resolve(2)]
  from at_redirectsvc_ok [OF resolve(2) service_leaves [OF conjunct1 [OF held] conjunct2 [OF held]
      disjI2 [OF resolve(1) [unfolded redirectsvc_def]]]]
  show ?case .
next
  case (clean_linksvc c w vs)
  then have "node_ok nf tb ok D db J now (cl_linksvc c)" "links_held nf tb db now (rb_key f) X (cl_linksvc c)"
    "okv vs" "\<forall>item \<in> X. lists_link item" by (simp_all add: deployment_ok_def Let_def)
  from at_linksvc_ok [OF clean_linksvc(2) cleaner_leaves [OF this(1,2) clean_linksvc(1)] this(3,4)] show ?case .
next
  case (clean_redirectsvc c w vs)
  note held = redirectsvc_held [OF clean_redirectsvc(2)]
  from at_redirectsvc_ok [OF clean_redirectsvc(2) cleaner_leaves [OF conjunct1 [OF held] conjunct2 [OF held] clean_redirectsvc(1)]]
  show ?case .
next
  case (cleanup c fnow vs cv)
  from worker_leaves [OF cleanup(3,1,2)] show ?case .
next
  case (visits vs' c vs)
  then show ?case by (simp add: deployment_ok_def Let_def)
next
  case (time c k i j vs)
  let ?a = "cl_linksvc c" and ?b = "cl_redirectsvc c"
  have same: "nd_db ?b = nd_db ?a" "nd_redis ?b = nd_redis ?a" "nd_reads ?b = nd_reads ?a"
    and ok: "node_ok nf tb ok D db J now ?a" "node_ok nf tb ok D db J now ?b" "okv vs" "\<forall>item \<in> X. lists_link item"
    and held: "links_held nf tb db now (rb_key f) X ?a"
    using time(6) by (simp_all add: deployment_ok_def Let_def)
  have "keeps_held tb db now (rb_key f) ?a (later k i ?a)" by (rule same_db_keeps) (simp_all add: later_def time(1))
  note links_held_keeps [OF clock held this]
  moreover have "node_ok nf tb ok D db J now (later k i ?a)" by (rule later_leaves [OF ok(1) time(1,2,3)])
  moreover have "node_ok nf tb ok D db J now (later k j ?b)" using later_leaves [OF ok(2) _ time(4,5)] time(1) same(3) by simp
  ultimately show ?case using same ok(3,4) by (simp add: deployment_ok_def Let_def later_def)
qed

lemma steps_ok:
  assumes "deployment_steps now D V R f J db okv domain parser zone b vr sr cv cv'"
    and "deployment_ok nf tb ok okv D db J now (rb_key f) X cv"
  shows "deployment_ok nf tb ok okv D db J now (rb_key f) X cv'"
  using assms(1) unfolding deployment_steps_def
  by (induction rule: rtranclp_induct) (use assms(2) step_ok in blast)+

lemma start_ok:
  assumes "ok d" and "okv v" and "keyed_by_code J (db r)" and "persistent (db r) (rb_key f)"
    and "\<forall>c it. cached_in J (db r) c = Some it \<longrightarrow> coherent nf tb now (start_node now D g d r) it"
  shows "deployment_ok nf tb ok okv D db J now (rb_key f) {} (start_cluster now D g g' d r, v)"
proof -
  have "node_ok nf tb ok D db J now (start_node now D g d r)" by (rule start_node_ok) (use assms in blast)+
  moreover have "coherent nf tb now (start_node now D g' d r) it = coherent nf tb now (start_node now D g d r) it" for it
    by (rule coherent_shared) (simp_all add: start_node_def)
  then have "node_ok nf tb ok D db J now (start_node now D g' d r)" by (intro start_node_ok) (use assms in auto)
  ultimately show ?thesis
    using assms(2,4) by (simp add: deployment_ok_def Let_def start_cluster_def links_held_def) (simp add: start_node_def)
qed

end

text \<open>A run of the worker always returns, so the step is there whenever the name of its temporary key is free.\<close>

lemma RunOnce_returns:
  assumes laws: "db_laws nf tb ok D" "visit_laws vt st okv V"
    and state: "ok l" "okv v" and s: "s = worker_service D V zone R f fnow b vr sr"
  shows "\<exists>res. RunOnce (on_first (db_ctx_Err D)) s ((l, v), h) = Some res"
proof -
  obtain now l0 where read: "db_now D l = (now, l0)" by fastforce
  note l0 = read_done(1) [OF laws(1) state(1) read]
  have now_s: "cs_now s (fst ((l, v), h)) = (now, l0, v)" using read by (simp add: s worker_service_sel on_first_def)
  obtain rep1 e1 l1 h1 where L: "clean_links s now zero_Report ((l0, v), h) = Some ((rep1, e1), (l1, v), h1)" "ok l1"
    using clean_links_total [OF laws(1) conjunct1 [OF l0] s, of now zero_Report v h] by blast
  from L(2) state(2) have "ok (fst (l1, v)) \<and> okv (snd (l1, v))" by simp
  from clean_visits_total [OF laws(1,2) this s, of now rep1] obtain rep2 e2 l2 v2 where
    V: "clean_visits (on_first (db_ctx_Err D)) s now rep1 (l1, v) = Some ((rep2, e2), (l2, v2))" "ok l2"
    by auto
  from rebuild_filter_total [OF laws(1) V(2) s, of rep2 v2 h1] now_s L(1) V(1) show ?thesis
    by (cases e1; cases e2) (auto simp: RunOnce_def)
qed

section \<open>Properties\<close>

text \<open>
  C2 (safety). In every state of the deployment that creations, resolutions, both cleaners, runs of the worker
  and the passing of time lead to, each taken as one step, the gateway redirects only to the long URL of
  a link whose code equals the requested one for the database (which is that very code under a
  case-sensitive collation, and the code up to case under that of the migrations), that was active and
  unexpired when the oldest running load began, and that is a row of the shared database, unless that row
  has expired in the meantime.
\<close>

theorem deployment_serves_database:
  assumes laws: "db_laws nf tb ok D" "redis_laws db R" "visit_laws vt st okv V" "json_faithful J" "mono now"
    and f: "f = NewRedisBloom options" "\<forall>c. LinkKey c \<notin> {rb_key f, rb_markerKey f}"
    and start: "ok d" "okv v" "keyed_by_code J (db r)" "persistent (db r) (rb_key f)"
      "\<forall>c it. cached_in J (db r) c = Some it \<longrightarrow> coherent nf tb now (start_node now D g d r) it"
    and reach: "deployment_steps now D V R f J db okv domain parser zone b vr sr (start_cluster now D g g' d r, v) (c, vs)"
    and net: "remote (server_Resolve (redirectsvc_api (redirectsvc now D R f J domain parser))) (gw_Resolve client)"
    and http: "http_redirect (gateway_api client) recorder req c = (answer, c2)" "ha_Status answer = StatusFound"
  shows "\<exists>it w. ha_Body answer = Body_location (sl_LongURL it) \<and>
    Resolve (redirectsvc now D R f J domain parser) (TrimSpace (hv_code req)) (cl_redirectsvc c) = (Inr it, w) \<and>
    db_text_eq D (sl_Code it) (TrimSpace (hv_code req)) \<and> IsActive it (now (nd_oldest (cl_redirectsvc c))) \<and>
    (\<exists>row \<in> {shortLinkToRecord it, nf (shortLinkToRecord it)}.
      (\<exists>t \<in> set shard_tables. row \<in> tb (nd_db w) t) \<or> expired_by (now (nd_reads w)) row)"
proof -
  let ?R = "redirectsvc now D R f J domain parser" and ?code = "TrimSpace (hv_code req)"
  have parts: "shared_parts nf tb ok D db R J now f vt st okv V options"
    using laws f by unfold_locales (auto simp: one_caller_law)
  have "deployment_ok nf tb ok okv D db J now (rb_key f) {} (start_cluster now D g g' d r, v)"
    by (rule shared_parts.start_ok [OF parts start])
  from shared_parts.redirectsvc_held [OF parts shared_parts.steps_ok [OF parts reach this]]
  have ok: "node_ok nf tb ok D db J now (cl_redirectsvc c)" ..
  obtain u c1 where call: "client_Resolve client ?code c = (u, c1)" by fastforce
  have answer: "answer = (case u of Inl e \<Rightarrow> writeError e | Inr it \<Rightarrow> \<lparr>ha_Status = StatusFound, ha_Body = Body_location (sl_LongURL it)\<rparr>)"
    using http(1) call by (auto simp: http_redirect_def gateway_api_def split: sum.splits)
  obtain item where u: "u = Inr item"
  proof (cases u)
    case (Inl e)
    with http(2) answer writeError_status [of e] show ?thesis by (auto simp: status_defs)
  qed
  from client_Resolve_url [OF net call [unfolded u]] obtain it where
    "la_Resolve (redirectsvc_api ?R) ?code c = (Inr it, c1)" and url: "sl_LongURL item = sl_LongURL it" by blast
  then obtain w where run: "Resolve ?R ?code (cl_redirectsvc c) = (Inr it, w)"
    by (auto simp: redirectsvc_api_def split: prod.splits)
  have "node_parts nf tb ok D db R J now one_caller"
    using parts by (simp add: shared_parts_def held_parts_def)
  from node_parts.Resolve_vouched [OF this ok run [unfolded redirectsvc_def]] run answer u url show ?thesis
    by (intro exI [of _ it] exI [of _ w]) (auto simp: coherent_def stored_forms_def since_of_def)
qed

text \<open>
  C1 (functional). A link that the gateway has reported as created stays reachable, if its creation does
  not overlap a rebuild of the filter: with creations, resolutions, cleaner items and runs of the worker
  as steps that do not overlap, through any steps of the deployment after the creation, rebuilds of the
  filter and deletions of expired links included, the answer to its code is a redirect or a failure
  with status 500 and never that the link is missing or its code invalid, as long as its row has not
  expired; a link without an expiry is never answered as expired.
\<close>

theorem created_link_stays:
  assumes laws: "db_laws nf tb ok D" "redis_laws db R" "visit_laws vt st okv V" "json_faithful J" "mono now"
    and f: "f = NewRedisBloom options" "\<forall>c. LinkKey c \<notin> {rb_key f, rb_markerKey f}"
    and errors: "\<forall>t P d e. fst (db_first D t P d) = Inl e \<longrightarrow> \<not> domain_kind e"
    and start: "ok d" "okv v" "keyed_by_code J (db r)" "persistent (db r) (rb_key f)"
      "\<forall>c it. cached_in J (db r) c = Some it \<longrightarrow> coherent nf tb now (start_node now D g d r) it"
    and nets: "remote (server_CreateShortLink (linksvc_api (linksvc now D R f J domain parser))) (gw_CreateShortLink client)"
      "remote (server_Resolve (redirectsvc_api (redirectsvc now D R f J domain parser))) (gw_Resolve client)"
    and reach: "deployment_steps now D V R f J db okv domain parser zone b vr sr (start_cluster now D g g' d r, v) (c, vs)"
    and create: "http_createShortLink (gateway_api client) bind body c = Some (a, c1)" "ha_Body a = Body_created resp"
      "rs_Code resp \<noteq> NewShortCode 0"
    and run: "deployment_steps now D V R f J db okv domain parser zone b vr sr (c1, vs) (c2, vs2)"
    and follow: "http_redirect (gateway_api client) recorder req c2 = (answer, c3)" "TrimSpace (hv_code req) = rs_Code resp"
  shows "\<exists>q row. bind body = Inr q \<and> row \<in> (\<Union>t \<in> set shard_tables. tb (nd_db (cl_linksvc c1)) t) \<and> sr_Code row = rs_Code resp \<and>
    (sr_ExpireAt row = None \<longleftrightarrow> hq_ExpireAt q = None) \<and>
    (\<not> expired_by (now (nd_reads (cl_redirectsvc c2))) row \<longrightarrow>
      ha_Status answer \<in> {StatusFound, StatusGone, StatusInternalServerError} \<and>
      (hq_ExpireAt q = None \<longrightarrow> ha_Status answer \<noteq> StatusGone))"
proof -
  let ?L = "linksvc now D R f J domain parser" and ?R = "redirectsvc now D R f J domain parser"
  have parts: "shared_parts nf tb ok D db R J now f vt st okv V options"
    using laws f by unfold_locales (auto simp: one_caller_law)
  then have held_parts: "held_parts nf tb ok D db R J now f" by (simp add: shared_parts_def)
  have bloom: "rb_key f \<noteq> []" by (rule NewRedisBloom_keys(1) [OF f(1)])
  have "deployment_ok nf tb ok okv D db J now (rb_key f) {} (start_cluster now D g g' d r, v)"
    by (rule shared_parts.start_ok [OF parts start])
  from shared_parts.steps_ok [OF parts reach this] have ok: "deployment_ok nf tb ok okv D db J now (rb_key f) {} (c, vs)" .
  then have node: "node_ok nf tb ok D db J now (cl_linksvc c)" "links_held nf tb db now (rb_key f) {} (cl_linksvc c)" "okv vs"
    by (simp_all add: deployment_ok_def Let_def)
  from http_created [OF nets(1) create(1,2)] obtain q sreq sresp w1 where q: "bind body = Inr q"
    and made: "CreateShortLink ?L sreq (cl_linksvc c) = Some (Inr sresp, w1)" "rs_Code sresp = rs_Code resp"
    and expiry: "cr_ExpireAt sreq = None \<longleftrightarrow> hq_ExpireAt q = None" and c1: "c1 = at_linksvc w1 c"
    by (elim exE conjE) (rule that)
  from held_parts.created_held [OF held_parts node(1,2) bloom made(1) [unfolded linksvc_def]] obtain item where
    item: "valid_item item" "sl_Code item = rs_Code resp" "sl_Code item = NewShortCode (sl_ID item)"
      "sl_Status item = ShortLinkStatusActive" "sl_ExpireAt item = cr_ExpireAt sreq"
    and row: "nf (shortLinkToRecord item) \<in> tb (nd_db w1) (shard_tables ! item_shard item)"
    and held: "links_held nf tb db now (rb_key f) {item} w1"
    using made(2) by auto
  let ?row = "nf (shortLinkToRecord item)" and ?w = "cl_redirectsvc c2" and ?expires = "hq_ExpireAt q \<noteq> None"
  have lists: "\<forall>it \<in> {item}. lists_link it" using item create(3) by (auto simp: lists_link_def)
  note after = held_parts.service_leaves [OF held_parts node(1,2) disjI1 [OF made(1) [unfolded linksvc_def]]]
  have "deployment_ok nf tb ok okv D db J now (rb_key f) {item} (c1, vs)"
    unfolding c1 by (rule shared_parts.at_linksvc_ok [OF parts ok _ node(3) lists]) (use after held in blast)
  from shared_parts.redirectsvc_held [OF parts shared_parts.steps_ok [OF parts run this]]
  have ok2: "ok (nd_db ?w)" and held2: "links_held nf tb db now (rb_key f) {item} ?w" by (simp_all add: node_ok_def)
  have nf: "sr_Code ?row = rs_Code resp" "sr_ExpireAt ?row = None \<longleftrightarrow> hq_ExpireAt q = None"
    using db_lawsD(1) [OF laws(1)] item expiry by (simp_all add: stores_as_def shortLinkToRecord_def)
  have status: "ha_Status answer \<in> {StatusFound, StatusGone, StatusInternalServerError} \<and> (ha_Status answer = StatusGone \<longrightarrow> ?expires)"
    if fresh: "\<not> expired_by (now (nd_reads ?w)) ?row"
  proof -
    have here: "?row \<in> tb (nd_db ?w) (shard_tables ! item_shard item)" "bloom_key (rb_key f) {sl_Code item} (db (nd_redis ?w))"
      using held2 fresh by (simp_all add: links_held_def bloom_key_def)
    obtain u w2 where resolve: "Resolve ?R (sl_Code item) ?w = (u, w2)" by fastforce
    have bad: "ErrExpired \<in> link_failures ?expires \<longrightarrow> sl_ExpireAt item = None" using expiry item(5) by (simp add: link_failures_def)
    from stored_link_answer [OF laws(1,2) bloom item(1,4) ok2 here bad no_link_failures [OF errors] redirectsvc_def resolve]
    have "fst (Resolve ?R (rs_Code resp) ?w) \<notin> Inl ` link_failures ?expires" using resolve item(2) by simp
    from followed_answer [OF nets(2) follow this] show ?thesis .
  qed
  have "?row \<in> (\<Union>t \<in> set shard_tables. tb (nd_db (cl_linksvc c1)) t)"
    using row shard_table_mem [OF item_shard_less, of item] by (auto simp: c1 at_linksvc_def)
  with q nf status show ?thesis by (intro exI [of _ q] exI [of _ ?row]) blast
qed

text \<open>The sample deployment: databases and Redis in memory, the clock standing, every call delivered.\<close>

definition sample_steps :: "(mem_db, keyspace, mem_visits) deployment \<Rightarrow> (mem_db, keyspace, mem_visits) deployment \<Rightarrow> bool" where
  "sample_steps = deployment_steps node_clock text_db mem_visit_db mem_redis node_bloom (one_link_codec Redis_Cache.sample_link) (\<lambda>m. m)
     mem_visits_ok ''http://a'' sample_parser 0 0 0 0"

definition sample_bloom_options :: RedisBloomOptions where
  "sample_bloom_options = \<lparr>bo_Key = [], bo_Capacity = 0, bo_ErrorRate = Finite 0\<rparr>"

lemma node_bloom_options: "node_bloom = NewRedisBloom sample_bloom_options"
  by (simp add: node_bloom_def sample_bloom_options_def)

lemma node_bloom_keys: "\<forall>c. LinkKey c \<notin> {rb_key node_bloom, rb_markerKey node_bloom}"
  by (simp add: LinkKey_def keyPrefix_def node_bloom_def NewRedisBloom_def defaultBloomFilterKey_def Let_def)

lemma sample_world:
  "json_faithful (one_link_codec Redis_Cache.sample_link)" "mono node_clock"
  by (auto simp: json_faithful_def encodable_def one_link_codec_def mono_def node_clock_def)

interpretation sample_shared: shared_parts "\<lambda>r. r" mem_tb "mem_ok (=)" text_db "\<lambda>m. m" mem_redis
    "one_link_codec Redis_Cache.sample_link" node_clock node_bloom "\<lambda>v. set (mv_visits v)" "\<lambda>v. set (mv_stats v)" mem_visits_ok
    mem_visit_db sample_bloom_options
  by unfold_locales (use node_bloom_keys in \<open>auto simp: mem_visit_laws node_bloom_options\<close>)

lemma sample_cleanup_step:
  assumes "mem_visits_ok vs" and "mem_ok (=) (nd_db (cl_linksvc c))" and "nd_redis (cl_linksvc c) (rebuildTempKey node_bloom t) = None"
  shows "\<exists>cv. sample_steps (c, vs) cv \<and> run_worker node_clock text_db mem_visit_db 0 mem_redis node_bloom 0 0 0 t (c, vs) = Some cv"
proof -
  let ?w = "cl_linksvc c"
  have "mem_ok (=) (fst (nd_db ?w, nd_reads ?w))" using assms(2) by simp
  from RunOnce_returns [OF clocked_laws [OF text_db_laws] mem_visit_laws this assms(1) refl, of node_clock 0 mem_redis node_bloom t 0 0 0 "nd_redis ?w"]
  obtain cv where run: "run_worker node_clock text_db mem_visit_db 0 mem_redis node_bloom 0 0 0 t (c, vs) = Some cv"
    by (auto simp: run_worker_def Let_def)
  have "temp_key_free (\<lambda>m. m) node_bloom (nd_redis (cl_linksvc c)) t" using assms(3) by (simp add: temp_key_free_def)
  with run have "sample_steps (c, vs) cv"
    unfolding sample_steps_def deployment_steps_def by (intro r_into_rtranclp deployment_step.cleanup [where fnow = t])
  with run show ?thesis by blast
qed

lemma deployment_serves_database_witness:
  "\<exists>c it w. sample_steps (start_cluster node_clock text_db sample_gen sample_gen sample_db sample_keys, old_visits) (c, old_visits) \<and>
    ha_Body (fst (http_redirect (gateway_api cluster_client) None sample_visit c)) = Body_location (sl_LongURL it) \<and>
    Resolve sample_redirectsvc (NewShortCode 7) (cl_redirectsvc c) = (Inr it, w) \<and> sl_Code it = NewShortCode 7"
proof -
  let ?c = "start_cluster node_clock text_db sample_gen sample_gen sample_db sample_keys"
  have none: "sample_steps (?c, old_visits) (?c, old_visits)" by (simp add: sample_steps_def deployment_steps_def)
  have keys: "keyed_by_code (one_link_codec Redis_Cache.sample_link) sample_keys" "persistent sample_keys (rb_key node_bloom)"
    by (simp add: keyed_by_code_def sample_keys_cached) (simp add: persistent_def sample_keys_def)
  have cached: "\<forall>c it. cached_in (one_link_codec Redis_Cache.sample_link) sample_keys c = Some it \<longrightarrow>
      coherent (\<lambda>r. r) mem_tb node_clock (start_node node_clock text_db sample_gen sample_db sample_keys) it"
    by (simp add: sample_keys_cached)
  have net: "remote (server_Resolve (redirectsvc_api sample_redirectsvc)) (gw_Resolve cluster_client)"
    by (simp add: cluster_client_def delivered_client_def network_remote)
  have code: "TrimSpace (hv_code sample_visit) = NewShortCode 7" by (simp add: sample_visit_def TrimSpace_NewShortCode)
  have node: "cl_redirectsvc ?c = sample_node" by (simp add: start_cluster_def sample_node_def)
  obtain it w where run: "Resolve sample_redirectsvc (NewShortCode 7) sample_node = (Inr it, w)"
    using sample_resolves_as [OF sample_redirectsvc_def [unfolded redirectsvc_def]] by (metis prod.collapse)
  obtain answer c2 where http: "http_redirect (gateway_api cluster_client) None sample_visit ?c = (answer, c2)" by fastforce
  then have found: "ha_Status answer = StatusFound"
    using run node unfolding http_redirect_def code
    by (auto simp: gateway_api_def client_Resolve_def cluster_client_def network_def server_Resolve_def redirectsvc_api_def)
  from deployment_serves_database [OF text_db_laws mem_redis_laws mem_visit_laws sample_world node_bloom_options node_bloom_keys
      sample_db_ok old_visits_ok keys cached none [unfolded sample_steps_def] net [unfolded sample_redirectsvc_def] http found]
  obtain it2 w2 where "ha_Body answer = Body_location (sl_LongURL it2)" "sl_Code it2 = NewShortCode 7"
    "Resolve sample_redirectsvc (NewShortCode 7) (cl_redirectsvc ?c) = (Inr it2, w2)"
    unfolding code sample_redirectsvc_def [symmetric] by (auto simp: text_db_def mem_link_db_def)
  with none http show ?thesis by (intro exI [of _ ?c] exI [of _ it2] exI [of _ w2]) simp
qed

lemma sample_id: "map_option fst (NextID node_clock sample_gen 1) = Some 4198400"
  by code_simp

lemma sample_http_created:
  "\<exists>a c1 resp. http_createShortLink (gateway_api cluster_client) sample_bind () empty_cluster = Some (a, c1) \<and>
    ha_Body a = Body_created resp \<and> rs_Code resp = NewShortCode 4198400"
proof -
  obtain a c1 resp where create: "http_createShortLink (gateway_api cluster_client) sample_bind () empty_cluster = Some (a, c1)"
      "ha_Body a = Body_created resp" using sample_http_create by blast
  have net: "remote (server_CreateShortLink (linksvc_api sample_linksvc)) (gw_CreateShortLink cluster_client)"
    by (simp add: cluster_client_def delivered_client_def network_remote)
  from http_created [OF net create] obtain sreq sresp w1 where
    run: "CreateShortLink sample_linksvc sreq empty_node = Some (Inr sresp, w1)" "rs_Code sresp = rs_Code resp"
    by (auto simp: empty_cluster_def)
  have ports: "sv_now sample_linksvc = read_clock node_clock" "sv_ids sample_linksvc = Some (on_ids node_clock)"
    by (simp_all add: sample_linksvc_def linksvc_def the_service_sel)
  have "sv_now sample_linksvc empty_node = (node_clock 0, empty_node\<lparr>nd_reads := 1\<rparr>)"
    by (simp add: ports read_clock_def empty_node_def start_node_def)
  from CreateShortLink_stores [OF run(1) CreateShortLink_valid [OF run(1)] this] obtain n w2 item where
    id: "on_ids node_clock (empty_node\<lparr>nd_reads := 1\<rparr>) = Some (n, w2)"
    and store: "store_link sample_linksvc item w2 = (Inr sresp, w1)" "sl_Code item = NewShortCode n"
    unfolding ports by (metis option.inject)
  have "n = 4198400" using id sample_id by (auto simp: on_ids_def empty_node_def start_node_def split: option.splits)
  moreover have "rs_Code sresp = sl_Code item" using store(1) by (auto simp: store_link_def split: option.splits prod.splits)
  ultimately show ?thesis using create run(2) store(2) by (intro exI [of _ a] exI [of _ c1] exI [of _ resp]) simp
qed

lemma created_link_stays_witness:
  "\<exists>a c1 resp c2. http_createShortLink (gateway_api cluster_client) sample_bind () empty_cluster = Some (a, c1) \<and>
    ha_Body a = Body_created resp \<and> sample_steps (c1, old_visits) (c2, old_visits) \<and> nd_reads (cl_redirectsvc c2) > nd_reads (cl_redirectsvc c1) \<and>
    ha_Status (fst (http_redirect (gateway_api cluster_client) None
      \<lparr>hv_code = rs_Code resp, hv_ClientIP = [], hv_UserAgent = [], hv_Referer = []\<rparr> c2)) \<in> {StatusFound, StatusInternalServerError}"
proof -
  obtain a c1 resp where create: "http_createShortLink (gateway_api cluster_client) sample_bind () empty_cluster = Some (a, c1)"
      "ha_Body a = Body_created resp" and code: "rs_Code resp = NewShortCode 4198400" using sample_http_created by blast
  let ?visit = "\<lparr>hv_code = rs_Code resp, hv_ClientIP = [], hv_UserAgent = [], hv_Referer = []\<rparr>"
  define k where "k = Suc (max (nd_reads (cl_linksvc c1)) (max (nd_reads (cl_redirectsvc c1))
    (max (nd_oldest (cl_linksvc c1)) (nd_oldest (cl_redirectsvc c1)))))"
  define c2 where "c2 = \<lparr>cl_linksvc = later k k (cl_linksvc c1), cl_redirectsvc = later k k (cl_redirectsvc c1)\<rparr>"
  obtain answer c3 where follow: "http_redirect (gateway_api cluster_client) None ?visit c2 = (answer, c3)" by fastforce
  have empty: "empty_cluster = start_cluster node_clock text_db sample_gen sample_gen empty_db (\<lambda>_. None)"
    by (simp add: empty_cluster_def empty_node_def start_cluster_def)
  have none: "sample_steps (start_cluster node_clock text_db sample_gen sample_gen empty_db (\<lambda>_. None), old_visits) (empty_cluster, old_visits)"
    by (simp add: sample_steps_def deployment_steps_def empty)
  have step: "sample_steps (c1, old_visits) (c2, old_visits)"
    unfolding sample_steps_def deployment_steps_def c2_def
    by (intro r_into_rtranclp deployment_step.time) (simp_all add: k_def)
  have errors: "\<forall>t P d e. fst (db_first text_db t P d) = Inl e \<longrightarrow> \<not> domain_kind e"
    by (auto simp: text_db_def mem_link_db_def domain_kind_def domain_errors_def split: option.splits)
  have start: "mem_ok (=) empty_db" "keyed_by_code (one_link_codec Redis_Cache.sample_link) (\<lambda>_. None)"
    "persistent (\<lambda>_. None) (rb_key node_bloom)"
    "\<forall>c it. cached_in (one_link_codec Redis_Cache.sample_link) (\<lambda>_. None) c = Some it \<longrightarrow>
      coherent (\<lambda>r. r) mem_tb node_clock (start_node node_clock text_db sample_gen empty_db (\<lambda>_. None)) it"
    by (simp_all add: keyed_by_code_def cached_in_def persistent_def)
  have nets: "remote (server_CreateShortLink (linksvc_api sample_linksvc)) (gw_CreateShortLink cluster_client)"
    "remote (server_Resolve (redirectsvc_api sample_redirectsvc)) (gw_Resolve cluster_client)"
    by (simp_all add: cluster_client_def delivered_client_def network_remote)
  have id: "rs_Code resp \<noteq> NewShortCode 0" by (simp add: code NewShortCode_def EncodeBase62_inj)
  have follows: "TrimSpace (hv_code ?visit) = rs_Code resp" by (simp add: code TrimSpace_NewShortCode)
  from created_link_stays [OF text_db_laws mem_redis_laws mem_visit_laws sample_world node_bloom_options node_bloom_keys errors
      start(1) old_visits_ok start(2-4) nets [unfolded sample_linksvc_def sample_redirectsvc_def] none [unfolded sample_steps_def]
      create id step [unfolded sample_steps_def] follow follows]
  obtain row where "sr_ExpireAt row = None" "\<not> expired_by (node_clock (nd_reads (cl_redirectsvc c2))) row \<longrightarrow>
      ha_Status answer \<in> {StatusFound, StatusInternalServerError}"
    by (auto simp: sample_bind_def)
  then have "ha_Status answer \<in> {StatusFound, StatusInternalServerError}" by (simp add: expired_by_def)
  moreover have "nd_reads (cl_redirectsvc c2) > nd_reads (cl_redirectsvc c1)" by (simp add: c2_def later_def k_def)
  ultimately show ?thesis
    using create step follow by (intro exI [of _ a] exI [of _ c1] exI [of _ resp] exI [of _ c2]) simp
qed

end
