(* ===== verification/Async_Writer.thy ===== *)
theory Async_Writer
  imports Link_Service Short_Link_Mem
begin

text \<open>
  \<open>internal/app/linkapp/async_writer.go\<close>: creations are put on a bounded queue that several
  goroutines empty in batches. \<open>'d\<close> is the state of the repository behind the writer. A goroutine
  is at one of the points \<open>worker\<close>; \<open>worker_step\<close> is what it does when a given case of its
  \<open>select\<close> is ready, and \<open>writer_step\<close> interleaves the goroutines, the callers of \<open>Create\<close> and
  the cancellation of the context. The pool of slices only recycles memory and has no part in the
  model; every batch starts empty as \<open>(*batchPtr)[:0]\<close> does.
\<close>

section \<open>The writer\<close>

definition defaultWriteQueueSize :: int where "defaultWriteQueueSize = 8192"
definition defaultWriteBatchSize :: int where "defaultWriteBatchSize = 256"
definition defaultWriteWorkers :: int where "defaultWriteWorkers = 4"
definition defaultWriteFlushInterval :: duration where "defaultWriteFlushInterval = 10 * millisecond"

type_synonym 'd batch_creator = "ShortLink list \<Rightarrow> 'd \<Rightarrow> go_error option \<times> 'd"

text \<open>\<open>ao_AsBatch\<close> is the outcome of the type assertion on \<open>Repository\<close>.\<close>

record 'd AsyncWriterOptions =
  ao_Repository :: "'d ShortLinkRepository"
  ao_AsBatch :: "'d batch_creator option"
  ao_BatchWriter :: "'d batch_creator option"
  ao_QueueSize :: int
  ao_BatchSize :: int
  ao_Workers :: int
  ao_FlushInterval :: duration

record 'd AsyncShortLinkWriter =
  aw_repo :: "'d ShortLinkRepository"
  aw_batchWriter :: "'d batch_creator option"
  aw_batchSize :: nat
  aw_flushInterval :: duration

definition resolveBatchWriter :: "'d AsyncWriterOptions \<Rightarrow> 'd batch_creator option" where
  "resolveBatchWriter options =
     (case ao_BatchWriter options of
        Some b \<Rightarrow> Some b
      | None \<Rightarrow> (case ao_AsBatch options of Some b \<Rightarrow> Some b | None \<Rightarrow> None))"

text \<open>The writer, its queue and the number of goroutines it starts.\<close>

definition NewAsyncShortLinkWriter ::
  "'d AsyncWriterOptions \<Rightarrow> 'd AsyncShortLinkWriter \<times> ShortLink chan \<times> nat" where
  "NewAsyncShortLinkWriter options =
     (let queueSize = (if ao_QueueSize options \<le> 0 then defaultWriteQueueSize else ao_QueueSize options);
          batchSize = (if ao_BatchSize options \<le> 0 then defaultWriteBatchSize else ao_BatchSize options);
          workers = (if ao_Workers options \<le> 0 then defaultWriteWorkers else ao_Workers options);
          flushInterval = (if ao_FlushInterval options \<le> 0 then defaultWriteFlushInterval
                           else ao_FlushInterval options)
      in (\<lparr>aw_repo = ao_Repository options, aw_batchWriter = resolveBatchWriter options,
           aw_batchSize = nat batchSize, aw_flushInterval = flushInterval\<rparr>,
          chan_make (nat queueSize), nat workers))"

text \<open>
  \<open>Create\<close> under a context of the caller whose error is \<open>ctx_Err\<close>; \<open>pick_send\<close> is the choice of
  the \<open>select\<close> when both of its cases are ready. \<open>None\<close>: the call waits.
\<close>

definition Async_Create ::
  "bool \<Rightarrow> go_error option \<Rightarrow> ShortLink \<Rightarrow> ShortLink chan \<Rightarrow> (go_error option \<times> ShortLink chan) option" where
  "Async_Create pick_send ctx_Err item queue =
     (case ValidateShortCode (sl_Code item) of
        Some err \<Rightarrow> Some (Some err, queue)
      | None \<Rightarrow>
          (case chan_send item queue of
             None \<Rightarrow> (case ctx_Err of None \<Rightarrow> None | Some err \<Rightarrow> Some (Some err, queue))
           | Some queue' \<Rightarrow>
               (case ctx_Err of
                  None \<Rightarrow> Some (None, queue')
                | Some err \<Rightarrow> Some (if pick_send then (None, queue') else (Some err, queue)))))"

definition Async_FindByCode :: "'d AsyncShortLinkWriter \<Rightarrow> string \<Rightarrow> 'd \<Rightarrow> (go_error + ShortLink) \<times> 'd" where
  "Async_FindByCode w code = re_FindByCode (aw_repo w) code"

definition Async_FindActiveByCode :: "'d AsyncShortLinkWriter \<Rightarrow> string \<Rightarrow> 'd \<Rightarrow> (go_error + ShortLink) \<times> 'd" where
  "Async_FindActiveByCode w code = re_FindActiveByCode (aw_repo w) code"

section \<open>One goroutine\<close>

text \<open>
  \<open>Popping b\<close>: in \<open>popBatch\<close> with the batch \<open>b\<close>; \<open>Flushing b a\<close>: in \<open>flush\<close> with \<open>b\<close> still to be
  written, to go on with \<open>a\<close>; \<open>Draining b\<close>: in the loops of \<open>drain\<close>; \<open>Exited\<close>: \<open>run\<close> has returned.
\<close>

datatype continuation = To_run | To_drain | To_return

datatype worker =
    Popping "ShortLink list"
  | Flushing "ShortLink list" continuation
  | Draining "ShortLink list"
  | Exited

text \<open>The ready cases: a receive, the timer, the context; \<open>Go_on\<close> stands for code without \<open>select\<close>.\<close>

datatype ready = Receive | Timer | Ctx_Done | Go_on

definition resume :: "continuation \<Rightarrow> worker" where
  "resume a = (case a of To_run \<Rightarrow> Popping [] | To_drain \<Rightarrow> Draining [] | To_return \<Rightarrow> Exited)"

text \<open>One call of the repository by \<open>flush\<close>, and the part of the batch it leaves.\<close>

definition flush_one ::
  "'d AsyncShortLinkWriter \<Rightarrow> ShortLink \<Rightarrow> ShortLink list \<Rightarrow> 'd \<Rightarrow> ShortLink list \<times> 'd" where
  "flush_one w item rest d =
     (case aw_batchWriter w of
        Some createBatch \<Rightarrow> ([], snd (createBatch (item # rest) d))
      | None \<Rightarrow> (rest, snd (re_Create (aw_repo w) item d)))"

text \<open>
  The case of the timer exists only when the batch is not empty, the receive of \<open>drain\<close> has a
  default, and the batches of both are flushed when they are full.
\<close>

fun worker_step ::
  "'d AsyncShortLinkWriter \<Rightarrow> bool \<Rightarrow> ready \<Rightarrow> worker \<times> ShortLink chan \<times> 'd \<Rightarrow> (worker \<times> ShortLink chan \<times> 'd) option" where
  "worker_step w cancelled Receive (Popping b, q, d) =
     (case chan_recv q of
        None \<Rightarrow> None
      | Some (item, q') \<Rightarrow>
          Some (if aw_batchSize w \<le> length (b @ [item]) then Flushing (b @ [item]) To_run
                else Popping (b @ [item]), q', d))"
| "worker_step w cancelled Timer (Popping b, q, d) =
     (if b = [] then None else Some (Flushing b To_run, q, d))"
| "worker_step w cancelled Ctx_Done (Popping b, q, d) =
     (if cancelled then Some (Flushing b To_drain, q, d) else None)"
| "worker_step w cancelled Go_on (Flushing [] a, q, d) = Some (resume a, q, d)"
| "worker_step w cancelled Go_on (Flushing (item # rest) a, q, d) =
     (case flush_one w item rest d of (b, d') \<Rightarrow> Some (Flushing b a, q, d'))"
| "worker_step w cancelled Go_on (Draining b, q, d) =
     (case chan_recv q of
        None \<Rightarrow> Some (Flushing b To_return, q, d)
      | Some (item, q') \<Rightarrow>
          Some (if aw_batchSize w \<le> length (b @ [item]) then Flushing (b @ [item]) To_drain
                else Draining (b @ [item]), q', d))"
| "worker_step w cancelled _ _ = None"

section \<open>All goroutines and their callers\<close>

text \<open>
  Kept to state the properties: the accepted items before and after the cancellation, the items
  received from the queue with the number of the goroutine that received each, and the items of each
  call of the repository with the number of the goroutine that made it. That these are the calls
  which the repository sees is a claim (\<open>writing_calls\<close>, below).
\<close>

record 'd writing =
  ws_queue :: "ShortLink chan"
  ws_workers :: "worker list"
  ws_db :: 'd
  ws_cancelled :: bool
  ws_early :: "ShortLink list"
  ws_late :: "ShortLink list"
  ws_taken :: "(nat \<times> ShortLink) list"
  ws_calls :: "(nat \<times> ShortLink list) list"

definition ws_written :: "'d writing \<Rightarrow> ShortLink list" where
  "ws_written s = concat (map snd (ws_calls s))"

text \<open>What the goroutine \<open>i\<close> did, of a list of what all of them did.\<close>

definition of_goroutine :: "nat \<Rightarrow> (nat \<times> 'a) list \<Rightarrow> 'a list" where
  "of_goroutine i xs = map snd (filter (\<lambda>x. fst x = i) xs)"

definition accept :: "ShortLink \<Rightarrow> 'd writing \<Rightarrow> 'd writing" where
  "accept item s =
     (if ws_cancelled s then s\<lparr>ws_late := ws_late s @ [item]\<rparr> else s\<lparr>ws_early := ws_early s @ [item]\<rparr>)"

definition newly_taken :: "ShortLink chan \<Rightarrow> ShortLink chan \<Rightarrow> ShortLink list" where
  "newly_taken q q' = take (length (buffered q) - length (buffered q')) (buffered q)"

definition handed :: "worker \<Rightarrow> worker \<Rightarrow> ShortLink list" where
  "handed k k' =
     (case (k, k') of (Flushing b a, Flushing b' a') \<Rightarrow> take (length b - length b') b | _ \<Rightarrow> [])"

inductive goroutine_step :: "'d AsyncShortLinkWriter \<Rightarrow> 'd writing \<Rightarrow> 'd writing \<Rightarrow> bool" for w where
  "i < length (ws_workers s) \<Longrightarrow>
   worker_step w (ws_cancelled s) r (ws_workers s ! i, ws_queue s, ws_db s) = Some (k, q, d) \<Longrightarrow>
   goroutine_step w s (s\<lparr>ws_workers := (ws_workers s)[i := k], ws_queue := q, ws_db := d,
     ws_taken := ws_taken s @ map (Pair i) (newly_taken (ws_queue s) q),
     ws_calls := ws_calls s @ (if handed (ws_workers s ! i) k = [] then [] else [(i, handed (ws_workers s ! i) k)])\<rparr>)"

inductive writer_step :: "'d AsyncShortLinkWriter \<Rightarrow> 'd writing \<Rightarrow> 'd writing \<Rightarrow> bool" for w where
  create: "Async_Create pick ctx_Err item (ws_queue s) = Some (None, q) \<Longrightarrow>
    writer_step w s ((accept item s)\<lparr>ws_queue := q\<rparr>)"
| cancel: "writer_step w s (s\<lparr>ws_cancelled := True\<rparr>)"
| goroutine: "goroutine_step w s s' \<Longrightarrow> writer_step w s s'"

definition writing_start :: "'d AsyncWriterOptions \<Rightarrow> 'd \<Rightarrow> 'd writing" where
  "writing_start options d =
     (case NewAsyncShortLinkWriter options of (w, q, n) \<Rightarrow>
        \<lparr>ws_queue = q, ws_workers = replicate n (Popping []), ws_db = d, ws_cancelled = False,
         ws_early = [], ws_late = [], ws_taken = [], ws_calls = []\<rparr>)"

text \<open>\<open>Wait\<close> returns when every goroutine has.\<close>

definition Wait_returns :: "'d writing \<Rightarrow> bool" where
  "Wait_returns s \<longleftrightarrow> (\<forall>k \<in> set (ws_workers s). k = Exited)"

section \<open>What a step does\<close>

primrec batch_of :: "worker \<Rightarrow> ShortLink list" where
  "batch_of (Popping b) = b"
| "batch_of (Flushing b a) = b"
| "batch_of (Draining b) = b"
| "batch_of Exited = []"

text \<open>\<open>stopping\<close>: at a point only reached after the cancellation; \<open>leaving\<close>: has seen an empty queue.\<close>

fun stopping :: "worker \<Rightarrow> bool" where
  "stopping (Popping b) = False"
| "stopping (Flushing b a) = (a \<noteq> To_run)"
| "stopping _ = True"

fun leaving :: "worker \<Rightarrow> bool" where
  "leaving (Flushing b a) = (a = To_return)"
| "leaving k = (k = Exited)"

definition batch_ok :: "nat \<Rightarrow> worker \<Rightarrow> bool" where
  "batch_ok n k \<longleftrightarrow> (case k of Flushing b a \<Rightarrow> length b \<le> n | _ \<Rightarrow> length (batch_of k) < n)"

lemma batch_ok_length: "batch_ok n k \<Longrightarrow> length (batch_of k) \<le> n"
  by (cases k) (auto simp: batch_ok_def)

text \<open>A weight that every step of a goroutine lowers: what is left to do.\<close>

primrec weight :: "worker \<Rightarrow> nat" where
  "weight (Popping b) = 6 * length b + 4"
| "weight (Flushing b a) = 2 * length b + (case a of To_run \<Rightarrow> 5 | To_drain \<Rightarrow> 3 | To_return \<Rightarrow> 1)"
| "weight (Draining b) = 6 * length b + 2"
| "weight Exited = 0"

lemma flush_one_length: "flush_one w item rest d = (b, d') \<Longrightarrow> \<exists>p. item # rest = p @ b \<and> p \<noteq> []"
  by (auto simp: flush_one_def split: option.splits)

lemma newly_taken_recv:
  "chan_recv q = Some (item, q') \<Longrightarrow> newly_taken q q' = [item] \<and> buffered q = item # buffered q' \<and>
     capacity q' = capacity q"
  by (auto simp: chan_recv_def newly_taken_def split: list.splits)

lemma newly_taken_same [simp]: "newly_taken q q = []"
  by (simp add: newly_taken_def)

lemma chan_recv_None: "chan_recv q = None \<longleftrightarrow> buffered q = []"
  by (auto simp: chan_recv_def split: list.splits)

lemma handed_flushing:
  "handed (Flushing (p @ b) a) (Flushing b a') = p"
  "handed (Flushing (x # p @ b) a) (Flushing b a') = x # p"
  by (simp_all add: handed_def)

lemma handed_other [simp]:
  "handed (Popping b) k = []" "handed (Draining b) k = []" "handed k (resume a) = []" "handed Exited k = []"
  "handed k Exited = []" "handed k (Popping b) = []" "handed k (Draining b) = []"
  by (cases k; cases a; simp add: handed_def resume_def)+

lemma resume_sel [simp]:
  "batch_of (resume a) = []" "stopping (resume a) = (a \<noteq> To_run)" "leaving (resume a) = (a = To_return)"
  "weight (resume a) = (case a of To_run \<Rightarrow> 4 | To_drain \<Rightarrow> 2 | To_return \<Rightarrow> 0)"
  by (cases a; simp add: resume_def)+

lemma worker_step_effect:
  assumes "worker_step w cancelled r (k, q, d) = Some (k', q', d')" and "0 < aw_batchSize w"
    and "batch_ok (aw_batchSize w) k"
  shows "buffered q = newly_taken q q' @ buffered q' \<and> capacity q' = capacity q \<and>
    batch_of k @ newly_taken q q' = handed k k' @ batch_of k' \<and>
    batch_ok (aw_batchSize w) k' \<and>
    (stopping k' \<longrightarrow> stopping k \<or> cancelled) \<and>
    (leaving k' \<longrightarrow> leaving k \<or> buffered q' = []) \<and>
    weight k' + 10 * length (buffered q') < weight k + 10 * length (buffered q)"
  using assms
proof (cases "(w, cancelled, r, k, q, d)" rule: worker_step.cases)
  case (5 w' c item rest a q1 d1)
  then obtain b d2 where one: "flush_one w item rest d = (b, d2)" and res: "k' = Flushing b a" "q' = q" "d' = d2"
    and k: "k = Flushing (item # rest) a"
    using assms(1) by (auto split: prod.splits)
  from flush_one_length [OF one] obtain p where p: "item # rest = p @ b" "p \<noteq> []" by blast
  with res k assms(2,3) show ?thesis by (cases p) (auto simp: handed_flushing batch_ok_def)
qed (auto simp: batch_ok_def neq_Nil_conv chan_recv_None resume_def dest!: newly_taken_recv split: option.splits if_splits continuation.splits)

text \<open>What a step does to the repository: one call with the items it hands over.\<close>

definition written_by :: "'d AsyncShortLinkWriter \<Rightarrow> ShortLink list \<Rightarrow> 'd \<Rightarrow> 'd \<Rightarrow> bool" where
  "written_by w items d d' \<longleftrightarrow>
     (case aw_batchWriter w of
        Some createBatch \<Rightarrow> d' = snd (createBatch items d)
      | None \<Rightarrow> (\<exists>item. items = [item] \<and> d' = snd (re_Create (aw_repo w) item d)))"

lemma worker_step_db:
  assumes "worker_step w cancelled r (k, q, d) = Some (k', q', d')"
  shows "if handed k k' = [] then d' = d else written_by w (handed k k') d d'"
  using assms
proof (cases "(w, cancelled, r, k, q, d)" rule: worker_step.cases)
  case (5 w' c item rest a q1 d1)
  then show ?thesis
    using assms by (auto simp: flush_one_def written_by_def handed_def split: prod.splits option.splits)
qed (auto split: list.splits if_splits option.splits prod.splits)


section \<open>What all runs keep\<close>

definition goroutine_ok :: "'d AsyncShortLinkWriter \<Rightarrow> bool \<Rightarrow> nat \<Rightarrow> nat \<Rightarrow> worker \<Rightarrow> bool" where
  "goroutine_ok w cancelled queued late k \<longleftrightarrow>
     batch_ok (aw_batchSize w) k \<and> (stopping k \<longrightarrow> cancelled) \<and>
     (leaving k \<longrightarrow> stopping k \<and> queued \<le> late)"

definition writing_inv :: "'d AsyncShortLinkWriter \<Rightarrow> nat \<Rightarrow> nat \<Rightarrow> 'd writing \<Rightarrow> bool" where
  "writing_inv w cap n s \<longleftrightarrow>
     length (buffered (ws_queue s)) \<le> cap \<and> capacity (ws_queue s) = cap \<and> length (ws_workers s) = n \<and>
     (\<forall>item \<in> set (ws_early s) \<union> set (ws_late s). ValidateShortCode (sl_Code item) = None) \<and>
     ws_early s @ ws_late s = map snd (ws_taken s) @ buffered (ws_queue s) \<and>
     mset (map snd (ws_taken s)) = mset (ws_written s) + mset (concat (map batch_of (ws_workers s))) \<and>
     (\<forall>i < length (ws_workers s).
        of_goroutine i (ws_taken s) = concat (of_goroutine i (ws_calls s)) @ batch_of (ws_workers s ! i)) \<and>
     (\<forall>k \<in> set (ws_workers s).
        goroutine_ok w (ws_cancelled s) (length (buffered (ws_queue s))) (length (ws_late s)) k) \<and>
     (\<not> ws_cancelled s \<longrightarrow> ws_late s = [])"

lemma leaving_stopping: "leaving k \<Longrightarrow> stopping k"
  by (cases k) auto

lemma mset_concat_update:
  "i < length ks \<Longrightarrow> mset (concat (map f (ks[i := k]))) + mset (f (ks ! i)) = mset (concat (map f ks)) + mset (f k)"
proof (induction ks arbitrary: i)
  case (Cons x ks)
  then show ?case by (cases i) (auto simp: add.assoc add.left_commute)
qed simp

lemma mset_balance:
  fixes U :: "'a multiset"
  assumes "U + a = C + b" and "a + t = h + b" and "T = W + C"
  shows "T + t = W + h + U"
proof -
  have "T + t + a = W + C + (a + t)" using assms(3) by (simp add: ac_simps)
  also have "\<dots> = W + h + (C + b)" unfolding assms(2) by (simp add: ac_simps)
  also have "\<dots> = W + h + U + a" unfolding assms(1) [symmetric] by (simp add: ac_simps)
  finally show ?thesis by simp
qed

lemma of_goroutine_step:
  assumes "b @ new = h @ b'" and "of_goroutine i taken = concat (of_goroutine i calls) @ b"
  shows "of_goroutine i (taken @ map (Pair i) new) = concat (of_goroutine i (calls @ (if h = [] then [] else [(i, h)]))) @ b'"
  using assms by (auto simp: of_goroutine_def filter_map o_def)

lemma of_goroutine_other:
  assumes "j \<noteq> i"
  shows "of_goroutine j (taken @ map (Pair i) new) = of_goroutine j taken"
    and "of_goroutine j (calls @ (if h = [] then [] else [(i, h)])) = of_goroutine j calls"
  using assms by (auto simp: of_goroutine_def filter_map o_def)

lemma writing_inv_goroutine:
  assumes "goroutine_step w s s'" and "0 < aw_batchSize w" and "writing_inv w cap n s"
  shows "writing_inv w cap n s'"
  using assms(1)
proof (cases rule: goroutine_step.cases)
  case (1 i r k q d)
  let ?k = "ws_workers s ! i" and ?q = "ws_queue s"
  note inv = assms(3) [unfolded writing_inv_def]
  have mem: "?k \<in> set (ws_workers s)" using 1(2) by simp
  with inv have old: "batch_ok (aw_batchSize w) ?k" "stopping ?k \<Longrightarrow> ws_cancelled s"
    "leaving ?k \<Longrightarrow> length (buffered ?q) \<le> length (ws_late s)"
    unfolding goroutine_ok_def by blast+
  note step = worker_step_effect [OF 1(3) assms(2) old(1)]
  have upd: "mset (concat (map batch_of ((ws_workers s)[i := k]))) + mset (batch_of ?k) =
      mset (concat (map batch_of (ws_workers s))) + mset (batch_of k)"
    using mset_concat_update [OF 1(2)] .
  have "mset (batch_of ?k) + mset (newly_taken ?q q) = mset (handed ?k k) + mset (batch_of k)"
    using step by (metis mset_append)
  from mset_balance [OF upd this] inv have "mset (map snd (ws_taken s) @ newly_taken ?q q) =
      mset (ws_written s @ handed ?k k) + mset (concat (map batch_of ((ws_workers s)[i := k])))"
    unfolding mset_append by blast
  moreover have "length (buffered q) \<le> length (buffered ?q)" using step by (metis length_append le_add2)
  moreover have "ws_early s @ ws_late s = (map snd (ws_taken s) @ newly_taken ?q q) @ buffered q"
    using step inv by simp
  moreover have "of_goroutine j (ws_taken s @ map (Pair i) (newly_taken ?q q)) =
      concat (of_goroutine j (ws_calls s @ (if handed ?k k = [] then [] else [(i, handed ?k k)]))) @
      batch_of ((ws_workers s)[i := k] ! j)" if j: "j < length (ws_workers s)" for j
  proof -
    have "batch_of ?k @ newly_taken ?q q = handed ?k k @ batch_of k" using step by blast
    moreover have "of_goroutine j (ws_taken s) = concat (of_goroutine j (ws_calls s)) @ batch_of (ws_workers s ! j)"
      using inv j by blast
    ultimately show ?thesis
      using 1(2) of_goroutine_step [of "batch_of ?k" _ "handed ?k k" "batch_of k" i]
      by (cases "j = i") (simp_all add: of_goroutine_other split del: if_split)
  qed
  moreover have "goroutine_ok w (ws_cancelled s) (length (buffered q)) (length (ws_late s)) x"
    if x: "x \<in> set ((ws_workers s)[i := k])" for x
  proof (cases "x = k")
    case True
    have "leaving k \<Longrightarrow> length (buffered q) \<le> length (ws_late s)"
      using step calculation(2) old by (cases "leaving ?k") auto
    with step old leaving_stopping [of k] show ?thesis unfolding goroutine_ok_def True by blast
  next
    case False
    then have "x \<in> set (ws_workers s)" using x set_update_subset_insert by fastforce
    with inv calculation(2) show ?thesis unfolding goroutine_ok_def by (meson le_trans)
  qed
  moreover have "ws_written s' = ws_written s @ handed ?k k" unfolding 1(1) ws_written_def by simp
  ultimately show ?thesis
    using inv step unfolding writing_inv_def 1(1) by (simp add: o_def)
qed

lemma Async_Create_accepts:
  assumes "Async_Create pick ctx_Err item q = Some (None, q')"
  shows "ValidateShortCode (sl_Code item) = None \<and> chan_send item q = Some q'"
  using assms by (auto simp: Async_Create_def split: option.splits if_splits)

lemma chan_send_effect:
  "chan_send item q = Some q' \<Longrightarrow> buffered q' = buffered q @ [item] \<and> capacity q' = capacity q \<and>
     length (buffered q') \<le> capacity q"
  by (auto simp: chan_send_def split: if_splits)

lemma writing_inv_step:
  assumes "writer_step w s s'" and "0 < aw_batchSize w" and "writing_inv w cap n s"
  shows "writing_inv w cap n s'"
  using assms(1)
proof (cases rule: writer_step.cases)
  case (create pick ctx_Err item q)
  note acc = Async_Create_accepts [OF create(2)]
  note sent = chan_send_effect [OF conjunct2 [OF acc]]
  from acc sent assms(3) show ?thesis
    unfolding create(1) writing_inv_def accept_def goroutine_ok_def ws_written_def by (cases "ws_cancelled s") (auto simp: leaving_stopping)
next
  case cancel
  with assms(3) show ?thesis by (simp add: writing_inv_def goroutine_ok_def ws_written_def)
next
  case goroutine
  with assms show ?thesis using writing_inv_goroutine by blast
qed

abbreviation writer_of :: "'d AsyncWriterOptions \<Rightarrow> 'd AsyncShortLinkWriter" where
  "writer_of options \<equiv> fst (NewAsyncShortLinkWriter options)"

lemma writer_of_batchSize: "0 < aw_batchSize (writer_of options)"
  by (simp add: NewAsyncShortLinkWriter_def Let_def defaultWriteBatchSize_def)

definition positive_or :: "int \<Rightarrow> int \<Rightarrow> nat" where
  "positive_or standard n = nat (if n \<le> 0 then standard else n)"

lemma writing_inv_start:
  "writing_inv (writer_of options) (positive_or 8192 (ao_QueueSize options)) (positive_or 4 (ao_Workers options))
     (writing_start options d)"
  by (simp add: writing_inv_def writing_start_def ws_written_def of_goroutine_def NewAsyncShortLinkWriter_def Let_def positive_or_def
      defaultWriteQueueSize_def defaultWriteWorkers_def defaultWriteBatchSize_def batch_ok_def goroutine_ok_def)

lemma writing_inv_run:
  assumes "(writer_step (writer_of options))\<^sup>*\<^sup>* (writing_start options d) s"
  shows "writing_inv (writer_of options) (positive_or 8192 (ao_QueueSize options)) (positive_or 4 (ao_Workers options)) s"
  using assms
  by (induction rule: rtranclp_induct) (auto intro: writing_inv_start writing_inv_step [OF _ writer_of_batchSize])

section \<open>Shutting down\<close>







lemma Wait_returns_stays:
  assumes "writer_step w s s'" and "Wait_returns s"
  shows "Wait_returns s' \<and> ws_db s' = ws_db s \<and> ws_written s' = ws_written s \<and>
    (\<exists>late. buffered (ws_queue s') = buffered (ws_queue s) @ late)"
  using assms(1)
proof (cases rule: writer_step.cases)
  case (create pick ctx_Err item q)
  from chan_send_effect [OF conjunct2 [OF Async_Create_accepts [OF create(2)]]] assms(2) show ?thesis
    unfolding create(1) by (simp add: accept_def Wait_returns_def ws_written_def)
next
  case cancel
  with assms(2) show ?thesis by (simp add: Wait_returns_def ws_written_def)
next
  case goroutine
  from goroutine(1) show ?thesis
  proof (cases rule: goroutine_step.cases)
    case (1 i r k q d)
    with assms(2) have "ws_workers s ! i = Exited" by (simp add: Wait_returns_def)
    with 1(3) show ?thesis by simp
  qed
qed

section \<open>The calls of the repository\<close>

text \<open>
  The state after calls with these items, in this order: one \<open>CreateBatch\<close> for each list, or one
  \<open>Create\<close> for each link of it when there is no batch writer.
\<close>

primrec write_calls :: "'d ShortLinkRepository \<Rightarrow> 'd batch_creator option \<Rightarrow> ShortLink list list \<Rightarrow> 'd \<Rightarrow> 'd" where
  "write_calls repo batch [] d = d"
| "write_calls repo batch (items # calls) d = write_calls repo batch calls
     (case batch of
        Some createBatch \<Rightarrow> snd (createBatch items d)
      | None \<Rightarrow> fold (\<lambda>item d. snd (re_Create repo item d)) items d)"

lemma write_calls_append:
  "write_calls repo batch (calls @ calls') d = write_calls repo batch calls' (write_calls repo batch calls d)"
  by (induction calls arbitrary: d) simp_all

lemma written_by_calls:
  "written_by w items d d' \<Longrightarrow> write_calls (aw_repo w) (aw_batchWriter w) [items] d = d'"
  by (auto simp: written_by_def split: option.splits)

lemma writing_calls:
  assumes "(writer_step w)\<^sup>*\<^sup>* s0 s" and "ws_calls s0 = []"
  shows "ws_db s = write_calls (aw_repo w) (aw_batchWriter w) (map snd (ws_calls s)) (ws_db s0)"
  using assms(1)
proof (induction rule: rtranclp_induct)
  case base
  with assms(2) show ?case by simp
next
  case (step s1 s2)
  from step(2) show ?case
  proof (cases rule: writer_step.cases)
    case goroutine
    from goroutine(1) show ?thesis
    proof (cases rule: goroutine_step.cases)
      case (1 i r k q d)
      let ?h = "handed (ws_workers s1 ! i) k"
      have "d = (if ?h = [] then ws_db s1 else write_calls (aw_repo w) (aw_batchWriter w) [?h] (ws_db s1))"
        using worker_step_db [OF 1(3)] written_by_calls [of w ?h "ws_db s1" d] by (auto simp del: write_calls.simps)
      with step(3) show ?thesis unfolding 1(1) by (simp add: write_calls_append)
    qed
  qed (use step(3) in \<open>auto simp: accept_def\<close>)
qed

lemma writer_of_calls:
  assumes "(writer_step (writer_of options))\<^sup>*\<^sup>* (writing_start options d) s"
  shows "ws_db s = write_calls (ao_Repository options) (resolveBatchWriter options) (map snd (ws_calls s)) d"
proof -
  have "ws_calls (writing_start options d) = []" "ws_db (writing_start options d) = d"
    "aw_repo (writer_of options) = ao_Repository options" "aw_batchWriter (writer_of options) = resolveBatchWriter options"
    by (simp_all add: writing_start_def NewAsyncShortLinkWriter_def Let_def)
  with writing_calls [OF assms] show ?thesis by simp
qed

section \<open>What reaches the repository\<close>

text \<open>A repository behind the writer: a creation adds at most the rows of its links.\<close>

locale link_sink =
  fixes repo :: "'d ShortLinkRepository"
    and batch :: "'d batch_creator option"
    and ok :: "'d \<Rightarrow> bool"
    and rows :: "'d \<Rightarrow> 'r set"
    and form :: "ShortLink \<Rightarrow> 'r"
  assumes create_rows: "ok d \<Longrightarrow> re_Create repo it d = (e, d') \<Longrightarrow>
      ok d' \<and> rows d \<subseteq> rows d' \<and> rows d' \<subseteq> insert (form it) (rows d)"
    and batch_rows: "batch = Some f \<Longrightarrow> ok d \<Longrightarrow> f its d = (e, d') \<Longrightarrow>
      ok d' \<and> rows d \<subseteq> rows d' \<and> rows d' \<subseteq> form ` set its \<union> rows d"
begin

lemma items_rows:
  "ok d \<Longrightarrow> (let d' = fold (\<lambda>item d. snd (re_Create repo item d)) items d
    in ok d' \<and> rows d \<subseteq> rows d' \<and> rows d' \<subseteq> form ` set items \<union> rows d)"
proof (induction items arbitrary: d)
  case (Cons item items)
  obtain e d1 where "re_Create repo item d = (e, d1)" by fastforce
  with create_rows [OF Cons.prems this] Cons.IH [of d1] show ?case by (auto simp: Let_def)
qed simp

lemma call_rows:
  "ok d \<Longrightarrow> d' = write_calls repo batch calls d \<Longrightarrow>
   ok d' \<and> rows d \<subseteq> rows d' \<and> rows d' \<subseteq> form ` set (concat calls) \<union> rows d"
proof (induction calls arbitrary: d)
  case (Cons items calls)
  let ?d1 = "write_calls repo batch [items] d"
  have one: "ok ?d1 \<and> rows d \<subseteq> rows ?d1 \<and> rows ?d1 \<subseteq> form ` set items \<union> rows d"
  proof (cases batch)
    case None
    with items_rows [OF Cons.prems(1), of items] show ?thesis by (simp add: Let_def)
  next
    case (Some f)
    obtain e d2 where "f items d = (e, d2)" by fastforce
    with batch_rows [OF Some Cons.prems(1) this] Some show ?thesis by simp
  qed
  moreover have "d' = write_calls repo batch calls ?d1" using Cons.prems(2) by simp
  ultimately show ?case using Cons.IH [of ?d1] by (auto simp: image_Un)
qed simp

lemma run_rows:
  assumes "(writer_step w)\<^sup>*\<^sup>* s0 s" and "aw_repo w = repo" and "aw_batchWriter w = batch" and "ok (ws_db s0)"
    and "ws_calls s0 = []"
  shows "ok (ws_db s) \<and> rows (ws_db s0) \<subseteq> rows (ws_db s) \<and>
    rows (ws_db s) \<subseteq> form ` set (ws_written s) \<union> rows (ws_db s0)"
  using call_rows [OF assms(4) writing_calls [OF assms(1,5), unfolded assms(2,3)]] unfolding ws_written_def .

end

text \<open>The repository of links over MySQL is such a repository; \<open>order\<close> is the order of its shards.\<close>

definition db_repository :: "'d link_db \<Rightarrow> 'd ShortLinkRepository" where
  "db_repository D = \<lparr>re_Create = Create D, re_FindByCode = FindByCode D, re_FindActiveByCode = FindActiveByCode D\<rparr>"

definition db_rows :: "('d \<Rightarrow> string \<Rightarrow> ShortLinkRecord set) \<Rightarrow> 'd \<Rightarrow> (string \<times> ShortLinkRecord) set" where
  "db_rows tb d = {(t, r). r \<in> tb d t}"

definition row_of :: "(ShortLinkRecord \<Rightarrow> ShortLinkRecord) \<Rightarrow> ShortLink \<Rightarrow> string \<times> ShortLinkRecord" where
  "row_of nf it = (shard_tables ! item_shard it, nf (shortLinkToRecord it))"

lemma db_link_sink:
  assumes laws: "db_laws nf tb ok D" and order: "set order = {..<16}"
  shows "link_sink (db_repository D) (Some (CreateBatch D order)) ok (db_rows tb) (row_of nf)"
proof (unfold_locales, goal_cases)
  case (1 d it e d')
  show ?case
  proof (cases "valid_item it")
    case True
    with 1(2) have "db_insert D (shard_tables ! item_shard it) (shortLinkToRecord it) d = (e, d')"
      by (simp add: db_repository_def Create_valid)
    then show ?thesis
      by (rule insert_done [OF laws 1(1)]) (auto simp: db_rows_def row_of_def split: if_splits)
  next
    case False
    with 1 have "d' = d" by (simp add: db_repository_def Create_invalid)
    with 1(1) show ?thesis by blast
  qed
next
  case (2 f d its e d')
  then have "CreateBatch D order its d = (e, d')" by simp
  note made = CreateBatch_result [OF laws 2(2) order this]
  show ?case
  proof (cases "\<forall>item \<in> set its. ValidateShortCode (sl_Code item) = None")
    case True
    with made have "tb d t \<subseteq> tb d' t"
      "tb d' t \<subseteq> tb d t \<union> {nf (shortLinkToRecord item) | item. item \<in> set its \<and> shard_tables ! item_shard item = t}" for t
      by simp_all
    with made show ?thesis unfolding db_rows_def row_of_def by blast
  next
    case False
    with made have "d' = d" by (simp only: if_False simp_thms)
    with 2(2) show ?thesis by blast
  qed
qed

interpretation text_sink: link_sink "db_repository text_db" "Some (CreateBatch text_db [0..<16])"
    "mem_ok (=)" "db_rows mem_tb" "row_of (\<lambda>r. r)"
  by (rule db_link_sink [OF text_db_laws]) (simp add: atLeast_upt)

section \<open>Properties\<close>

text \<open>
  C29 (invariant). The writer loses, repeats and invents nothing. In every run the goroutines take the
  accepted links from the queue in the order of acceptance; what each goroutine has taken, in that
  order, is what the calls it made of the repository were given, one after the other, and then its
  batch; and the repository is in the state after exactly these calls (\<open>CreateBatch\<close> with the items
  of a call, or \<open>Create\<close> of each). Hence each accepted link has been handed over once, or is in one
  batch, or is still queued. The queue and the batches stay within their configured sizes, and every
  link has a valid code, so that no batch is refused for one.
\<close>

theorem async_writer_conserves:
  assumes "(writer_step (fst (NewAsyncShortLinkWriter options)))\<^sup>*\<^sup>* (writing_start options d) s"
  shows "ws_early s @ ws_late s = map snd (ws_taken s) @ buffered (ws_queue s) \<and>
    (\<forall>i < length (ws_workers s).
      of_goroutine i (ws_taken s) = concat (of_goroutine i (ws_calls s)) @ batch_of (ws_workers s ! i)) \<and>
    ws_db s = write_calls (ao_Repository options) (resolveBatchWriter options) (map snd (ws_calls s)) d \<and>
    mset (ws_early s @ ws_late s) =
      mset (ws_written s) + mset (concat (map batch_of (ws_workers s))) + mset (buffered (ws_queue s)) \<and>
    length (buffered (ws_queue s)) \<le> positive_or 8192 (ao_QueueSize options) \<and>
    length (ws_workers s) = positive_or 4 (ao_Workers options) \<and>
    list_all (\<lambda>k. length (batch_of k) \<le> positive_or 256 (ao_BatchSize options)) (ws_workers s) \<and>
    list_all (\<lambda>item. ValidateShortCode (sl_Code item) = None) (ws_early s @ ws_late s)"
proof -
  note inv = writing_inv_run [OF assms, unfolded writing_inv_def]
  have size: "aw_batchSize (writer_of options) = positive_or 256 (ao_BatchSize options)"
    by (simp add: NewAsyncShortLinkWriter_def Let_def positive_or_def defaultWriteBatchSize_def)
  have "list_all (\<lambda>k. length (batch_of k) \<le> positive_or 256 (ao_BatchSize options)) (ws_workers s)"
    using inv batch_ok_length unfolding goroutine_ok_def size list_all_iff by blast
  moreover have order: "ws_early s @ ws_late s = map snd (ws_taken s) @ buffered (ws_queue s)" using inv by blast
  moreover have "mset (ws_early s @ ws_late s) =
      mset (ws_written s) + mset (concat (map batch_of (ws_workers s))) + mset (buffered (ws_queue s))"
    unfolding order using inv by simp
  moreover have "list_all (\<lambda>item. ValidateShortCode (sl_Code item) = None) (ws_early s @ ws_late s)"
    using inv unfolding list_all_iff set_append by blast
  ultimately show ?thesis using inv writer_of_calls [OF assms] by blast
qed


text \<open>
  C31 (safety). After the last goroutine has returned, \<open>Create\<close> still accepts links while the queue has
  room, but none of them ever reaches the repository: no later step writes anything.
\<close>

theorem async_writer_strands:
  assumes "(writer_step w)\<^sup>*\<^sup>* s s'" and "Wait_returns s"
  shows "ws_db s' = ws_db s \<and> ws_written s' = ws_written s \<and>
    (ValidateShortCode (sl_Code item) = None \<and> length (buffered (ws_queue s')) < capacity (ws_queue s') \<longrightarrow>
      (\<exists>q. Async_Create pick None item (ws_queue s') = Some (None, q) \<and> item \<in> set (buffered q)))"
proof -
  from assms(1) have "Wait_returns s' \<and> ws_db s' = ws_db s \<and> ws_written s' = ws_written s"
    by (induction rule: rtranclp_induct) (use assms(2) Wait_returns_stays in fastforce)+
  then show ?thesis by (simp add: Async_Create_def chan_send_def)
qed

text \<open>
  Over the MySQL repository the writer only ever adds rows of accepted links, each to the
  table of its code, and removes none.
\<close>

theorem async_writer_stores:
  assumes "db_laws nf tb ok D" and "set order = {..<16}" and "ok d"
    and "ao_Repository options = db_repository D" and "resolveBatchWriter options = Some (CreateBatch D order)"
    and "(writer_step (fst (NewAsyncShortLinkWriter options)))\<^sup>*\<^sup>* (writing_start options d) s"
  shows "tb d t \<subseteq> tb (ws_db s) t \<and>
    tb (ws_db s) t \<subseteq> tb d t \<union> {nf (shortLinkToRecord item) | item.
      item \<in> set (ws_early s @ ws_late s) \<and> shard_tables ! item_shard item = t}"
proof -
  have parts: "aw_repo (writer_of options) = db_repository D"
      "aw_batchWriter (writer_of options) = Some (CreateBatch D order)" "ws_db (writing_start options d) = d"
      "ws_calls (writing_start options d) = []"
    using assms(4,5) by (simp_all add: NewAsyncShortLinkWriter_def writing_start_def Let_def)
  with assms(3) have "ok (ws_db (writing_start options d))" by simp
  note rows = link_sink.run_rows [OF db_link_sink [OF assms(1,2)] assms(6) parts(1,2) this parts(4), unfolded parts(3)]
  note inv = writing_inv_run [OF assms(6), unfolded writing_inv_def]
  have "mset (ws_written s) \<subseteq># mset (map snd (ws_taken s))" using inv by (metis mset_subset_eq_add_left)
  then have "set (ws_written s) \<subseteq> set (ws_early s @ ws_late s)"
    using inv by (metis set_mset_mono set_mset_mset set_append Un_upper1 order.trans)
  with rows show ?thesis unfolding db_rows_def row_of_def by fastforce
qed

text \<open>One goroutine and one link: it is accepted, taken and written, and the goroutine told to stop.\<close>

definition sample_writer :: "mem_db AsyncWriterOptions" where
  "sample_writer = \<lparr>ao_Repository = db_repository text_db, ao_AsBatch = Some (CreateBatch text_db [0..<16]),
     ao_BatchWriter = None, ao_QueueSize = 1, ao_BatchSize = 1, ao_Workers = 1, ao_FlushInterval = 0\<rparr>"

definition sample_batched :: mem_db where
  "sample_batched = snd (CreateBatch text_db [0..<16] [link_with_id 7] empty_db)"

definition sample_writing :: "worker \<Rightarrow> mem_db \<Rightarrow> (nat \<times> ShortLink list) list \<Rightarrow> mem_db writing" where
  "sample_writing k d calls = \<lparr>ws_queue = \<lparr>buffered = [], capacity = 1\<rparr>, ws_workers = [k], ws_db = d,
     ws_cancelled = True, ws_early = [link_with_id 7], ws_late = [], ws_taken = [(0, link_with_id 7)], ws_calls = calls\<rparr>"

lemma sample_writer_sel:
  "aw_batchSize (writer_of sample_writer) = 1"
  "aw_batchWriter (writer_of sample_writer) = Some (CreateBatch text_db [0..<16])"
  "resolveBatchWriter sample_writer = Some (CreateBatch text_db [0..<16])"
  by (simp_all add: NewAsyncShortLinkWriter_def sample_writer_def resolveBatchWriter_def Let_def)

lemma sample_writing_step:
  assumes "(writer_step w)\<^sup>*\<^sup>* s0 (sample_writing k d calls)"
    and "worker_step w True r (k, \<lparr>buffered = [], capacity = 1\<rparr>, d) = Some (k', \<lparr>buffered = [], capacity = 1\<rparr>, d')"
  shows "(writer_step w)\<^sup>*\<^sup>* s0 (sample_writing k' d' (calls @ (if handed k k' = [] then [] else [(0, handed k k')])))"
proof -
  have "goroutine_step w (sample_writing k d calls) (sample_writing k' d' (calls @ (if handed k k' = [] then [] else [(0, handed k k')])))"
    using goroutine_step.intros [of 0 "sample_writing k d calls" w r k' "\<lparr>buffered = [], capacity = 1\<rparr>" d'] assms(2)
    by (cases "handed k k' = []") (simp_all add: sample_writing_def)
  with assms(1) show ?thesis by (meson rtranclp.rtrancl_into_rtrancl writer_step.goroutine)
qed

lemma sample_writing_run:
  "(writer_step (writer_of sample_writer))\<^sup>*\<^sup>* (writing_start sample_writer empty_db)
     (sample_writing Exited sample_batched [(0, [link_with_id 7])])"
proof -
  let ?w = "writer_of sample_writer" and ?s0 = "writing_start sample_writer empty_db" and ?it = "link_with_id 7"
  have s0: "?s0 = \<lparr>ws_queue = \<lparr>buffered = [], capacity = 1\<rparr>, ws_workers = [Popping []], ws_db = empty_db,
      ws_cancelled = False, ws_early = [], ws_late = [], ws_taken = [], ws_calls = []\<rparr>"
    by (simp add: writing_start_def NewAsyncShortLinkWriter_def sample_writer_def chan_make_def Let_def)
  have "Async_Create True None ?it (ws_queue ?s0) = Some (None, \<lparr>buffered = [?it], capacity = 1\<rparr>)"
    by (simp add: s0 Async_Create_def chan_send_def link_with_id_def)
  from writer_step.create [OF this, of ?w]
  have accepted: "(writer_step ?w)\<^sup>*\<^sup>* ?s0 (?s0\<lparr>ws_queue := \<lparr>buffered = [?it], capacity = 1\<rparr>, ws_early := [?it]\<rparr>)"
    by (simp add: s0 accept_def)
  let ?s2 = "?s0\<lparr>ws_queue := \<lparr>buffered = [?it], capacity = 1\<rparr>, ws_early := [?it], ws_cancelled := True\<rparr>"
  from rtranclp.rtrancl_into_rtrancl [OF accepted writer_step.cancel]
  have cancelled: "(writer_step ?w)\<^sup>*\<^sup>* ?s0 ?s2" by (simp add: s0)
  have "goroutine_step ?w ?s2 (sample_writing (Flushing [?it] To_run) empty_db [])"
    using goroutine_step.intros [of 0 ?s2 ?w Receive "Flushing [?it] To_run" "\<lparr>buffered = [], capacity = 1\<rparr>" empty_db]
    by (simp add: s0 sample_writing_def chan_recv_def newly_taken_def sample_writer_sel)
  with cancelled have "(writer_step ?w)\<^sup>*\<^sup>* ?s0 (sample_writing (Flushing [?it] To_run) empty_db [])"
    by (meson rtranclp.rtrancl_into_rtrancl writer_step.goroutine)
  from sample_writing_step [OF this, of Go_on "Flushing [] To_run" sample_batched]
  have "(writer_step ?w)\<^sup>*\<^sup>* ?s0 (sample_writing (Flushing [] To_run) sample_batched [(0, [?it])])"
    by (simp add: flush_one_def sample_writer_sel sample_batched_def handed_def)
  from sample_writing_step [OF this, of Go_on "Popping []" sample_batched]
  have "(writer_step ?w)\<^sup>*\<^sup>* ?s0 (sample_writing (Popping []) sample_batched [(0, [?it])])" by (simp add: resume_def)
  from sample_writing_step [OF this, of Ctx_Done "Flushing [] To_drain" sample_batched]
  have "(writer_step ?w)\<^sup>*\<^sup>* ?s0 (sample_writing (Flushing [] To_drain) sample_batched [(0, [?it])])" by simp
  from sample_writing_step [OF this, of Go_on "Draining []" sample_batched]
  have "(writer_step ?w)\<^sup>*\<^sup>* ?s0 (sample_writing (Draining []) sample_batched [(0, [?it])])" by (simp add: resume_def)
  from sample_writing_step [OF this, of Go_on "Flushing [] To_return" sample_batched]
  have "(writer_step ?w)\<^sup>*\<^sup>* ?s0 (sample_writing (Flushing [] To_return) sample_batched [(0, [?it])])"
    by (simp add: chan_recv_def)
  from sample_writing_step [OF this, of Go_on Exited sample_batched] show ?thesis by (simp add: resume_def)
qed

lemma async_writer_conserves_witness:
  "ws_written (sample_writing Exited sample_batched [(0, [link_with_id 7])]) = [link_with_id 7] \<and>
   sample_batched = write_calls (ao_Repository sample_writer) (resolveBatchWriter sample_writer) [[link_with_id 7]] empty_db"
  using async_writer_conserves [OF sample_writing_run] by (simp add: sample_writing_def ws_written_def)


lemma async_writer_strands_witness:
  "\<exists>q. Async_Create True None (link_with_id 23)
      (ws_queue (sample_writing Exited sample_batched [(0, [link_with_id 7])])) = Some (None, q) \<and> link_with_id 23 \<in> set (buffered q)"
proof -
  have "Wait_returns (sample_writing Exited sample_batched [(0, [link_with_id 7])])"
    by (simp add: sample_writing_def Wait_returns_def)
  from async_writer_strands [where w = "writer_of sample_writer" and item = "link_with_id 23" and pick = True, OF rtranclp.rtrancl_refl this]
  show ?thesis by (simp add: sample_writing_def link_with_id_def)
qed

lemma async_writer_stores_witness:
  "mem_tb sample_batched (shard_tables ! 7) \<subseteq>
     mem_tb empty_db (shard_tables ! 7) \<union> {shortLinkToRecord item | item. item = link_with_id 7}"
proof -
  have "set [0..<16] = {..<16 :: nat}" by (simp add: atLeast_upt)
  moreover have "ao_Repository sample_writer = db_repository text_db" by (simp add: sample_writer_def)
  ultimately have "mem_tb (ws_db (sample_writing Exited sample_batched [(0, [link_with_id 7])])) t \<subseteq> mem_tb empty_db t \<union>
      {shortLinkToRecord item | item. item \<in> set (ws_early (sample_writing Exited sample_batched [(0, [link_with_id 7])]) @
         ws_late (sample_writing Exited sample_batched [(0, [link_with_id 7])])) \<and> shard_tables ! item_shard item = t}" for t
    using async_writer_stores [OF text_db_laws _ empty_db_ok _ sample_writer_sel(3) sample_writing_run] by blast
  from this [of "shard_tables ! 7"] show ?thesis by (auto simp: sample_writing_def)
qed

end
