(* ===== verification/Etcd.thy ===== *)
theory Etcd
  imports Domain "HOL-Library.AList" "HOL-Library.Char_ord" "HOL-Library.List_Lexorder"
begin

text \<open>
  \<open>internal/infrastructure/etcd\<close>: the registry of service instances (registry.go) and the gRPC
  resolver that follows it (resolver.go).
  \<^item> The client of etcd and the connection of gRPC are parameters. What is relied on: a read
    returns the pairs of a prefix at one revision, and a watch delivers the changes of the prefix
    from a revision on in their order.
  \<^item> The resolver's goroutines (one watcher, any number of calls of \<open>ResolveNow\<close>) are a step
    relation over the history of etcd. \<open>quote\<close> is the verb \<open>%q\<close>.
\<close>

section \<open>The registry (registry.go)\<close>

definition servicePrefix :: string where
  "servicePrefix = ''/flashlink/services''"

definition servicePath :: "string \<Rightarrow> string" where
  "servicePath serviceName = servicePrefix @ ''/'' @ serviceName @ ''/''"

definition serviceKey :: "string \<Rightarrow> string \<Rightarrow> string" where
  "serviceKey serviceName addr = servicePath serviceName @ map (\<lambda>c. if c = CHR ''/'' then CHR ''_'' else c) addr"

type_synonym kv = "string \<times> string"

record ('l, 'e) etcd_client =
  ec_Grant :: "int \<Rightarrow> 'e \<Rightarrow> (go_error + 'l) \<times> 'e"
  ec_Put :: "string \<Rightarrow> string \<Rightarrow> 'l \<Rightarrow> 'e \<Rightarrow> go_error option \<times> 'e"
  ec_KeepAlive :: "'l \<Rightarrow> 'e \<Rightarrow> go_error option \<times> 'e"
  ec_Revoke :: "'l \<Rightarrow> 'e \<Rightarrow> go_error option \<times> 'e"
  ec_Get :: "string \<Rightarrow> 'e \<Rightarrow> (go_error + kv list \<times> nat) \<times> 'e"

definition registry_Open :: "(string list \<Rightarrow> duration \<Rightarrow> 'e \<Rightarrow> (go_error + 'c) \<times> 'e) \<Rightarrow> string list \<Rightarrow> duration \<Rightarrow> 'e \<Rightarrow> (go_error + 'c) \<times> 'e" where
  "registry_Open clientv3_New endpoints dialTimeout e =
     (if endpoints = [] then (Inl (Errorf ''etcd endpoints are required''), e)
      else clientv3_New endpoints (if dialTimeout \<le> 0 then 3 * second else dialTimeout) e)"

text \<open>The result beside the error is the lease that the started goroutine keeps alive.\<close>

definition registry_Register ::
  "('l, 'e) etcd_client \<Rightarrow> string \<Rightarrow> string \<Rightarrow> int \<Rightarrow> 'e \<Rightarrow> (go_error + 'l) \<times> 'e" where
  "registry_Register client serviceName addr ttl e =
     (case ec_Grant client (if ttl \<le> 0 then 10 else ttl) e of
        (Inl err, e1) \<Rightarrow> (Inl err, e1)
      | (Inr lease, e1) \<Rightarrow>
     (case ec_Put client (serviceKey serviceName addr) addr lease e1 of
        (Some err, e2) \<Rightarrow> (Inl err, e2)
      | (None, e2) \<Rightarrow>
     (case ec_KeepAlive client lease e2 of
        (Some err, e3) \<Rightarrow> (Inl err, e3)
      | (None, e3) \<Rightarrow> (Inr lease, e3))))"

text \<open>The goroutine, by what its \<open>select\<close> sees in turn; true: it has returned.\<close>

datatype keep_case = Keep_reply | Keep_closed | Keep_done

fun keep_registered :: "('l, 'e) etcd_client \<Rightarrow> 'l \<Rightarrow> keep_case list \<Rightarrow> 'e \<Rightarrow> bool \<times> 'e" where
  "keep_registered client lease [] e = (False, e)"
| "keep_registered client lease (Keep_reply # cs) e = keep_registered client lease cs e"
| "keep_registered client lease (Keep_closed # cs) e = (True, e)"
| "keep_registered client lease (Keep_done # cs) e = (True, snd (ec_Revoke client lease e))"

text \<open>
  Whatever it sees, it never registers again: after etcd has closed the channel, because the lease has run
  out, the service stays out of etcd although it serves on.
\<close>

lemma keep_registered_only_revokes:
  "keep_registered client lease (replicate n Keep_reply @ Keep_closed # cs) e = (True, e)"
  "snd (keep_registered client lease cs e) \<in> {e, snd (ec_Revoke client lease e)}"
  subgoal by (induction n) auto
  subgoal by (induction client lease cs e rule: keep_registered.induct) auto
  done

text \<open>The loops that keep the first occurrence of every string.\<close>

fun unique_loop :: "string list \<Rightarrow> string set \<Rightarrow> string list \<Rightarrow> string list" where
  "unique_loop [] seen addrs = addrs"
| "unique_loop (addr # rest) seen addrs =
     (if addr \<in> seen then unique_loop rest seen addrs else unique_loop rest (insert addr seen) (addrs @ [addr]))"

definition listed :: "kv list \<Rightarrow> string list" where
  "listed kvs = sort (unique_loop (filter (\<lambda>a. a \<noteq> []) (map (\<lambda>kv. TrimSpace (snd kv)) kvs)) {} [])"

definition registry_List :: "('l, 'e) etcd_client \<Rightarrow> string \<Rightarrow> 'e \<Rightarrow> (go_error + string list) \<times> 'e" where
  "registry_List client serviceName e =
     (case ec_Get client (servicePath serviceName) e of
        (Inl err, e1) \<Rightarrow> (Inl err, e1)
      | (Inr (kvs, revision), e1) \<Rightarrow> (Inr (listed kvs), e1))"

definition registry_Discover ::
  "(string \<Rightarrow> string) \<Rightarrow> ('l, 'e) etcd_client \<Rightarrow> string \<Rightarrow> 'e \<Rightarrow> (go_error + string) \<times> 'e" where
  "registry_Discover quote client serviceName e =
     (case registry_List client serviceName e of
        (Inl err, e1) \<Rightarrow> (Inl err, e1)
      | (Inr [], e1) \<Rightarrow> (Inl (Errorf (''service '' @ quote serviceName @ '' not found in etcd'')), e1)
      | (Inr (addr # _), e1) \<Rightarrow> (Inr addr, e1))"

section \<open>The resolver (resolver.go)\<close>

definition ResolverScheme :: string where
  "ResolverScheme = ''etcd''"

definition ResolverTarget :: "string \<Rightarrow> string" where
  "ResolverTarget serviceName = ResolverScheme @ '':///'' @ TrimByte CHR ''/'' serviceName"

text \<open>What a read makes of the instances, and what a response of the watch does to them.\<close>

fun resolve_instances :: "kv list \<Rightarrow> (string \<rightharpoonup> string) \<Rightarrow> (string \<rightharpoonup> string)" where
  "resolve_instances [] next = next"
| "resolve_instances ((k, v) # kvs) next =
     (let addr = TrimSpace v in resolve_instances kvs (if addr \<noteq> [] then next(k \<mapsto> addr) else next))"

datatype etcd_event = Ev_put string string | Ev_delete string

fun watch_events :: "etcd_event list \<Rightarrow> (string \<rightharpoonup> string) \<Rightarrow> bool \<Rightarrow> (string \<rightharpoonup> string) \<times> bool" where
  "watch_events [] inst changed = (inst, changed)"
| "watch_events (Ev_put k v # es) inst changed =
     (let addr = TrimSpace v in watch_events es (if addr = [] then inst(k := None) else inst(k \<mapsto> addr)) True)"
| "watch_events (Ev_delete k # es) inst changed = watch_events es (inst(k := None)) True"

text \<open>\<open>keys\<close>: the order in which \<open>range\<close> visits the map.\<close>

definition addresses :: "string list \<Rightarrow> (string \<rightharpoonup> string) \<Rightarrow> string list" where
  "addresses keys inst = sort (unique_loop (map (\<lambda>k. the (inst k)) keys) {} [])"

text \<open>
  \<open>updateState\<close> once the addresses are known; \<open>update_err\<close> is what \<open>UpdateState\<close> of gRPC returns.
  The results are the errors reported and the addresses handed over.
\<close>

definition updateState :: "(string \<Rightarrow> string) \<Rightarrow> string \<Rightarrow> go_error option \<Rightarrow> string list \<Rightarrow> go_error list \<times> string list" where
  "updateState quote serviceName update_err addrs =
     ((if addrs = [] then [Errorf (''service '' @ quote serviceName @ '' has no registered instances'')] else []) @
      (case update_err of None \<Rightarrow> [] | Some err \<Rightarrow> [err]), addrs)"

text \<open>
  A goroutine inside \<open>updateState\<close> has yet to read the addresses or holds them. A call of
  \<open>ResolveNow\<close> first has the pairs of a read, at the revision of the read.
\<close>

datatype updating = Upd_read | Upd_push "string list"
datatype resolve_task = Task_fetched "kv list" nat | Task_updating updating

record watchResolver =
  rv_serviceName :: string
  rv_prefix :: string
  rv_instances :: "string \<rightharpoonup> string"
  rv_revision :: nat
  rv_watch :: "updating option"
  rv_tasks :: "resolve_task list"
  rv_pushed :: "string list"
  rv_reports :: "go_error list"

text \<open>\<open>Build\<close>: the first \<open>resolveNow\<close> is part of it; \<open>endpoint\<close> is the target's.\<close>

definition resolver_Build ::
  "(string \<Rightarrow> string) \<Rightarrow> ('l, 'e) etcd_client option \<Rightarrow> string \<Rightarrow> string list \<Rightarrow> go_error option \<Rightarrow> 'e \<Rightarrow>
   (go_error + watchResolver) \<times> 'e" where
  "resolver_Build quote registry endpoint keys update_err e =
     (case registry of
        None \<Rightarrow> (Inl (Errorf ''etcd registry is required''), e)
      | Some client \<Rightarrow>
          (let serviceName = TrimSpace endpoint
           in if serviceName = [] then (Inl (Errorf ''etcd resolver target must include a service name''), e)
              else (case ec_Get client (servicePath serviceName) e of
                      (Inl err, e1) \<Rightarrow> (Inl err, e1)
                    | (Inr (kvs, revision), e1) \<Rightarrow>
                        (let inst = resolve_instances kvs Map.empty
                         in case updateState quote serviceName update_err (addresses keys inst) of
                              (reports, addrs) \<Rightarrow>
                                (Inr \<lparr>rv_serviceName = serviceName, rv_prefix = servicePath serviceName,
                                     rv_instances = inst, rv_revision = revision, rv_watch = None, rv_tasks = [],
                                     rv_pushed = addrs, rv_reports = reports\<rparr>, e1)))))"

text \<open>One response of the watch; a response with an error is only reported.\<close>

definition watch_response :: "go_error + etcd_event list \<Rightarrow> watchResolver \<Rightarrow> watchResolver" where
  "watch_response resp r =
     (case resp of
        Inl err \<Rightarrow> r\<lparr>rv_reports := rv_reports r @ [err]\<rparr>
      | Inr events \<Rightarrow>
          (case watch_events events (rv_instances r) False of
             (inst, changed) \<Rightarrow>
               r\<lparr>rv_instances := inst, rv_watch := (if changed then Some Upd_read else None)\<rparr>))"

text \<open>Handing the addresses over ends \<open>updateState\<close>.\<close>

definition push_addresses :: "(string \<Rightarrow> string) \<Rightarrow> go_error option \<Rightarrow> string list \<Rightarrow> watchResolver \<Rightarrow> watchResolver" where
  "push_addresses quote update_err addrs r =
     (case updateState quote (rv_serviceName r) update_err addrs of
        (reports, pushed) \<Rightarrow> r\<lparr>rv_pushed := pushed, rv_reports := rv_reports r @ reports\<rparr>)"

section \<open>The history of etcd\<close>

text \<open>
  The store after the changes \<open>h\<close>, whose revision is the length of \<open>h\<close>; a read of a prefix at that
  revision; the changes a watch of the prefix delivers.
\<close>

fun etcd_apply :: "etcd_event \<Rightarrow> (string \<rightharpoonup> string) \<Rightarrow> (string \<rightharpoonup> string)" where
  "etcd_apply (Ev_put k v) m = m(k \<mapsto> v)"
| "etcd_apply (Ev_delete k) m = m(k := None)"

definition etcd_store :: "etcd_event list \<Rightarrow> (string \<rightharpoonup> string)" where
  "etcd_store h = fold etcd_apply h Map.empty"

definition snapshot :: "string \<Rightarrow> etcd_event list \<Rightarrow> kv list \<Rightarrow> bool" where
  "snapshot pre h kvs \<longleftrightarrow> distinct (map fst kvs) \<and>
     (\<forall>k. map_of kvs k = (if starts_with pre k then etcd_store h k else None))"

fun event_key :: "etcd_event \<Rightarrow> string" where
  "event_key (Ev_put k v) = k"
| "event_key (Ev_delete k) = k"

definition in_prefix :: "string \<Rightarrow> etcd_event list \<Rightarrow> etcd_event list" where
  "in_prefix pre es = filter (\<lambda>e. starts_with pre (event_key e)) es"

text \<open>
  The steps of the system. In an \<open>ordered\<close> run a call of \<open>ResolveNow\<close> does not store pairs that are
  older than what the watch has delivered, and no goroutine hands over addresses that are no longer
  those of the instances; the code enforces neither.
  A watch that has ended, because the resolver was closed or etcd has cancelled it, is a run in which
  nothing more is delivered: the code does not start another.
\<close>

definition current :: "(string \<rightharpoonup> string) \<Rightarrow> string list \<Rightarrow> bool" where
  "current inst addrs \<longleftrightarrow> addrs = sorted_list_of_set (ran inst)"

inductive resolver_step ::
  "(string \<Rightarrow> string) \<Rightarrow> bool \<Rightarrow> etcd_event list \<times> watchResolver \<Rightarrow> etcd_event list \<times> watchResolver \<Rightarrow> bool"
  for quote ordered where
  change: "resolver_step quote ordered (h, r) (h @ [e], r)"
| deliver: "rv_watch r = None \<Longrightarrow> rv_revision r \<le> n \<Longrightarrow> n \<le> length h \<Longrightarrow>
    es = in_prefix (rv_prefix r) (take (n - rv_revision r) (drop (rv_revision r) h)) \<Longrightarrow>
    resolver_step quote ordered (h, r) (h, (watch_response (Inr es) r)\<lparr>rv_revision := n\<rparr>)"
| watch_failed: "rv_watch r = None \<Longrightarrow> resolver_step quote ordered (h, r) (h, watch_response (Inl err) r)"
| watch_read: "rv_watch r = Some Upd_read \<Longrightarrow> distinct keys \<Longrightarrow> set keys = dom (rv_instances r) \<Longrightarrow>
    resolver_step quote ordered (h, r) (h, r\<lparr>rv_watch := Some (Upd_push (addresses keys (rv_instances r)))\<rparr>)"
| watch_push: "rv_watch r = Some (Upd_push addrs) \<Longrightarrow> (ordered \<longrightarrow> current (rv_instances r) addrs) \<Longrightarrow>
    resolver_step quote ordered (h, r) (h, push_addresses quote update_err addrs (r\<lparr>rv_watch := None\<rparr>))"
| fetch: "snapshot (rv_prefix r) h kvs \<Longrightarrow>
    resolver_step quote ordered (h, r) (h, r\<lparr>rv_tasks := rv_tasks r @ [Task_fetched kvs (length h)]\<rparr>)"
| fetch_failed: "resolver_step quote ordered (h, r) (h, r\<lparr>rv_reports := rv_reports r @ [err]\<rparr>)"
| store: "rv_tasks r = ts @ Task_fetched kvs n # us \<Longrightarrow> (ordered \<longrightarrow> rv_revision r \<le> n) \<Longrightarrow>
    resolver_step quote ordered (h, r)
      (h, r\<lparr>rv_instances := resolve_instances kvs Map.empty, rv_tasks := ts @ Task_updating Upd_read # us\<rparr>)"
| task_read: "rv_tasks r = ts @ Task_updating Upd_read # us \<Longrightarrow> distinct keys \<Longrightarrow> set keys = dom (rv_instances r) \<Longrightarrow>
    resolver_step quote ordered (h, r)
      (h, r\<lparr>rv_tasks := ts @ Task_updating (Upd_push (addresses keys (rv_instances r))) # us\<rparr>)"
| task_push: "rv_tasks r = ts @ Task_updating (Upd_push addrs) # us \<Longrightarrow> (ordered \<longrightarrow> current (rv_instances r) addrs) \<Longrightarrow>
    resolver_step quote ordered (h, r) (h, push_addresses quote update_err addrs (r\<lparr>rv_tasks := ts @ us\<rparr>))"

section \<open>What the loops compute\<close>

lemma unique_loop_result:
  "distinct addrs \<Longrightarrow> seen = set addrs \<Longrightarrow>
   distinct (unique_loop xs seen addrs) \<and> set (unique_loop xs seen addrs) = set addrs \<union> set xs"
  by (induction xs seen addrs rule: unique_loop.induct) auto

lemma sort_unique_loop: "sort (unique_loop xs {} []) = sorted_list_of_set (set xs)"
proof -
  have "distinct (sort (unique_loop xs {} []))" "set (sort (unique_loop xs {} [])) = set xs"
    using unique_loop_result [of "[]" "{}" xs] by simp_all
  with sorted_list_of_set.idem_if_sorted_distinct [of "sort (unique_loop xs {} [])"] show ?thesis by simp
qed

lemma addresses_result: "set keys = dom inst \<Longrightarrow> addresses keys inst = sorted_list_of_set (ran inst)"
proof -
  assume keys: "set keys = dom inst"
  have "(\<lambda>k. the (inst k)) ` dom inst = ran inst" by (force simp: ran_def dom_def)
  with keys show ?thesis by (simp add: addresses_def sort_unique_loop)
qed

lemma resolve_instances_at:
  "distinct (map fst kvs) \<Longrightarrow> resolve_instances kvs m k =
     (case map_of kvs k of Some v \<Rightarrow> if TrimSpace v \<noteq> [] then Some (TrimSpace v) else m k | None \<Rightarrow> m k)"
proof (induction kvs arbitrary: m)
  case (Cons kv kvs)
  obtain k' v where kv: "kv = (k', v)" by fastforce
  have "map_of kvs k' = None" using Cons.prems kv by (simp add: map_of_eq_None_iff)
  with Cons kv show ?case by (auto simp: Let_def split: option.splits)
qed simp

lemma listed_result:
  assumes "distinct (map fst kvs)"
  shows "listed kvs = sorted_list_of_set (ran (resolve_instances kvs Map.empty))"
proof -
  have at: "resolve_instances kvs Map.empty k = Some a \<longleftrightarrow> (\<exists>v. map_of kvs k = Some v \<and> a = TrimSpace v \<and> a \<noteq> [])" for k a
    using resolve_instances_at [OF assms, of Map.empty k] by (auto split: option.splits)
  have "ran (resolve_instances kvs Map.empty) = {a. \<exists>k v. (k, v) \<in> set kvs \<and> a = TrimSpace v \<and> a \<noteq> []}"
    unfolding ran_def at map_of_eq_Some_iff [OF assms] by blast
  also have "\<dots> = set (filter (\<lambda>a. a \<noteq> []) (map (\<lambda>kv. TrimSpace (snd kv)) kvs))" by force
  finally show ?thesis by (simp add: listed_def sort_unique_loop)
qed

text \<open>What a follower of the prefix makes of the changes.\<close>

definition follow :: "string \<Rightarrow> etcd_event list \<Rightarrow> (string \<rightharpoonup> string) \<Rightarrow> (string \<rightharpoonup> string)" where
  "follow pre es m = fst (watch_events (in_prefix pre es) m False)"

definition track :: "etcd_event \<Rightarrow> (string \<rightharpoonup> string) \<Rightarrow> (string \<rightharpoonup> string)" where
  "track e m = (case e of
     Ev_put k v \<Rightarrow> if TrimSpace v = [] then m(k := None) else m(k \<mapsto> TrimSpace v)
   | Ev_delete k \<Rightarrow> m(k := None))"

lemma watch_events_track: "watch_events es m b = (fold track es m, b \<or> es \<noteq> [])"
proof (induction es arbitrary: m b)
  case (Cons e es)
  have "watch_events (e # es) m b = watch_events es (track e m) True"
    by (cases e) (simp_all only: watch_events.simps track_def etcd_event.case Let_def)
  with Cons show ?case by simp
qed simp

lemma follow_track: "follow pre es m = fold track (in_prefix pre es) m"
  by (simp add: follow_def watch_events_track)

lemma follow_append: "follow pre (es @ es') m = follow pre es' (follow pre es m)"
  by (simp add: follow_track in_prefix_def)

lemma follow_store:
  "follow pre h Map.empty k = (if starts_with pre k
     then (case etcd_store h k of Some v \<Rightarrow> if TrimSpace v = [] then None else Some (TrimSpace v) | None \<Rightarrow> None) else None)"
proof (induction h rule: rev_induct)
  case (snoc e h)
  then show ?case
    unfolding follow_append by (cases e) (auto simp: follow_track in_prefix_def etcd_store_def track_def)
qed (simp add: follow_track in_prefix_def etcd_store_def)

lemma finite_ran_resolved: "finite (ran (resolve_instances kvs Map.empty))"
proof -
  have "finite (dom (resolve_instances kvs m))" if "finite (dom m)" for m
    using that by (induction kvs m rule: resolve_instances.induct) (simp_all add: Let_def)
  then show ?thesis by (simp add: finite_ran)
qed

lemma snapshot_follow: "snapshot pre h kvs \<Longrightarrow> resolve_instances kvs Map.empty = follow pre h Map.empty"
  by (rule ext) (auto simp: snapshot_def resolve_instances_at follow_store split: option.splits)

section \<open>Ordered runs\<close>

text \<open>
  What is still to be delivered takes the instances to what the whole history says; the pairs of a
  call of \<open>ResolveNow\<close> are those of its revision; and the addresses handed over last are current
  unless a goroutine is about to hand over newer ones.
\<close>

definition catches_up :: "etcd_event list \<Rightarrow> watchResolver \<Rightarrow> bool" where
  "catches_up h r \<longleftrightarrow> rv_revision r \<le> length h \<and>
     follow (rv_prefix r) (drop (rv_revision r) h) (rv_instances r) = follow (rv_prefix r) h Map.empty"

definition fetched_ok :: "string \<Rightarrow> etcd_event list \<Rightarrow> resolve_task \<Rightarrow> bool" where
  "fetched_ok pre h t \<longleftrightarrow> (\<forall>kvs n. t = Task_fetched kvs n \<longrightarrow> n \<le> length h \<and>
     resolve_instances kvs Map.empty = follow pre (take n h) Map.empty)"

definition pushed_ok :: "watchResolver \<Rightarrow> bool" where
  "pushed_ok r \<longleftrightarrow> current (rv_instances r) (rv_pushed r) \<or> rv_watch r \<noteq> None \<or> (\<exists>u. Task_updating u \<in> set (rv_tasks r))"

definition resolver_inv :: "etcd_event list \<Rightarrow> watchResolver \<Rightarrow> bool" where
  "resolver_inv h r \<longleftrightarrow> catches_up h r \<and> (\<forall>t \<in> set (rv_tasks r). fetched_ok (rv_prefix r) h t) \<and> pushed_ok r"

text \<open>The last change of a key decides, so that following the same changes twice changes nothing.\<close>

lemma fold_track_at: "(\<exists>c. \<forall>m. fold track es m k = c) \<or> (\<forall>m. fold track es m k = m k)"
proof (induction es rule: rev_induct)
  case (snoc e es)
  have "(\<exists>c. \<forall>m. track e m k = c) \<or> (\<forall>m. track e m k = m k)"
    by (cases "event_key e = k"; cases e) (auto simp: track_def)
  with snoc show ?case by (auto simp: fold_append)
qed simp

lemma follow_again: "follow pre es (follow pre es m) = follow pre es m"
proof (rule ext)
  show "follow pre es (follow pre es m) k = follow pre es m k" for k
    using fold_track_at [of "in_prefix pre es" k] unfolding follow_track by metis
qed

lemma fetched_ok_updating [simp]: "fetched_ok pre h (Task_updating u)"
  by (simp add: fetched_ok_def)

lemma fetched_ok_change: "fetched_ok pre h t \<Longrightarrow> fetched_ok pre (h @ [e]) t"
  by (auto simp: fetched_ok_def)

lemma catches_up_change: "catches_up h r \<Longrightarrow> catches_up (h @ [e]) r"
  by (simp add: catches_up_def follow_append)

lemma catches_up_deliver:
  assumes "catches_up h r" and "rv_revision r \<le> n" and "n \<le> length h"
    and "rv_instances r' = follow (rv_prefix r) (take (n - rv_revision r) (drop (rv_revision r) h)) (rv_instances r)"
    and "rv_prefix r' = rv_prefix r" and "rv_revision r' = n"
  shows "catches_up h r'"
proof -
  have "drop (rv_revision r) h = take (n - rv_revision r) (drop (rv_revision r) h) @ drop n h"
    using assms(2) by (metis append_take_drop_id drop_drop le_add_diff_inverse2)
  then show ?thesis
    using assms by (simp add: catches_up_def) (metis follow_append)
qed

lemma catches_up_store:
  assumes "n \<le> length h" and "rv_revision r \<le> n" and "resolve_instances kvs Map.empty = follow (rv_prefix r) (take n h) Map.empty"
  shows "catches_up h (r\<lparr>rv_instances := resolve_instances kvs Map.empty, rv_tasks := ts\<rparr>)"
proof -
  let ?p = "rv_prefix r"
  have split: "drop (rv_revision r) h = drop (rv_revision r) (take n h) @ drop n h"
    using assms(2) by (metis append_take_drop_id drop_drop drop_take le_add_diff_inverse2)
  have again: "follow ?p (drop k es) (follow ?p es Map.empty) = follow ?p es Map.empty" for k es
    using follow_again [of ?p "drop k es" "follow ?p (take k es) Map.empty"]
    by (metis append_take_drop_id follow_append)
  show ?thesis
    using assms by (simp add: catches_up_def split follow_append again) (metis append_take_drop_id follow_append)
qed

lemma updateState_pushed [simp]: "snd (updateState quote name update_err addrs) = addrs"
  by (simp add: updateState_def)

lemma push_addresses_sel [simp]:
  "rv_instances (push_addresses quote ue addrs r) = rv_instances r" "rv_prefix (push_addresses quote ue addrs r) = rv_prefix r"
  "rv_revision (push_addresses quote ue addrs r) = rv_revision r" "rv_watch (push_addresses quote ue addrs r) = rv_watch r"
  "rv_tasks (push_addresses quote ue addrs r) = rv_tasks r" "rv_pushed (push_addresses quote ue addrs r) = addrs"
  "rv_serviceName (push_addresses quote ue addrs r) = rv_serviceName r"
  by (simp_all add: push_addresses_def updateState_def)

lemma catches_up_cong:
  "catches_up h r \<Longrightarrow> rv_instances r' = rv_instances r \<Longrightarrow> rv_prefix r' = rv_prefix r \<Longrightarrow> rv_revision r' = rv_revision r \<Longrightarrow>
   catches_up h r'"
  by (simp add: catches_up_def)

lemma watch_response_events:
  "watch_response (Inr es) r = r\<lparr>rv_instances := fold track es (rv_instances r),
     rv_watch := (if es = [] then None else Some Upd_read)\<rparr>"
  by (simp add: watch_response_def watch_events_track)

lemma resolver_step_inv:
  "resolver_step quote True hr hr' \<Longrightarrow> resolver_inv (fst hr) (snd hr) \<Longrightarrow>
   resolver_inv (fst hr') (snd hr') \<and> rv_prefix (snd hr') = rv_prefix (snd hr)"
proof (induction rule: resolver_step.induct)
  case (change h r e)
  then show ?case by (simp add: resolver_inv_def catches_up_change fetched_ok_change)
next
  case (deliver r n h es)
  have "catches_up h ((watch_response (Inr es) r)\<lparr>rv_revision := n\<rparr>)"
    by (rule catches_up_deliver [where r = r and n = n])
      (use deliver in \<open>simp_all add: resolver_inv_def watch_response_events follow_track in_prefix_def\<close>)
  with deliver show ?case
    by (auto simp: resolver_inv_def watch_response_events pushed_ok_def)
next
  case (watch_failed r h err)
  then show ?case by (simp add: resolver_inv_def watch_response_def catches_up_def pushed_ok_def)
next
  case (watch_read r keys h)
  then show ?case by (simp add: resolver_inv_def catches_up_def pushed_ok_def)
next
  case (watch_push r addrs h ue)
  then show ?case by (simp add: resolver_inv_def catches_up_def pushed_ok_def)
next
  case (fetch r h kvs)
  then show ?case
    by (auto simp: resolver_inv_def catches_up_def pushed_ok_def fetched_ok_def snapshot_follow)
next
  case (fetch_failed h r err)
  then show ?case by (simp add: resolver_inv_def catches_up_def pushed_ok_def)
next
  case (store r ts kvs n us h)
  then have "fetched_ok (rv_prefix r) h (Task_fetched kvs n)" by (simp add: resolver_inv_def)
  then have "catches_up h (r\<lparr>rv_instances := resolve_instances kvs Map.empty, rv_tasks := ts @ Task_updating Upd_read # us\<rparr>)"
    using store by (intro catches_up_store [of n]) (simp_all add: fetched_ok_def)
  with store show ?case by (auto simp: resolver_inv_def pushed_ok_def)
next
  case (task_read r ts us keys h)
  then show ?case by (auto simp: resolver_inv_def catches_up_def pushed_ok_def)
next
  case (task_push r ts addrs us h ue)
  then show ?case by (auto simp: resolver_inv_def catches_up_def pushed_ok_def)
qed

lemma resolver_run_inv:
  "(resolver_step quote True)\<^sup>*\<^sup>* hr hr' \<Longrightarrow> resolver_inv (fst hr) (snd hr) \<Longrightarrow>
   resolver_inv (fst hr') (snd hr') \<and> rv_prefix (snd hr') = rv_prefix (snd hr)"
  by (induction rule: rtranclp_induct) (auto dest: resolver_step_inv)

text \<open>A client whose reads are those of a history.\<close>

definition etcd_reads :: "('l, 'e) etcd_client \<Rightarrow> ('e \<Rightarrow> etcd_event list) \<Rightarrow> bool" where
  "etcd_reads client hist \<longleftrightarrow> (\<forall>pre e kvs revision e'. ec_Get client pre e = (Inr (kvs, revision), e') \<longrightarrow>
     snapshot pre (hist e) kvs \<and> revision = length (hist e) \<and> hist e' = hist e)"

lemma resolver_Build_inv:
  assumes "etcd_reads client hist" and "resolver_Build quote (Some client) endpoint keys ue e = (Inr r, e')"
    and "set keys = dom (rv_instances r)"
  shows "resolver_inv (hist e) r \<and> rv_prefix r = servicePath (TrimSpace endpoint) \<and> hist e' = hist e"
proof -
  let ?p = "servicePath (TrimSpace endpoint)"
  obtain kvs revision where get: "ec_Get client ?p e = (Inr (kvs, revision), e')"
    using assms(2) by (auto simp: resolver_Build_def Let_def split: if_splits prod.splits sum.splits)
  have r: "rv_prefix r = ?p" "rv_instances r = resolve_instances kvs Map.empty" "rv_revision r = revision" "rv_watch r = None"
      "rv_tasks r = []" "rv_pushed r = addresses keys (rv_instances r)"
    using assms(2) get by (auto simp: resolver_Build_def Let_def updateState_def split: if_splits)
  have snap: "snapshot ?p (hist e) kvs" "revision = length (hist e)" "hist e' = hist e"
    using assms(1) get unfolding etcd_reads_def by blast+
  have "catches_up (hist e) r"
    using r snap by (simp add: catches_up_def snapshot_follow follow_track in_prefix_def)
  then show ?thesis
    using r snap addresses_result [OF assms(3)] by (simp add: resolver_inv_def pushed_ok_def current_def)
qed

section \<open>Keys\<close>

lemma serviceKey_prefix: "starts_with (servicePath name) (serviceKey name addr)"
  by (simp add: starts_with_def serviceKey_def)

text \<open>Services with different names have different keys, as long as the names are free of slashes.\<close>

lemma servicePath_prefix:
  assumes "starts_with (servicePath name) (serviceKey name' addr)" and "CHR ''/'' \<notin> set name" and "CHR ''/'' \<notin> set name'"
  shows "name = name'"
proof -
  let ?k = "map (\<lambda>c. if c = CHR ''/'' then CHR ''_'' else c) addr"
  have e: "take (length name + 1) (name' @ ''/'' @ ?k) = name @ ''/''"
    using assms(1) unfolding starts_with_def serviceKey_def servicePath_def by simp
  have "name' @ ''/'' @ ?k = (name @ ''/'') @ drop (length name + 1) (name' @ ''/'' @ ?k)"
    unfolding e [symmetric] by (simp only: append_take_drop_id)
  then have "takeWhile (\<lambda>c. c \<noteq> CHR ''/'') (name' @ ''/'' @ ?k) =
      takeWhile (\<lambda>c. c \<noteq> CHR ''/'') ((name @ ''/'') @ drop (length name + 1) (name' @ ''/'' @ ?k))" by (rule arg_cong)
  moreover have part: "takeWhile (\<lambda>c. c \<noteq> CHR ''/'') (n @ ''/'' @ xs) = n" if "CHR ''/'' \<notin> set n" for n xs
    using that by (subst takeWhile_append2) auto
  ultimately show ?thesis unfolding append.assoc part [OF assms(2)] part [OF assms(3)] by simp
qed

section \<open>Properties\<close>

text \<open>
  C38 (equivalence). In an ordered run, once the watch has delivered every change and no update is under way,
  the addresses that gRPC was given last are exactly what a read of the registry returns: sorted,
  each once, whatever the order in which maps were visited; an instance that is registered and has
  not been removed is among them.
\<close>

theorem resolver_follows_registry:
  assumes "etcd_reads client hist"
    and "resolver_Build quote (Some client) endpoint keys ue e = (Inr r0, e0)" and "set keys = dom (rv_instances r0)"
    and "(resolver_step quote True)\<^sup>*\<^sup>* (hist e, r0) (h, r)"
    and "rv_revision r = length h" and "rv_watch r = None" and "\<forall>u. Task_updating u \<notin> set (rv_tasks r)"
    and "hist e1 = h" and "registry_List client (TrimSpace endpoint) e1 = (Inr addrs, e2)"
  shows "rv_pushed r = addrs \<and> sorted addrs \<and> distinct addrs \<and>
    (\<forall>a. etcd_store h (serviceKey (TrimSpace endpoint) a) = Some a \<and> TrimSpace a \<noteq> [] \<longrightarrow> TrimSpace a \<in> set (rv_pushed r))"
proof -
  let ?p = "servicePath (TrimSpace endpoint)"
  note start = resolver_Build_inv [OF assms(1-3)]
  have inv: "resolver_inv h r" "rv_prefix r = ?p" using resolver_run_inv [OF assms(4)] start by auto
  then have inst: "rv_instances r = follow ?p h Map.empty"
    using assms(5) by (simp add: resolver_inv_def catches_up_def follow_track in_prefix_def)
  from assms(9) obtain kvs revision where "ec_Get client ?p e1 = (Inr (kvs, revision), e2)" and addrs: "addrs = listed kvs"
    by (auto simp: registry_List_def split: sum.splits prod.splits)
  with assms(1,8) have snap: "snapshot ?p h kvs" unfolding etcd_reads_def by blast
  have same: "addrs = sorted_list_of_set (ran (rv_instances r))"
    using snap snapshot_follow [OF snap] unfolding addrs inst by (simp add: listed_result snapshot_def)
  moreover have pushed: "rv_pushed r = sorted_list_of_set (ran (rv_instances r))"
    using inv assms(6,7) by (auto simp: resolver_inv_def pushed_ok_def current_def)
  moreover have "TrimSpace a \<in> set (rv_pushed r)"
    if "etcd_store h (serviceKey (TrimSpace endpoint) a) = Some a" "TrimSpace a \<noteq> []" for a
  proof -
    have "rv_instances r (serviceKey (TrimSpace endpoint) a) = Some (TrimSpace a)"
      using that unfolding inst by (simp add: follow_store serviceKey_prefix)
    moreover have "finite (ran (rv_instances r))"
      using snapshot_follow [OF snap] unfolding inst by (metis finite_ran_resolved)
    ultimately show ?thesis unfolding pushed by (auto simp: ranI)
  qed
  ultimately show ?thesis by simp
qed

text \<open>An etcd in memory, and the resolver before it while a second instance registers.\<close>

fun mem_put :: "etcd_event \<Rightarrow> kv list \<Rightarrow> kv list" where
  "mem_put (Ev_put k v) kvs = AList.update k v kvs"
| "mem_put (Ev_delete k) kvs = AList.delete k kvs"

definition mem_etcd :: "(unit, etcd_event list) etcd_client" where
  "mem_etcd = \<lparr>ec_Grant = \<lambda>ttl h. (Inr (), h), ec_Put = \<lambda>k v lease h. (None, h @ [Ev_put k v]),
     ec_KeepAlive = \<lambda>lease h. (None, h), ec_Revoke = \<lambda>lease h. (None, h),
     ec_Get = \<lambda>pre h. (Inr (filter (\<lambda>kv. starts_with pre (fst kv)) (fold mem_put h []), length h), h)\<rparr>"

lemma mem_put_fold: "distinct (map fst (fold mem_put h [])) \<and> map_of (fold mem_put h []) = etcd_store h"
proof (induction h rule: rev_induct)
  case (snoc e h)
  then show ?case by (cases e) (simp_all add: etcd_store_def distinct_update distinct_delete update_conv' delete_conv')
qed (simp add: etcd_store_def)

lemma map_of_filter_key: "map_of (filter (\<lambda>kv. P (fst kv)) kvs) k = (if P k then map_of kvs k else None)"
  by (induction kvs) auto

lemma mem_etcd_reads: "etcd_reads mem_etcd (\<lambda>h. h)"
  using mem_put_fold by (auto simp: etcd_reads_def mem_etcd_def snapshot_def map_of_filter_key distinct_map_filter)

definition key_a :: string where "key_a = serviceKey ''s'' ''a''"
definition key_b :: string where "key_b = serviceKey ''s'' ''b''"

definition sample_resolver :: "string \<Rightarrow> watchResolver" where
  "sample_resolver addr = \<lparr>rv_serviceName = ''s'', rv_prefix = servicePath ''s'', rv_instances = [key_a \<mapsto> addr],
     rv_revision = 1, rv_watch = None, rv_tasks = [], rv_pushed = [addr], rv_reports = []\<rparr>"

lemma keys_differ [simp]: "key_a \<noteq> key_b" "key_b \<noteq> key_a"
  by (simp_all add: key_a_def key_b_def serviceKey_def)

lemma keys_in_prefix [simp]: "starts_with (servicePath ''s'') key_a" "starts_with (servicePath ''s'') key_b"
  by (simp_all only: key_a_def key_b_def serviceKey_prefix)

lemma trim_letters [simp]: "TrimSpace ''a'' = ''a''" "TrimSpace ''b'' = ''b''" "TrimSpace ''s'' = ''s''"
  by (simp_all add: TrimSpace_graphic graphic_def)

lemma resolve_key_a: "resolve_instances [(key_a, ''a'')] Map.empty = [key_a \<mapsto> ''a'']"
  by simp

lemma store_of_two: "etcd_store [Ev_put key_a ''a'', Ev_put key_b ''b''] = [key_a \<mapsto> ''a'', key_b \<mapsto> ''b'']"
  "etcd_store [Ev_put key_a ''a''] = [key_a \<mapsto> ''a'']"
  by (simp_all add: etcd_store_def)

text \<open>The watcher delivers the second registration and hands both addresses over.\<close>

definition both_delivered :: watchResolver where
  "both_delivered = (sample_resolver ''a'')\<lparr>rv_instances := [key_a \<mapsto> ''a'', key_b \<mapsto> ''b''], rv_revision := 2,
     rv_pushed := [''a'', ''b'']\<rparr>"

lemma addresses_two: "addresses [key_a, key_b] [key_a \<mapsto> ''a'', key_b \<mapsto> ''b''] = [''a'', ''b'']"
  by (simp add: addresses_def)

lemma deliver_both:
  assumes r: "r = (sample_resolver ''a'')\<lparr>rv_tasks := ts\<rparr>"
  shows "(resolver_step quote ordered)\<^sup>*\<^sup>* ([Ev_put key_a ''a''], r)
    ([Ev_put key_a ''a'', Ev_put key_b ''b''], both_delivered\<lparr>rv_tasks := ts\<rparr>)"
proof -
  let ?step = "resolver_step quote ordered" and ?h = "[Ev_put key_a ''a'', Ev_put key_b ''b'']"
  let ?r1 = "r\<lparr>rv_instances := [key_a \<mapsto> ''a'', key_b \<mapsto> ''b''], rv_watch := Some Upd_read, rv_revision := 2\<rparr>"
  let ?r2 = "?r1\<lparr>rv_watch := Some (Upd_push [''a'', ''b''])\<rparr>"
  have s1: "?step ([Ev_put key_a ''a''], r) (?h, r)" using resolver_step.change [of quote ordered "[Ev_put key_a ''a'']" r] by simp
  have s2: "?step (?h, r) (?h, ?r1)"
    using resolver_step.deliver [of r 2 ?h "[Ev_put key_b ''b'']" quote ordered]
    by (simp add: r sample_resolver_def in_prefix_def watch_response_events track_def)
  have s3: "?step (?h, ?r1) (?h, ?r2)"
    using resolver_step.watch_read [of ?r1 "[key_a, key_b]" quote ordered ?h] by (simp add: addresses_two insert_commute)
  have s4: "?step (?h, ?r2) (?h, push_addresses quote None [''a'', ''b''] (?r2\<lparr>rv_watch := None\<rparr>))"
  proof (rule resolver_step.watch_push)
    have "addresses [key_a, key_b] (rv_instances ?r2) = sorted_list_of_set (ran (rv_instances ?r2))"
      by (rule addresses_result) (simp add: insert_commute)
    then show "ordered \<longrightarrow> current (rv_instances ?r2) [''a'', ''b'']" by (simp add: current_def addresses_two)
  qed simp
  have e: "push_addresses quote None [''a'', ''b''] (?r2\<lparr>rv_watch := None\<rparr>) = both_delivered\<lparr>rv_tasks := ts\<rparr>"
    by (simp add: push_addresses_def updateState_def both_delivered_def r sample_resolver_def)
  from s1 s2 s3 s4 [unfolded e] show ?thesis by (meson converse_rtranclp_into_rtranclp rtranclp.rtrancl_refl)
qed

text \<open>
  Without the order an instance can be lost: a call of \<open>ResolveNow\<close> reads, the second instance
  registers and is delivered, and then the call stores what it read before. Every change has been
  delivered, nothing is under way, and gRPC does not know the second instance.
\<close>

lemma resolver_can_lose_instance:
  "\<exists>r. (resolver_step quote False)\<^sup>*\<^sup>* ([Ev_put key_a ''a''], sample_resolver ''a'')
      ([Ev_put key_a ''a'', Ev_put key_b ''b''], r) \<and>
    rv_revision r = 2 \<and> rv_watch r = None \<and> rv_tasks r = [] \<and> rv_pushed r = [''a''] \<and>
    etcd_store [Ev_put key_a ''a'', Ev_put key_b ''b''] key_b = Some ''b''"
proof -
  let ?step = "resolver_step quote False" and ?h = "[Ev_put key_a ''a'', Ev_put key_b ''b'']"
  let ?kvs = "[(key_a, ''a'')]"
  let ?r1 = "(sample_resolver ''a'')\<lparr>rv_tasks := [Task_fetched ?kvs 1]\<rparr>"
  let ?r2 = "both_delivered\<lparr>rv_tasks := [Task_fetched ?kvs 1]\<rparr>"
  let ?r3 = "both_delivered\<lparr>rv_instances := [key_a \<mapsto> ''a''], rv_tasks := [Task_updating Upd_read]\<rparr>"
  let ?r4 = "?r3\<lparr>rv_tasks := [Task_updating (Upd_push [''a''])]\<rparr>"
  let ?r5 = "push_addresses quote None [''a''] (?r4\<lparr>rv_tasks := []\<rparr>)"
  have "snapshot (servicePath ''s'') [Ev_put key_a ''a''] ?kvs"
    by (auto simp: snapshot_def store_of_two)
  then have "?step ([Ev_put key_a ''a''], sample_resolver ''a'') ([Ev_put key_a ''a''], ?r1)"
    using resolver_step.fetch [of "sample_resolver ''a''" "[Ev_put key_a ''a'']" ?kvs quote False]
    by (simp add: sample_resolver_def)
  moreover have "?step\<^sup>*\<^sup>* ([Ev_put key_a ''a''], ?r1) (?h, ?r2)" by (rule deliver_both) simp
  moreover have "?step (?h, ?r2) (?h, ?r3)"
    using resolver_step.store [of ?r2 "[]" ?kvs 1 "[]" False quote ?h] by (simp add: resolve_key_a)
  moreover have "?step (?h, ?r3) (?h, ?r4)"
    using resolver_step.task_read [of ?r3 "[]" "[]" "[key_a]" quote False ?h] by (simp add: addresses_def)
  moreover have "?step (?h, ?r4) (?h, ?r5)"
    using resolver_step.task_push [of ?r4 "[]" "[''a'']" "[]" False quote ?h None] by simp
  ultimately have "?step\<^sup>*\<^sup>* ([Ev_put key_a ''a''], sample_resolver ''a'') (?h, ?r5)"
    by (meson converse_rtranclp_into_rtranclp rtranclp.rtrancl_into_rtrancl)
  moreover have "rv_revision ?r5 = 2 \<and> rv_watch ?r5 = None \<and> rv_tasks ?r5 = [] \<and> rv_pushed ?r5 = [''a'']"
    by (simp add: both_delivered_def sample_resolver_def)
  ultimately show ?thesis using store_of_two(1) by (intro exI [of _ ?r5]) simp
qed

lemma sample_Build:
  "resolver_Build quote (Some mem_etcd) ''s'' [key_a] None [Ev_put key_a ''a''] = (Inr (sample_resolver ''a''), [Ev_put key_a ''a''])"
  by (simp add: resolver_Build_def mem_etcd_def sample_resolver_def updateState_def addresses_def Let_def)

lemma resolver_follows_registry_witness:
  "rv_pushed both_delivered = [''a'', ''b''] \<and>
   fst (registry_List mem_etcd ''s'' [Ev_put key_a ''a'', Ev_put key_b ''b'']) = Inr (rv_pushed both_delivered)"
proof -
  let ?h = "[Ev_put key_a ''a'', Ev_put key_b ''b'']"
  have run: "(resolver_step (\<lambda>s. s) True)\<^sup>*\<^sup>* ([Ev_put key_a ''a''], sample_resolver ''a'') (?h, both_delivered)"
    using deliver_both [of "sample_resolver ''a''" "[]" "\<lambda>s. s" True] by (simp add: sample_resolver_def both_delivered_def)
  obtain addrs e2 where read: "registry_List mem_etcd (TrimSpace ''s'') ?h = (Inr addrs, e2)"
    by (simp add: registry_List_def mem_etcd_def)
  have end_state: "rv_revision both_delivered = length ?h" "rv_watch both_delivered = None"
    "\<forall>u. Task_updating u \<notin> set (rv_tasks both_delivered)" "rv_pushed both_delivered = [''a'', ''b'']"
    by (simp_all add: both_delivered_def sample_resolver_def)
  have "set [key_a] = dom (rv_instances (sample_resolver ''a''))" by (simp add: sample_resolver_def)
  from resolver_follows_registry [OF mem_etcd_reads sample_Build this run end_state(1-3) refl read]
  show ?thesis using read end_state(4) by simp
qed

end
