(* ===== verification/Config.thy ===== *)
theory Config
  imports Cleanup Etcd Snowflake
begin

text \<open>
  \<open>internal/config/config.go\<close>: the configuration read from the environment, and what the commands
  make of it. \<open>env\<close> is \<open>os.Getenv\<close>, which returns the empty string for an unset variable.
  \<open>strconv.Atoi\<close>, \<open>strconv.ParseBool\<close> and \<open>strings.Split\<close> are modelled; \<open>time.ParseDuration\<close> and
  \<open>strconv.ParseFloat\<close> are parameters (\<open>None\<close> is an error).
\<close>

section \<open>Parsing (strconv, strings)\<close>

fun digits_value :: "string \<Rightarrow> nat \<Rightarrow> nat option" where
  "digits_value [] n = Some n"
| "digits_value (c # s) n =
     (let d = (of_char c :: nat) in if 48 \<le> d \<and> d \<le> 57 then digits_value s (10 * n + (d - 48)) else None)"

definition Atoi_unsigned :: "bool \<Rightarrow> string \<Rightarrow> int option" where
  "Atoi_unsigned neg s =
     (if s = [] then None
      else case digits_value s 0 of
             None \<Rightarrow> None
           | Some n \<Rightarrow> (let i = (if neg then - int n else int n) in if - (2 ^ 63) \<le> i \<and> i < 2 ^ 63 then Some i else None))"

definition Atoi :: "string \<Rightarrow> int option" where
  "Atoi s =
     (case s of
        [] \<Rightarrow> None
      | c # rest \<Rightarrow>
          (if c = CHR ''-'' then Atoi_unsigned True rest
           else if c = CHR ''+'' then Atoi_unsigned False rest else Atoi_unsigned False s))"

definition ParseBool :: "string \<Rightarrow> bool option" where
  "ParseBool s =
     (if s \<in> {''1'', ''t'', ''T'', ''true'', ''TRUE'', ''True''} then Some True
      else if s \<in> {''0'', ''f'', ''F'', ''false'', ''FALSE'', ''False''} then Some False else None)"

text \<open>\<open>strings.Split\<close> at a byte: the empty string has one part.\<close>

fun split_on :: "char \<Rightarrow> string \<Rightarrow> string list" where
  "split_on c [] = [[]]"
| "split_on c (x # s) =
     (if x = c then [] # split_on c s else (case split_on c s of [] \<Rightarrow> [[x]] | p # ps \<Rightarrow> (x # p) # ps))"

text \<open>\<open>strings.ToUpper\<close> of an ASCII string.\<close>

definition ToUpper :: "string \<Rightarrow> string" where
  "ToUpper s = map (\<lambda>c. if 97 \<le> (of_char c :: nat) \<and> of_char c \<le> (122 :: nat) then char_of (of_char c - 32 :: nat) else c) s"

section \<open>Variables\<close>

type_synonym environment = "string \<Rightarrow> string"

definition getenv :: "environment \<Rightarrow> string \<Rightarrow> string \<Rightarrow> string" where
  "getenv env key fallback = (let v = TrimSpace (env key) in if v \<noteq> [] then v else fallback)"

definition getenvInt :: "environment \<Rightarrow> string \<Rightarrow> int \<Rightarrow> int" where
  "getenvInt env key fallback =
     (let v = TrimSpace (env key)
      in if v = [] then fallback else (case Atoi v of None \<Rightarrow> fallback | Some parsed \<Rightarrow> parsed))"

definition getenvFloat :: "(string \<Rightarrow> float64 option) \<Rightarrow> environment \<Rightarrow> string \<Rightarrow> float64 \<Rightarrow> float64" where
  "getenvFloat ParseFloat env key fallback =
     (let v = TrimSpace (env key)
      in if v = [] then fallback else (case ParseFloat v of None \<Rightarrow> fallback | Some parsed \<Rightarrow> parsed))"

definition getenvDuration :: "(string \<Rightarrow> duration option) \<Rightarrow> environment \<Rightarrow> string \<Rightarrow> duration \<Rightarrow> duration" where
  "getenvDuration ParseDuration env key fallback =
     (let v = TrimSpace (env key)
      in if v = [] then fallback else (case ParseDuration v of None \<Rightarrow> fallback | Some parsed \<Rightarrow> parsed))"

definition getenvBool :: "environment \<Rightarrow> string \<Rightarrow> bool \<Rightarrow> bool" where
  "getenvBool env key fallback =
     (let v = TrimSpace (env key)
      in if v = [] then fallback else (case ParseBool v of None \<Rightarrow> fallback | Some parsed \<Rightarrow> parsed))"

section \<open>The parts of the configuration\<close>

record ServiceConfig =
  cf_Name :: string
  cf_Addr :: string
  cf_Env :: string

record RedisConfig =
  cf_RedisAddr :: string
  cf_Password :: string
  cf_DB :: int
  cf_PoolSize :: int
  cf_DialTimeout :: duration
  cf_ReadTimeout :: duration
  cf_WriteTimeout :: duration

record EtcdConfig =
  cf_Endpoints :: "string list"
  cf_EtcdDialTimeout :: duration
  cf_LeaseTTL :: int

record CleanupConfig =
  cf_Enabled :: bool
  cf_Interval :: duration
  cf_VisitRetention :: duration
  cf_StatRetention :: duration
  cf_BatchSize :: int

record BloomFilterConfig =
  cf_Key :: string
  cf_Capacity :: uint64
  cf_ErrorRate :: float64

definition LoadService :: "environment \<Rightarrow> string \<Rightarrow> string \<Rightarrow> ServiceConfig" where
  "LoadService env name defaultAddr =
     (let envKey = ToUpper name @ ''_ADDR'';
          addr1 = getenv env envKey [];
          addr = (if addr1 = [] then getenv env ''APP_ADDR'' defaultAddr else addr1)
      in \<lparr>cf_Name = name, cf_Addr = addr, cf_Env = getenv env ''APP_ENV'' ''local''\<rparr>)"

definition LoadMySQL :: "environment \<Rightarrow> string" where
  "LoadMySQL env = getenv env ''MYSQL_DSN'' []"

definition LoadRedis :: "(string \<Rightarrow> duration option) \<Rightarrow> environment \<Rightarrow> RedisConfig" where
  "LoadRedis ParseDuration env =
     \<lparr>cf_RedisAddr = getenv env ''REDIS_ADDR'' ''127.0.0.1:6379'', cf_Password = getenv env ''REDIS_PASSWORD'' [],
      cf_DB = getenvInt env ''REDIS_DB'' 0, cf_PoolSize = getenvInt env ''REDIS_POOL_SIZE'' 20,
      cf_DialTimeout = getenvDuration ParseDuration env ''REDIS_DIAL_TIMEOUT'' (3 * second),
      cf_ReadTimeout = getenvDuration ParseDuration env ''REDIS_READ_TIMEOUT'' second,
      cf_WriteTimeout = getenvDuration ParseDuration env ''REDIS_WRITE_TIMEOUT'' second\<rparr>"

definition LoadEtcd :: "(string \<Rightarrow> duration option) \<Rightarrow> environment \<Rightarrow> EtcdConfig" where
  "LoadEtcd ParseDuration env =
     \<lparr>cf_Endpoints = filter (\<lambda>e. e \<noteq> []) (map TrimSpace (split_on CHR '','' (getenv env ''ETCD_ENDPOINTS'' []))),
      cf_EtcdDialTimeout = getenvDuration ParseDuration env ''ETCD_DIAL_TIMEOUT'' (3 * second),
      cf_LeaseTTL = getenvInt env ''ETCD_LEASE_TTL'' 10\<rparr>"

definition LoadShortLink :: "environment \<Rightarrow> string" where
  "LoadShortLink env = getenv env ''SHORT_LINK_DOMAIN'' ''http://127.0.0.1:8080''"

definition LoadSnowflakeNodeID :: "environment \<Rightarrow> string \<Rightarrow> int \<Rightarrow> int" where
  "LoadSnowflakeNodeID env serviceName fallback = getenvInt env (ToUpper serviceName @ ''_NODE_ID'') fallback"

definition normalizeAdvertiseAddr :: "string \<Rightarrow> string" where
  "normalizeAdvertiseAddr a = (let addr = TrimSpace a in if starts_with '':'' addr then ''127.0.0.1'' @ addr else addr)"

definition LoadAdvertiseAddr :: "environment \<Rightarrow> string \<Rightarrow> string \<Rightarrow> string" where
  "LoadAdvertiseAddr env serviceName listenAddr =
     (let v = getenv env (ToUpper serviceName @ ''_ADVERTISE_ADDR'') []
      in if v \<noteq> [] then v else normalizeAdvertiseAddr listenAddr)"

definition LoadCleanup :: "(string \<Rightarrow> duration option) \<Rightarrow> environment \<Rightarrow> CleanupConfig" where
  "LoadCleanup ParseDuration env =
     \<lparr>cf_Enabled = getenvBool env ''CLEANUP_ENABLED'' True,
      cf_Interval = getenvDuration ParseDuration env ''CLEANUP_INTERVAL'' (24 * hour),
      cf_VisitRetention = getenvDuration ParseDuration env ''CLEANUP_VISIT_RETENTION'' (30 * 24 * hour),
      cf_StatRetention = getenvDuration ParseDuration env ''CLEANUP_STAT_RETENTION'' (180 * 24 * hour),
      cf_BatchSize = getenvInt env ''CLEANUP_BATCH_SIZE'' 1000\<rparr>"

definition LoadBloomFilter :: "(string \<Rightarrow> float64 option) \<Rightarrow> environment \<Rightarrow> BloomFilterConfig" where
  "LoadBloomFilter ParseFloat env =
     (let capacity1 = getenvInt env ''BLOOM_FILTER_CAPACITY'' 10000000;
          capacity = (if capacity1 \<le> 0 then 10000000 else capacity1);
          errorRate1 = getenvFloat ParseFloat env ''BLOOM_FILTER_ERROR_RATE'' (Finite (1 / 100));
          errorRate = (if float_le errorRate1 (Finite 0) \<or> float_le (Finite 1) errorRate1 then Finite (1 / 100) else errorRate1)
      in \<lparr>cf_Key = getenv env ''BLOOM_FILTER_KEY'' ''flashlink:filter:codes'', cf_Capacity = word_of_int capacity,
          cf_ErrorRate = errorRate\<rparr>)"

section \<open>The commands\<close>

text \<open>
  What \<open>main\<close> of \<open>cmd/worker\<close> and of the services makes of the configuration.
\<close>

definition worker_cleanup ::
  "(string \<Rightarrow> duration option) \<Rightarrow> environment \<Rightarrow> 'l link_db \<Rightarrow> 'v visit_db \<Rightarrow> duration \<Rightarrow> 'h redis \<Rightarrow> RedisBloom \<Rightarrow> time \<Rightarrow>
   ('l \<times> 'v, 'h) CleanupService \<times> ('l \<times> 'v, 'h) Scheduler option" where
  "worker_cleanup ParseDuration env D V zone R f filter_now =
     (let cfg = LoadCleanup ParseDuration env;
          service = worker_service D V zone R f filter_now (cf_BatchSize cfg) (cf_VisitRetention cfg) (cf_StatRetention cfg)
      in (service, if cf_Enabled cfg then Some (NewScheduler service (cf_Interval cfg)) else None))"

definition service_bloom :: "(string \<Rightarrow> float64 option) \<Rightarrow> environment \<Rightarrow> RedisBloom" where
  "service_bloom ParseFloat env =
     (let cfg = LoadBloomFilter ParseFloat env
      in NewRedisBloom \<lparr>bo_Key = cf_Key cfg, bo_Capacity = cf_Capacity cfg, bo_ErrorRate = cf_ErrorRate cfg\<rparr>)"

definition service_ids :: "environment \<Rightarrow> string \<Rightarrow> int \<Rightarrow> go_error + Snowflake" where
  "service_ids env serviceName fallback = NewSnowflake (word_of_int (LoadSnowflakeNodeID env serviceName fallback))"

text \<open>The registration of a service: the registry is opened, the advertised address registered.\<close>

definition register_service ::
  "(string \<Rightarrow> duration option) \<Rightarrow> environment \<Rightarrow> (string list \<Rightarrow> duration \<Rightarrow> 'e \<Rightarrow> (go_error + ('l, 'e) etcd_client) \<times> 'e) \<Rightarrow>
   string \<Rightarrow> string \<Rightarrow> 'e \<Rightarrow> (go_error + 'l) \<times> 'e" where
  "register_service ParseDuration env clientv3_New serviceName defaultAddr e =
     (let cfg = LoadEtcd ParseDuration env
      in case registry_Open clientv3_New (cf_Endpoints cfg) (cf_EtcdDialTimeout cfg) e of
           (Inl err, e1) \<Rightarrow> (Inl err, e1)
         | (Inr client, e1) \<Rightarrow>
             registry_Register client serviceName
               (LoadAdvertiseAddr env serviceName (cf_Addr (LoadService env serviceName defaultAddr))) (cf_LeaseTTL cfg) e1)"

section \<open>What every environment gives\<close>

lemma digits_value_append:
  "digits_value (s @ t) n = (case digits_value s n of None \<Rightarrow> None | Some m \<Rightarrow> digits_value t m)"
  by (induction s n rule: digits_value.induct) (simp_all add: Let_def)

lemma digits_value_decimal: "digits_value (decimal k) 0 = Some k"
proof (induction k rule: decimal.induct)
  case (1 k)
  show ?case
  proof (cases "k < 10")
    case True
    then show ?thesis by (subst decimal.simps) (simp add: of_char_of Let_def)
  next
    case False
    with 1 show ?thesis by (subst decimal.simps) (simp add: digits_value_append of_char_of Let_def)
  qed
qed

text \<open>\<open>Atoi\<close> reads back what \<open>Itoa\<close> writes, for every 64-bit integer, and never returns another.\<close>

lemma Atoi_FormatInt:
  assumes "- (2 ^ 63) \<le> i" and "i < 2 ^ 63"
  shows "Atoi (FormatInt i) = Some i"
proof (cases "i < 0")
  case True
  with assms show ?thesis
    by (simp add: FormatInt_def Atoi_def Atoi_unsigned_def digits_value_decimal)
next
  case False
  obtain c rest where d: "decimal (nat i) = c # rest" by (metis decimal_nonempty neq_Nil_conv)
  then have "48 \<le> (of_char c :: nat)" using decimal_digits [of c "nat i"] by simp
  then have "c \<noteq> CHR ''-''" "c \<noteq> CHR ''+''" by auto
  with False assms digits_value_decimal [of "nat i"] show ?thesis
    by (simp add: FormatInt_def Atoi_def Atoi_unsigned_def d)
qed

lemma Atoi_range: "Atoi s = Some i \<Longrightarrow> - (2 ^ 63) \<le> i \<and> i < 2 ^ 63"
  by (auto simp: Atoi_def Atoi_unsigned_def Let_def split: list.splits option.splits if_splits)

lemma getenvInt_range:
  "- (2 ^ 63) \<le> fallback \<Longrightarrow> fallback < 2 ^ 63 \<Longrightarrow> - (2 ^ 63) \<le> getenvInt env key fallback \<and> getenvInt env key fallback < 2 ^ 63"
  using Atoi_range by (auto simp: getenvInt_def Let_def split: option.splits)

lemma split_on_nonempty [simp]: "split_on c s \<noteq> []"
  by (induction c s rule: split_on.induct) (auto split: list.splits)

text \<open>The parts joined again are the string, and none contains the separator.\<close>

lemma split_on_parts: "c \<notin> \<Union> (set ` set (split_on c s)) \<and> concat (map (\<lambda>p. c # p) (split_on c s)) = c # s"
  by (induction c s rule: split_on.induct) (auto split: list.splits)

lemma TrimSpace_nil [simp]: "TrimSpace [] = []"
  using set_TrimSpace [of "[]"] by simp

lemma unset_default:
  "env key = [] \<Longrightarrow> getenv env key s = s" "env key = [] \<Longrightarrow> getenvInt env key i = i"
  "env key = [] \<Longrightarrow> getenvDuration ParseDuration env key d = d" "env key = [] \<Longrightarrow> getenvBool env key b = b"
  "env key = [] \<Longrightarrow> getenvFloat ParseFloat env key x = x"
  by (simp_all add: getenv_def getenvInt_def getenvDuration_def getenvBool_def getenvFloat_def)

text \<open>
  The filter's capacity is positive and no error rate outside the open unit interval is let through, but NaN
  is: it compares false with both limits.
\<close>

lemma LoadBloomFilter_sane:
  "0 < unat (cf_Capacity (LoadBloomFilter ParseFloat env)) \<and>
   (cf_ErrorRate (LoadBloomFilter ParseFloat env) = NaN \<or>
    (\<exists>r. cf_ErrorRate (LoadBloomFilter ParseFloat env) = Finite r \<and> 0 < r \<and> r < 1))"
proof -
  define i where "i = getenvInt env ''BLOOM_FILTER_CAPACITY'' 10000000"
  define capacity where "capacity = (if i \<le> 0 then 10000000 else i)"
  have "- (2 ^ 63) \<le> i \<and> i < 2 ^ 63" unfolding i_def by (rule getenvInt_range) simp_all
  then have "0 < capacity" "capacity < 2 ^ 64" by (simp_all add: capacity_def)
  then have "uint (word_of_int capacity :: uint64) = capacity" by (simp add: uint_word_of_int)
  with \<open>0 < capacity\<close> have "0 < unat (word_of_int capacity :: uint64)"
    unfolding unat_eq_nat_uint by simp
  then have cap: "0 < unat (cf_Capacity (LoadBloomFilter ParseFloat env))"
    by (simp add: LoadBloomFilter_def Let_def capacity_def i_def [symmetric])
  define x where "x = getenvFloat ParseFloat env ''BLOOM_FILTER_ERROR_RATE'' (Finite (1 / 100))"
  have "cf_ErrorRate (LoadBloomFilter ParseFloat env) =
      (if float_le x (Finite 0) \<or> float_le (Finite 1) x then Finite (1 / 100) else x)"
    by (simp add: LoadBloomFilter_def Let_def x_def)
  with cap show ?thesis by (cases x) (auto intro!: exI [of _ "1 / 100 :: real"])
qed

lemma LoadBloomFilter_NaN:
  "env ''BLOOM_FILTER_ERROR_RATE'' = ''NaN'' \<Longrightarrow> ParseFloat ''NaN'' = Some NaN \<Longrightarrow>
   cf_ErrorRate (LoadBloomFilter ParseFloat env) = NaN"
  by (simp add: LoadBloomFilter_def Let_def getenvFloat_def TrimSpace_graphic graphic_def)

text \<open>NaN passes the test of \<open>NewRedisBloom\<close> as well and is the rate that the filter is reserved with.\<close>

lemma service_bloom_NaN:
  "env ''BLOOM_FILTER_ERROR_RATE'' = ''NaN'' \<Longrightarrow> ParseFloat ''NaN'' = Some NaN \<Longrightarrow>
   rb_errorRate (service_bloom ParseFloat env) = NaN"
  by (simp add: service_bloom_def Let_def LoadBloomFilter_NaN NewRedisBloom_def)

lemma LoadEtcd_endpoints: "e \<in> set (cf_Endpoints (LoadEtcd ParseDuration env)) \<Longrightarrow> e \<noteq> []"
  by (simp add: LoadEtcd_def)

text \<open>A service starts without a node id in its environment, and with one exactly when it is in range.\<close>

lemma service_ids_range:
  assumes "0 \<le> fallback" and "fallback \<le> 1023"
  shows "(\<exists>g. service_ids env name fallback = Inr g) \<longleftrightarrow>
    0 \<le> LoadSnowflakeNodeID env name fallback \<and> LoadSnowflakeNodeID env name fallback \<le> 1023"
proof -
  let ?i = "LoadSnowflakeNodeID env name fallback"
  have "- (2 ^ 63) \<le> ?i \<and> ?i < 2 ^ 63"
    unfolding LoadSnowflakeNodeID_def using assms by (intro getenvInt_range) simp_all
  then have "sint (word_of_int ?i :: int64) = ?i"
    by (simp add: sint_sbintrunc' signed_take_bit_int_eq_self)
  moreover have "sint snowflakeMaxNode = 1023" by (simp add: snowflakeMaxNode_mask mask_eq_exp_minus_1)
  ultimately show ?thesis by (auto simp: service_ids_def NewSnowflake_def)
qed

text \<open>Whatever the environment, the worker's limits are positive.\<close>

lemma worker_cleanup_positive:
  "0 < cs_batchSize (fst (worker_cleanup ParseDuration env D V zone R f fnow)) \<and>
   0 < cs_visitRetention (fst (worker_cleanup ParseDuration env D V zone R f fnow)) \<and>
   0 < cs_statRetention (fst (worker_cleanup ParseDuration env D V zone R f fnow))"
  by (simp add: worker_cleanup_def Let_def worker_service_sel hour_def minute_def second_def)

end
