(* ===== verification/Process.thy ===== *)
theory Process
  imports Config Recorder Grpc_Api
begin

text \<open>
  The life of the processes: what the \<open>main\<close> functions of \<open>cmd\<close> call and in which order, with
  \<open>mysql/db.go\<close>, \<open>redis/client.go\<close> and the dialling of the gateway's client, and how a process ends
  (\<open>Serve\<close> of \<open>grpcapi/api.go\<close>, \<open>Run\<close> of \<open>internal/app/health\<close>).
  \<^item> A start-up is a function of its environment, which holds the variables and answers every call
    from the calls made before it. Its result is how it ends and the list of calls. Deferred calls are made when a
    function returns, but not when \<open>log.Fatal\<close> ends the process.
  \<^item> The end is a step relation: the signal, the requests in flight, the goroutines and \<open>main\<close> run
    interleaved, and nothing runs once \<open>main\<close> has returned.
\<close>

section \<open>Calls\<close>

datatype sys_call =
    Gorm_Open string | Gorm_DB | Set_max_idle int | Set_max_open int | Set_lifetime duration
  | Redis_New RedisConfig | Redis_Close
  | Filter_Rebuild BloomFilterConfig int | Start_cleaner | Start_recorder | Start_scheduler duration
  | Etcd_New "string list" duration | Etcd_Grant int | Etcd_Put string string | Etcd_KeepAlive | Etcd_Revoke
  | Etcd_Get string | Etcd_Close
  | Resolver_Register | Dial string duration | Conn_Close string
  | Listen string | Serve_grpc string | Serve_http string | Wait_done

record process_env =
  pe_Getenv :: environment
  pe_ParseDuration :: "string \<Rightarrow> duration option"
  pe_ParseFloat :: "string \<Rightarrow> float64 option"
  pe_error :: "sys_call list \<Rightarrow> sys_call \<Rightarrow> go_error option"
  pe_pairs :: "sys_call list \<Rightarrow> kv list \<times> nat"
  pe_ErrServerClosed :: go_error

definition ask :: "process_env \<Rightarrow> sys_call \<Rightarrow> sys_call list \<Rightarrow> go_error option \<times> sys_call list" where
  "ask E c tr = (pe_error E tr c, tr @ [c])"

definition ask_for :: "process_env \<Rightarrow> sys_call \<Rightarrow> 'a \<Rightarrow> sys_call list \<Rightarrow> (go_error + 'a) \<times> sys_call list" where
  "ask_for E c x tr = (case ask E c tr of (None, tr1) \<Rightarrow> (Inr x, tr1) | (Some err, tr1) \<Rightarrow> (Inl err, tr1))"

text \<open>\<open>if err != nil { return err }\<close> and \<open>if err != nil { log.Fatal(err) }\<close>.\<close>

definition or_return :: "go_error option \<times> sys_call list \<Rightarrow> (sys_call list \<Rightarrow> go_error option \<times> sys_call list) \<Rightarrow>
    go_error option \<times> sys_call list" where
  "or_return res k = (case res of (Some err, tr) \<Rightarrow> (Some err, tr) | (None, tr) \<Rightarrow> k tr)"

datatype ending = Returned | Fatal go_error

definition or_fatal :: "go_error option \<times> sys_call list \<Rightarrow> (sys_call list \<Rightarrow> ending \<times> sys_call list) \<Rightarrow> ending \<times> sys_call list" where
  "or_fatal res k = (case res of (Some err, tr) \<Rightarrow> (Fatal err, tr) | (None, tr) \<Rightarrow> k tr)"

section \<open>Opening what the processes share\<close>

record MySQLConfig =
  my_DSN :: string
  my_MaxIdleConns :: int
  my_MaxOpenConns :: int
  my_ConnMaxLifetime :: duration

definition mysql_Open :: "process_env \<Rightarrow> MySQLConfig \<Rightarrow> sys_call list \<Rightarrow> go_error option \<times> sys_call list" where
  "mysql_Open E cfg tr =
     or_return (ask E (Gorm_Open (my_DSN cfg)) tr) (\<lambda>tr.
     or_return (ask E Gorm_DB tr) (\<lambda>tr.
       (None, tr @
          (if 0 < my_MaxIdleConns cfg then [Set_max_idle (my_MaxIdleConns cfg)] else []) @
          (if 0 < my_MaxOpenConns cfg then [Set_max_open (my_MaxOpenConns cfg)] else []) @
          (if 0 < my_ConnMaxLifetime cfg then [Set_lifetime (my_ConnMaxLifetime cfg)] else []))))"

definition process_mysql :: "string \<Rightarrow> MySQLConfig" where
  "process_mysql dsn = \<lparr>my_DSN = dsn, my_MaxIdleConns = 10, my_MaxOpenConns = 50, my_ConnMaxLifetime = hour\<rparr>"

definition redis_Open :: "RedisConfig \<Rightarrow> sys_call list \<Rightarrow> sys_call list" where
  "redis_Open cfg tr = tr @ [Redis_New cfg]"

definition etcd_New :: "process_env \<Rightarrow> string list \<Rightarrow> duration \<Rightarrow> sys_call list \<Rightarrow>
    (go_error + (unit, sys_call list) etcd_client) \<times> sys_call list" where
  "etcd_New E endpoints dialTimeout =
     ask_for E (Etcd_New endpoints dialTimeout)
       \<lparr>ec_Grant = (\<lambda>ttl. ask_for E (Etcd_Grant ttl) ()), ec_Put = (\<lambda>k v lease. ask E (Etcd_Put k v)),
        ec_KeepAlive = (\<lambda>lease. ask E Etcd_KeepAlive), ec_Revoke = (\<lambda>lease. ask E Etcd_Revoke),
        ec_Get = (\<lambda>prefix tr. ask_for E (Etcd_Get prefix) (pe_pairs E tr) tr)\<rparr>"

definition dial :: "process_env \<Rightarrow> string \<Rightarrow> sys_call list \<Rightarrow> (go_error + string) \<times> sys_call list" where
  "dial E addr = ask_for E (Dial addr (3 * second)) addr"

section \<open>The services\<close>

definition ServiceLink :: string where "ServiceLink = ''linksvc''"
definition ServiceRedirect :: string where "ServiceRedirect = ''redirectsvc''"
definition ServiceStats :: string where "ServiceStats = ''statsvc''"

text \<open>
  The end of the three services' \<open>main\<close>: register, listen, serve, and on return the deferred calls \<open>closes\<close>.
\<close>

definition register_and_serve :: "process_env \<Rightarrow> string \<Rightarrow> string \<Rightarrow> sys_call list \<Rightarrow> sys_call list \<Rightarrow> ending \<times> sys_call list" where
  "register_and_serve E name defaultAddr closes tr =
     (case register_service (pe_ParseDuration E) (pe_Getenv E) (etcd_New E) name defaultAddr tr of
        (Inl err, tr1) \<Rightarrow> (Fatal err, tr1)
      | (Inr lease, tr1) \<Rightarrow>
          or_fatal (ask E (Listen (cf_Addr (LoadService (pe_Getenv E) name defaultAddr))) tr1) (\<lambda>tr2.
          or_fatal (ask E (Serve_grpc name) tr2) (\<lambda>tr3. (Returned, tr3 @ closes))))"

text \<open>A rebuild that fails is logged and otherwise ignored.\<close>

definition start_filter :: "process_env \<Rightarrow> sys_call list \<Rightarrow> sys_call list" where
  "start_filter E tr = snd (ask E (Filter_Rebuild (LoadBloomFilter (pe_ParseFloat E) (pe_Getenv E)) 1000) tr)"

definition linksvc_main :: "process_env \<Rightarrow> ending \<times> sys_call list" where
  "linksvc_main E =
     (let dsn = LoadMySQL (pe_Getenv E)
      in if dsn = [] then (Fatal (Errorf ''MYSQL_DSN is required''), [])
         else or_fatal (mysql_Open E (process_mysql dsn) []) (\<lambda>tr.
           let tr1 = redis_Open (LoadRedis (pe_ParseDuration E) (pe_Getenv E)) tr
           in case service_ids (pe_Getenv E) ''linksvc'' 1 of
                Inl err \<Rightarrow> (Fatal err, tr1)
              | Inr ids \<Rightarrow>
                  register_and_serve E ServiceLink '':8081'' [Etcd_Close, Redis_Close] (start_filter E tr1 @ [Start_cleaner])))"

definition redirectsvc_main :: "process_env \<Rightarrow> ending \<times> sys_call list" where
  "redirectsvc_main E =
     (let dsn = LoadMySQL (pe_Getenv E)
      in if dsn = [] then (Fatal (Errorf ''MYSQL_DSN is required''), [])
         else or_fatal (mysql_Open E (process_mysql dsn) []) (\<lambda>tr.
           let tr1 = redis_Open (LoadRedis (pe_ParseDuration E) (pe_Getenv E)) tr
           in register_and_serve E ServiceRedirect '':8082'' [Etcd_Close, Redis_Close] (start_filter E tr1 @ [Start_cleaner])))"

definition statsvc_main :: "process_env \<Rightarrow> ending \<times> sys_call list" where
  "statsvc_main E =
     (let dsn = LoadMySQL (pe_Getenv E)
      in if dsn = [] then (Fatal (Errorf ''MYSQL_DSN is required''), [])
         else or_fatal (mysql_Open E (process_mysql dsn) []) (\<lambda>tr.
           case service_ids (pe_Getenv E) ''statsvc'' 2 of
             Inl err \<Rightarrow> (Fatal err, tr)
           | Inr ids \<Rightarrow> register_and_serve E ServiceStats '':8083'' [Etcd_Close] (tr @ [Start_recorder])))"

definition worker_main :: "process_env \<Rightarrow> ending \<times> sys_call list" where
  "worker_main E =
     (let dsn = LoadMySQL (pe_Getenv E)
      in if dsn = [] then (Fatal (Errorf ''MYSQL_DSN is required''), [])
         else or_fatal (mysql_Open E (process_mysql dsn) []) (\<lambda>tr.
           let cleanupCfg = LoadCleanup (pe_ParseDuration E) (pe_Getenv E);
               tr1 = redis_Open (LoadRedis (pe_ParseDuration E) (pe_Getenv E)) tr;
               tr2 = (if cf_Enabled cleanupCfg then tr1 @ [Start_scheduler (cf_Interval cleanupCfg)] else tr1)
           in (Returned, tr2 @ [Wait_done, Redis_Close])))"

section \<open>The gateway\<close>

text \<open>\<open>stubs\<close>: the client over three connections, as in \<open>NewGatewayClient\<close>.\<close>

definition runGateway ::
  "process_env \<Rightarrow> (string \<Rightarrow> string \<Rightarrow> string \<Rightarrow> (string, sys_call list) GatewayClient) \<Rightarrow> ServiceConfig \<Rightarrow>
   go_error option \<times> sys_call list" where
  "runGateway E stubs cfg =
     (let etcdCfg = LoadEtcd (pe_ParseDuration E) (pe_Getenv E)
      in case registry_Open (etcd_New E) (cf_Endpoints etcdCfg) (cf_EtcdDialTimeout etcdCfg) [] of
           (Inl err, tr) \<Rightarrow> (Some err, tr)
         | (Inr registry, tr) \<Rightarrow>
             (case NewGatewayClient (dial E) (\<lambda>c. ask E (Conn_Close c)) stubs
                 (ResolverTarget ServiceLink) (ResolverTarget ServiceRedirect) (ResolverTarget ServiceStats)
                 (tr @ [Resolver_Register]) of
                (Inl err, tr1) \<Rightarrow> (Some err, tr1 @ [Etcd_Close])
              | (Inr client, tr1) \<Rightarrow>
                  (case ask E (Serve_http (cf_Addr cfg)) tr1 of
                     (err, tr2) \<Rightarrow>
                       (if err \<noteq> Some (pe_ErrServerClosed E) then err else None,
                        snd (gateway_Close (\<lambda>c. ask E (Conn_Close c)) client tr2) @ [Etcd_Close]))))"

definition gateway_main ::
  "process_env \<Rightarrow> (string \<Rightarrow> string \<Rightarrow> string \<Rightarrow> (string, sys_call list) GatewayClient) \<Rightarrow> ending \<times> sys_call list" where
  "gateway_main E stubs =
     (case runGateway E stubs (LoadService (pe_Getenv E) ''gateway'' '':8080'') of
        (None, tr) \<Rightarrow> (Returned, tr)
      | (Some err, tr) \<Rightarrow> (Fatal err, tr))"

section \<open>What a start-up has done when it ends\<close>

text \<open>
  The promise of a service: it serves only after it has registered the address it advertises and
  listens, and nothing else is called between; it makes its deferred calls exactly when it returns, which is
  after serving.
\<close>

definition registering :: "process_env \<Rightarrow> string \<Rightarrow> string \<Rightarrow> sys_call list" where
  "registering E name defaultAddr =
     (let ttl = cf_LeaseTTL (LoadEtcd (pe_ParseDuration E) (pe_Getenv E));
          addr = LoadAdvertiseAddr (pe_Getenv E) name (cf_Addr (LoadService (pe_Getenv E) name defaultAddr))
      in [Etcd_Grant (if ttl \<le> 0 then 10 else ttl), Etcd_Put (serviceKey name addr) addr, Etcd_KeepAlive])"

definition listening :: "process_env \<Rightarrow> string \<Rightarrow> string \<Rightarrow> sys_call" where
  "listening E name defaultAddr = Listen (cf_Addr (LoadService (pe_Getenv E) name defaultAddr))"

fun prepares :: "sys_call \<Rightarrow> bool" where
  "prepares Redis_Close = False" | "prepares Etcd_Close = False"
| "prepares (Listen a) = False" | "prepares (Serve_grpc s) = False"
| "prepares c = True"

text \<open>How far a start-up came: \<open>pre\<close> are the calls before the registration is complete.\<close>

definition service_end :: "process_env \<Rightarrow> string \<Rightarrow> string \<Rightarrow> sys_call list \<Rightarrow> ending \<times> sys_call list \<Rightarrow> bool" where
  "service_end E name defaultAddr closes res \<longleftrightarrow>
     (\<exists>pre. list_all prepares pre \<and>
       ((\<exists>err. res = (Fatal err, pre)) \<or>
        (\<exists>err. res = (Fatal err, pre @ registering E name defaultAddr @ [listening E name defaultAddr])) \<or>
        (\<exists>err. res = (Fatal err, pre @ registering E name defaultAddr @ [listening E name defaultAddr, Serve_grpc name])) \<or>
        res = (Returned, pre @ registering E name defaultAddr @ [listening E name defaultAddr, Serve_grpc name] @ closes)))"

lemma service_end_fatal: "list_all prepares tr \<Longrightarrow> service_end E name defaultAddr closes (Fatal err, tr)"
  unfolding service_end_def by blast

lemma register_service_calls:
  assumes "register_service (pe_ParseDuration E) (pe_Getenv E) (etcd_New E) name defaultAddr tr = (v, tr1)"
  shows "\<exists>pre. list_all prepares pre \<and> tr1 = tr @ pre \<and>
    (v = Inr () \<longrightarrow> (\<exists>pre1. list_all prepares pre1 \<and> pre = pre1 @ registering E name defaultAddr))"
  using assms
  by (auto simp: register_service_def registry_Open_def registry_Register_def etcd_New_def ask_for_def ask_def
      registering_def Let_def split: if_splits option.splits)

lemma register_and_serve_end:
  assumes "list_all prepares tr"
  shows "service_end E name defaultAddr closes (register_and_serve E name defaultAddr closes tr)"
proof -
  obtain v tr1 where reg: "register_service (pe_ParseDuration E) (pe_Getenv E) (etcd_New E) name defaultAddr tr = (v, tr1)"
    by fastforce
  from register_service_calls [OF this] obtain pre where pre: "list_all prepares pre" "tr1 = tr @ pre"
    "v = Inr () \<longrightarrow> (\<exists>pre1. list_all prepares pre1 \<and> pre = pre1 @ registering E name defaultAddr)" by blast
  show ?thesis
  proof (cases v)
    case (Inl err)
    then show ?thesis using reg pre assms by (simp add: register_and_serve_def service_end_fatal)
  next
    case (Inr u)
    with pre obtain pre1 where "list_all prepares pre1" "tr1 = (tr @ pre1) @ registering E name defaultAddr" by auto
    with Inr reg assms show ?thesis
      unfolding service_end_def
      by (intro exI [of _ "tr @ pre1"])
        (auto simp: register_and_serve_def or_fatal_def ask_def listening_def split: option.splits)
  qed
qed

text \<open>The calls of \<open>mysql.Open\<close>; the last three only without an error.\<close>

lemma mysql_Open_prepares:
  "mysql_Open E cfg tr = (err, tr1) \<Longrightarrow> list_all prepares tr \<Longrightarrow> list_all prepares tr1"
  by (auto simp: mysql_Open_def or_return_def ask_def split: option.splits if_splits)

lemma prepares_parts:
  "list_all prepares tr \<Longrightarrow> list_all prepares (redis_Open cfg tr)"
  "list_all prepares tr \<Longrightarrow> list_all prepares (start_filter E tr)"
  by (simp_all add: redis_Open_def start_filter_def ask_def)

text \<open>The gateway closes the registry and every connection it has, however \<open>runGateway\<close> ends.\<close>

definition gateway_end :: "process_env \<Rightarrow> ServiceConfig \<Rightarrow> go_error option \<times> sys_call list \<Rightarrow> bool" where
  "gateway_end E cfg res \<longleftrightarrow>
     (let c1 = ResolverTarget ServiceLink; c2 = ResolverTarget ServiceRedirect; c3 = ResolverTarget ServiceStats;
          d = (\<lambda>c. Dial c (3 * second))
      in (\<exists>err. res = (Some err, [])) \<or>
         (\<exists>err endpoints timeout. res = (Some err, [Etcd_New endpoints timeout])) \<or>
         (\<exists>e endpoints timeout calls. res = (e, [Etcd_New endpoints timeout, Resolver_Register] @ calls @ [Etcd_Close]) \<and>
           (e \<noteq> None \<and> calls \<in> {[d c1], [d c1, d c2, Conn_Close c1], [d c1, d c2, d c3, Conn_Close c1, Conn_Close c2]} \<or>
            calls = [d c1, d c2, d c3, Serve_http (cf_Addr cfg), Conn_Close c1, Conn_Close c2, Conn_Close c3])))"

lemma gateway_Close_calls:
  "snd (gateway_Close (\<lambda>c. ask E (Conn_Close c)) (c\<lparr>gw_linkConn := Some c1, gw_redirectConn := Some c2, gw_statsConn := Some c3,
     gw_timeout := t\<rparr>) tr) = tr @ [Conn_Close c1, Conn_Close c2, Conn_Close c3]"
  by (simp add: gateway_Close_def close_conn_def ask_def split: option.splits)

lemma NewGatewayClient_calls:
  assumes "NewGatewayClient (dial E) (\<lambda>c. ask E (Conn_Close c)) stubs c1 c2 c3 tr = (v, tr1)"
  shows "case v of
      Inl err \<Rightarrow> (\<exists>calls \<in> {[Dial c1 (3 * second)], [Dial c1 (3 * second), Dial c2 (3 * second), Conn_Close c1],
         [Dial c1 (3 * second), Dial c2 (3 * second), Dial c3 (3 * second), Conn_Close c1, Conn_Close c2]}. tr1 = tr @ calls)
    | Inr client \<Rightarrow> tr1 = tr @ [Dial c1 (3 * second), Dial c2 (3 * second), Dial c3 (3 * second)] \<and>
        (\<forall>tr2. snd (gateway_Close (\<lambda>c. ask E (Conn_Close c)) client tr2) = tr2 @ [Conn_Close c1, Conn_Close c2, Conn_Close c3])"
  using assms gateway_Close_calls [where c = "stubs c1 c2 c3"]
  by (auto simp: NewGatewayClient_def dial_def ask_for_def ask_def split: option.splits)

lemma runGateway_end: "gateway_end E cfg (runGateway E stubs cfg)"
proof -
  let ?new = "registry_Open (etcd_New E) (cf_Endpoints (LoadEtcd (pe_ParseDuration E) (pe_Getenv E)))
    (cf_EtcdDialTimeout (LoadEtcd (pe_ParseDuration E) (pe_Getenv E))) []"
  obtain v tr where new: "?new = (v, tr)" by fastforce
  then have tr: "tr = [] \<and> (\<exists>err. v = Inl err) \<or> (\<exists>endpoints timeout. tr = [Etcd_New endpoints timeout])"
    by (auto simp: registry_Open_def etcd_New_def ask_for_def ask_def split: if_splits option.splits)
  show ?thesis
  proof (cases v)
    case (Inl err)
    with new tr show ?thesis by (auto simp: runGateway_def gateway_end_def Let_def)
  next
    case (Inr registry)
    with tr obtain endpoints timeout where one: "tr = [Etcd_New endpoints timeout]" by auto
    obtain u tr1 where client: "NewGatewayClient (dial E) (\<lambda>c. ask E (Conn_Close c)) stubs
        (ResolverTarget ServiceLink) (ResolverTarget ServiceRedirect) (ResolverTarget ServiceStats)
        (tr @ [Resolver_Register]) = (u, tr1)" by fastforce
    show ?thesis
    proof (cases u)
      case (Inl err)
      with NewGatewayClient_calls [OF client] new Inr client one show ?thesis
        by (auto simp: runGateway_def gateway_end_def Let_def)
    next
      case (Inr c)
      with NewGatewayClient_calls [OF client] new \<open>v = Inr registry\<close> client one show ?thesis
        by (auto simp: runGateway_def gateway_end_def Let_def ask_def)
    qed
  qed
qed

section \<open>The end of a gRPC server\<close>

text \<open>\<open>Serve\<close>, by what its two \<open>select\<close>s see; \<open>rpcs\<close> is the number of calls in flight, for which \<open>GracefulStop\<close> waits.\<close>

datatype serve_point = Serving | Stopping | Served "go_error option"
datatype serve_case = Srv_error "go_error option" | Srv_done | Srv_stopped | Srv_after

fun serve_select :: "bool \<Rightarrow> nat \<Rightarrow> serve_case \<Rightarrow> serve_point \<Rightarrow> serve_point option" where
  "serve_select cancelled rpcs (Srv_error err) Serving = Some (Served err)"
| "serve_select cancelled rpcs Srv_done Serving = (if cancelled then Some Stopping else None)"
| "serve_select cancelled rpcs Srv_stopped Stopping = (if rpcs = 0 then Some (Served None) else None)"
| "serve_select cancelled rpcs Srv_after Stopping = Some (Served None)"
| "serve_select cancelled rpcs _ _ = None"

text \<open>After the cancellation \<open>Serve\<close> is at most two cases from its end and never stuck.\<close>

fun serve_left :: "serve_point \<Rightarrow> nat" where
  "serve_left Serving = 2" | "serve_left Stopping = 1" | "serve_left (Served err) = 0"

lemma serve_select_less: "serve_select cancelled rpcs c p = Some p' \<Longrightarrow> serve_left p' < serve_left p"
  by (cases "(cancelled, rpcs, c, p)" rule: serve_select.cases) (auto split: if_splits)

lemma serve_select_ready: "p = Serving \<or> p = Stopping \<Longrightarrow> \<exists>c p'. serve_select True rpcs c p = Some p'"
  by (metis serve_select.simps(2,4))

text \<open>\<open>health.Run\<close> waits for the server after \<open>Shutdown\<close>; \<open>served\<close> is what \<open>srv.Serve\<close> returns.\<close>

definition health_Run :: "go_error \<Rightarrow> go_error option \<Rightarrow> bool \<Rightarrow> go_error option \<Rightarrow> go_error \<Rightarrow> go_error option" where
  "health_Run ErrServerClosed listen_err ctx_first shutdown_err served =
     (case listen_err of
        Some err \<Rightarrow> Some err
      | None \<Rightarrow>
          (case (if ctx_first then shutdown_err else None) of
             Some err \<Rightarrow> Some err
           | None \<Rightarrow> (if errors_Is served ErrServerClosed then None else Some served)))"

lemma health_Run_nil:
  "health_Run ErrServerClosed listen_err ctx_first shutdown_err served = None \<longleftrightarrow>
   listen_err = None \<and> (ctx_first \<longrightarrow> shutdown_err = None) \<and> errors_Is served ErrServerClosed"
  by (auto simp: health_Run_def split: option.splits)

section \<open>The end of statsvc\<close>

text \<open>
  The signal cancels one context, on which both the recorder's goroutine and \<open>Serve\<close> wait. \<open>main\<close> returns
  when \<open>Serve\<close> has returned, and the process ends with it. Calls arrive while the server serves.
\<close>

record 'w statsvc_process =
  sp_recording :: "'w recording"
  sp_serve :: serve_point
  sp_rpcs :: nat
  sp_exited :: bool

definition recorded ::
  "'w Recorder \<Rightarrow> VisitEvent \<Rightarrow> go_error option \<Rightarrow> VisitEvent chan \<Rightarrow> 'w \<Rightarrow> 'w recording \<Rightarrow> 'w recording" where
  "recorded r event err q w g =
     (if err = None then take_event (stamped r (rg_world g) event) g else g)\<lparr>rg_queue := q, rg_world := w\<rparr>"

definition signalled :: "'w statsvc_process \<Rightarrow> 'w statsvc_process" where
  "signalled s = s\<lparr>sp_recording := (sp_recording s)\<lparr>rg_cancelled := True\<rparr>\<rparr>"

inductive statsvc_step :: "'w Recorder \<Rightarrow> 'w statsvc_process \<Rightarrow> 'w statsvc_process \<Rightarrow> bool" for r where
  rpc_begins: "\<not> sp_exited s \<Longrightarrow> sp_serve s = Serving \<Longrightarrow> statsvc_step r s (s\<lparr>sp_rpcs := Suc (sp_rpcs s)\<rparr>)"
| rpc_records: "\<not> sp_exited s \<Longrightarrow> 0 < sp_rpcs s \<Longrightarrow> g = sp_recording s \<Longrightarrow>
    Record r pick ctx_Err event (rg_queue g, rg_world g) = (err, q, w) \<Longrightarrow>
    statsvc_step r s (s\<lparr>sp_recording := recorded r event err q w g\<rparr>)"
| rpc_ends: "\<not> sp_exited s \<Longrightarrow> 0 < sp_rpcs s \<Longrightarrow> statsvc_step r s (s\<lparr>sp_rpcs := sp_rpcs s - 1\<rparr>)"
| signal: "\<not> sp_exited s \<Longrightarrow> statsvc_step r s (signalled s)"
| collects: "\<not> sp_exited s \<Longrightarrow> g = sp_recording s \<Longrightarrow>
    collector_step r (rg_cancelled g) c (rg_point g, rg_queue g, rg_world g) = Some (k, q, logs, err, w) \<Longrightarrow>
    statsvc_step r s (s\<lparr>sp_recording := g\<lparr>rg_point := k, rg_queue := q, rg_world := w,
      rg_flushes := rg_flushes g @ (if logs = [] then [] else [(logs, err)])\<rparr>\<rparr>)"
| serves: "\<not> sp_exited s \<Longrightarrow> serve_select (rg_cancelled (sp_recording s)) (sp_rpcs s) c (sp_serve s) = Some p \<Longrightarrow>
    statsvc_step r s (s\<lparr>sp_serve := p\<rparr>)"
| exits: "\<not> sp_exited s \<Longrightarrow> sp_serve s = Served err \<Longrightarrow> statsvc_step r s (s\<lparr>sp_exited := True\<rparr>)"

definition statsvc_start :: "'w recording \<Rightarrow> 'w statsvc_process" where
  "statsvc_start g = \<lparr>sp_recording = g, sp_serve = Serving, sp_rpcs = 0, sp_exited = False\<rparr>"

text \<open>The recorder sees a run of its own.\<close>

lemma statsvc_recorder_step:
  "statsvc_step r s s' \<Longrightarrow> (recorder_step r)\<^sup>*\<^sup>* (sp_recording s) (sp_recording s')"
proof (induction rule: statsvc_step.induct)
  case (rpc_records s g pick ctx_Err event err q w)
  then show ?case
    using recorder_step.accepted [of r pick ctx_Err event g q w] recorder_step.refused [of r pick ctx_Err event g]
    by (cases err) (auto simp: recorded_def)
next
  case (collects s g c k q logs err w)
  then show ?case using recorder_step.goroutine [of r g c k q logs err w] by auto
qed (auto simp: signalled_def intro: recorder_step.cancel)

lemma statsvc_recorder_run:
  "(statsvc_step r)\<^sup>*\<^sup>* s s' \<Longrightarrow> (recorder_step r)\<^sup>*\<^sup>* (sp_recording s) (sp_recording s')"
  by (induction rule: rtranclp_induct) (auto dest: statsvc_recorder_step intro: rtranclp_trans)

text \<open>A visit is accepted, the signal comes, and \<open>main\<close> returns before the goroutine moves.\<close>

definition lost_visit :: VisitEvent where
  "lost_visit = \<lparr>ve_Code = ''1Z'', ve_IP = [], ve_UserAgent = [], ve_Referer = [], ve_VisitedAt = 1\<rparr>"

definition after_visit :: "'w recording \<Rightarrow> 'w recording" where
  "after_visit g = g\<lparr>rg_early := [lost_visit], rg_queue := (rg_queue g)\<lparr>buffered := [lost_visit]\<rparr>\<rparr>"

lemma statsvc_loses:
  fixes g :: "'w recording"
  assumes "buffered (rg_queue g) = []" and "0 < capacity (rg_queue g)" and "\<not> rg_cancelled g" and "rg_early g = []"
  shows "\<exists>s. (statsvc_step r)\<^sup>*\<^sup>* (statsvc_start g) s \<and> sp_exited s \<and> sp_serve s = Served None \<and>
    sp_recording s = (after_visit g)\<lparr>rg_cancelled := True\<rparr>"
proof -
  let ?s0 = "statsvc_start g" and ?g = "after_visit g"
  let ?s1 = "?s0\<lparr>sp_rpcs := 1\<rparr>"
  let ?s2 = "?s1\<lparr>sp_recording := ?g\<rparr>"
  let ?s3 = "?s2\<lparr>sp_rpcs := 0\<rparr>"
  let ?s4 = "?s3\<lparr>sp_recording := ?g\<lparr>rg_cancelled := True\<rparr>\<rparr>"
  let ?s5 = "?s4\<lparr>sp_serve := Stopping\<rparr>"
  let ?s6 = "?s4\<lparr>sp_serve := Served None\<rparr>"
  have "statsvc_step r ?s0 ?s1" using statsvc_step.rpc_begins [of ?s0 r] by (simp add: statsvc_start_def)
  moreover have "statsvc_step r ?s1 ?s2"
  proof -
    let ?q = "(rg_queue g)\<lparr>buffered := [lost_visit]\<rparr>"
    have "Record r True None lost_visit (rg_queue g, rg_world g) = (None, ?q, rg_world g)"
      using assms(1,2) by (simp add: Record_def lost_visit_def time_is_zero_def zero_time_def chan_send_def)
    from statsvc_step.rpc_records [OF _ _ refl, of ?s1, simplified, unfolded statsvc_start_def, simplified, OF this]
    show ?thesis using assms(3,4) by (simp add: recorded_def after_visit_def take_event_def statsvc_start_def stamped_def lost_visit_def
          time_is_zero_def zero_time_def)
  qed
  moreover have "statsvc_step r ?s2 ?s3" using statsvc_step.rpc_ends [of ?s2 r] by (simp add: statsvc_start_def)
  moreover have "statsvc_step r ?s3 ?s4" using statsvc_step.signal [of ?s3 r] by (simp add: statsvc_start_def signalled_def)
  moreover have "statsvc_step r ?s4 ?s5" using statsvc_step.serves [of ?s4 Srv_done Stopping r] by (simp add: statsvc_start_def)
  moreover have "statsvc_step r ?s5 ?s6"
    using statsvc_step.serves [of ?s5 Srv_stopped "Served None" r] by (simp add: statsvc_start_def)
  moreover have "statsvc_step r ?s6 (?s6\<lparr>sp_exited := True\<rparr>)"
    using statsvc_step.exits [of ?s6 None r] by (simp add: statsvc_start_def)
  ultimately have "(statsvc_step r)\<^sup>*\<^sup>* ?s0 (?s6\<lparr>sp_exited := True\<rparr>)"
    by (meson converse_rtranclp_into_rtranclp rtranclp.rtrancl_refl)
  then show ?thesis by (intro exI [of _ "?s6\<lparr>sp_exited := True\<rparr>"]) simp
qed

lemma statsvc_exited_stops: "sp_exited s \<Longrightarrow> \<not> statsvc_step r s s'"
  by (auto elim: statsvc_step.cases)

text \<open>In every state the signal can end the process before the recorder's goroutine moves again.\<close>

lemma statsvc_can_exit:
  assumes "\<not> sp_exited s"
  shows "\<exists>s'. (statsvc_step r)\<^sup>*\<^sup>* s s' \<and> sp_exited s' \<and> sp_recording s' = (sp_recording s)\<lparr>rg_cancelled := True\<rparr>"
proof -
  let ?s1 = "signalled s"
  have signal: "statsvc_step r s ?s1" using assms by (rule statsvc_step.signal)
  have leave: "statsvc_step r (?s1\<lparr>sp_serve := Served err\<rparr>) (?s1\<lparr>sp_serve := Served err, sp_exited := True\<rparr>)" for err
    using statsvc_step.exits [of "?s1\<lparr>sp_serve := Served err\<rparr>" err r] assms by (simp add: signalled_def)
  have stop: "statsvc_step r (?s1\<lparr>sp_serve := Stopping\<rparr>) (?s1\<lparr>sp_serve := Served None\<rparr>)"
    using statsvc_step.serves [of "?s1\<lparr>sp_serve := Stopping\<rparr>" Srv_after "Served None" r] assms by (simp add: signalled_def)
  have "\<exists>err. (statsvc_step r)\<^sup>*\<^sup>* ?s1 (?s1\<lparr>sp_serve := Served err, sp_exited := True\<rparr>)"
  proof (cases "sp_serve s")
    case Serving
    then have "statsvc_step r ?s1 (?s1\<lparr>sp_serve := Stopping\<rparr>)"
      using statsvc_step.serves [of ?s1 Srv_done Stopping r] assms by (simp add: signalled_def)
    with stop leave show ?thesis by (meson converse_rtranclp_into_rtranclp rtranclp.rtrancl_refl)
  next
    case Stopping
    then have "?s1 = ?s1\<lparr>sp_serve := Stopping\<rparr>" by (simp add: signalled_def)
    with stop leave show ?thesis by (metis converse_rtranclp_into_rtranclp rtranclp.rtrancl_refl)
  next
    case (Served err)
    then have "?s1 = ?s1\<lparr>sp_serve := Served err\<rparr>" by (simp add: signalled_def)
    with leave show ?thesis by (metis r_into_rtranclp)
  qed
  then obtain err where run: "(statsvc_step r)\<^sup>*\<^sup>* ?s1 (?s1\<lparr>sp_serve := Served err, sp_exited := True\<rparr>)" by blast
  show ?thesis
    by (intro exI [of _ "?s1\<lparr>sp_serve := Served err, sp_exited := True\<rparr>"] conjI
        converse_rtranclp_into_rtranclp [of "statsvc_step r", OF signal run]) (simp_all add: signalled_def)
qed

section \<open>The end of the gateway\<close>

text \<open>
  \<open>ListenAndServe\<close> returns as soon as \<open>Shutdown\<close> is called, as net/http documents, and \<open>runGateway\<close> with it;
  \<open>Shutdown\<close> itself waits for the requests in flight, in a goroutine for which nobody waits.
\<close>

datatype shutdown_point = Not_called | Waiting | Finished

record gateway_process =
  gp_requests :: nat
  gp_cancelled :: bool
  gp_listening :: bool
  gp_shutdown :: shutdown_point
  gp_exited :: bool

inductive gateway_step :: "gateway_process \<Rightarrow> gateway_process \<Rightarrow> bool" where
  begins: "\<not> gp_exited s \<Longrightarrow> gp_listening s \<Longrightarrow> gateway_step s (s\<lparr>gp_requests := Suc (gp_requests s)\<rparr>)"
| answers: "\<not> gp_exited s \<Longrightarrow> 0 < gp_requests s \<Longrightarrow> gateway_step s (s\<lparr>gp_requests := gp_requests s - 1\<rparr>)"
| signal: "\<not> gp_exited s \<Longrightarrow> gateway_step s (s\<lparr>gp_cancelled := True\<rparr>)"
| shutdown: "\<not> gp_exited s \<Longrightarrow> gp_cancelled s \<Longrightarrow> gp_shutdown s = Not_called \<Longrightarrow>
    gateway_step s (s\<lparr>gp_listening := False, gp_shutdown := Waiting\<rparr>)"
| drained: "\<not> gp_exited s \<Longrightarrow> gp_shutdown s = Waiting \<Longrightarrow> gp_requests s = 0 \<Longrightarrow> gateway_step s (s\<lparr>gp_shutdown := Finished\<rparr>)"
| timeout: "\<not> gp_exited s \<Longrightarrow> gp_shutdown s = Waiting \<Longrightarrow> gateway_step s (s\<lparr>gp_shutdown := Finished\<rparr>)"
| fails: "\<not> gp_exited s \<Longrightarrow> gp_listening s \<Longrightarrow> gateway_step s (s\<lparr>gp_listening := False\<rparr>)"
| exits: "\<not> gp_exited s \<Longrightarrow> \<not> gp_listening s \<Longrightarrow> gateway_step s (s\<lparr>gp_exited := True\<rparr>)"

definition gateway_start :: gateway_process where
  "gateway_start = \<lparr>gp_requests = 0, gp_cancelled = False, gp_listening = True, gp_shutdown = Not_called, gp_exited = False\<rparr>"

text \<open>A request that is being answered when the signal comes is cut off: the process ends while \<open>Shutdown\<close> waits.\<close>

lemma gateway_cuts_requests:
  "\<exists>s. gateway_step\<^sup>*\<^sup>* gateway_start s \<and> gp_exited s \<and> gp_cancelled s \<and> gp_requests s = 1 \<and> gp_shutdown s = Waiting"
proof -
  let ?s1 = "gateway_start\<lparr>gp_requests := 1\<rparr>"
  let ?s2 = "?s1\<lparr>gp_cancelled := True\<rparr>"
  let ?s3 = "?s2\<lparr>gp_listening := False, gp_shutdown := Waiting\<rparr>"
  have "gateway_step gateway_start ?s1" using gateway_step.begins [of gateway_start] by (simp add: gateway_start_def)
  moreover have "gateway_step ?s1 ?s2" using gateway_step.signal [of ?s1] by (simp add: gateway_start_def)
  moreover have "gateway_step ?s2 ?s3" using gateway_step.shutdown [of ?s2] by (simp add: gateway_start_def)
  moreover have "gateway_step ?s3 (?s3\<lparr>gp_exited := True\<rparr>)" using gateway_step.exits [of ?s3] by (simp add: gateway_start_def)
  ultimately have "gateway_step\<^sup>*\<^sup>* gateway_start (?s3\<lparr>gp_exited := True\<rparr>)"
    by (meson converse_rtranclp_into_rtranclp rtranclp.rtrancl_refl)
  then show ?thesis by (intro exI [of _ "?s3\<lparr>gp_exited := True\<rparr>"]) simp
qed

text \<open>The gateway's process ends only after the signal or a failure of the server, and listens until then.\<close>

lemma gateway_exit_cause: "gateway_step\<^sup>*\<^sup>* gateway_start s \<Longrightarrow> gp_shutdown s \<noteq> Not_called \<longrightarrow> gp_cancelled s \<and> \<not> gp_listening s"
  by (induction rule: rtranclp_induct) (auto simp: gateway_start_def elim!: gateway_step.cases)

section \<open>Properties\<close>

text \<open>
  C36 (safety). What the start-ups have done when they end, in every environment. A service serves only after it
  has registered and listens, and makes its deferred calls exactly when it has served and returns; when it ends
  before, nothing is closed, so that a service that fails to listen leaves its registration behind. The gateway closes the
  registry and all connections it opened on every path, a failure to connect to the second or third service included. The worker
  waits for the signal and starts the scheduler only when it is enabled.
\<close>

theorem process_starts:
  "service_end E ''linksvc'' '':8081'' [Etcd_Close, Redis_Close] (linksvc_main E) \<and>
   service_end E ''redirectsvc'' '':8082'' [Etcd_Close, Redis_Close] (redirectsvc_main E) \<and>
   service_end E ''statsvc'' '':8083'' [Etcd_Close] (statsvc_main E) \<and>
   (\<exists>e. gateway_end E (LoadService (pe_Getenv E) ''gateway'' '':8080'') (e, snd (gateway_main E stubs)) \<and>
     fst (gateway_main E stubs) = (case e of None \<Rightarrow> Returned | Some err \<Rightarrow> Fatal err)) \<and>
   (\<exists>pre started. list_all prepares pre \<and>
     ((\<exists>err. worker_main E = (Fatal err, pre)) \<or>
      worker_main E = (Returned, pre @ started @ [Wait_done, Redis_Close]) \<and>
      started = (let cfg = LoadCleanup (pe_ParseDuration E) (pe_Getenv E)
                 in if cf_Enabled cfg then [Start_scheduler (cf_Interval cfg)] else [])))"
proof -
  obtain err tr where db: "mysql_Open E (process_mysql (LoadMySQL (pe_Getenv E))) [] = (err, tr)" by fastforce
  from mysql_Open_prepares [OF this] have tr: "list_all prepares tr" by simp
  note parts = tr prepares_parts [OF tr] prepares_parts(2) [OF prepares_parts(1) [OF tr]]
  have "service_end E ''linksvc'' '':8081'' [Etcd_Close, Redis_Close] (linksvc_main E)"
    using db parts by (auto simp: linksvc_main_def or_fatal_def Let_def ServiceLink_def
        intro!: service_end_fatal register_and_serve_end split: option.splits sum.splits)
  moreover have "service_end E ''redirectsvc'' '':8082'' [Etcd_Close, Redis_Close] (redirectsvc_main E)"
    using db parts by (auto simp: redirectsvc_main_def or_fatal_def Let_def ServiceRedirect_def
        intro!: service_end_fatal register_and_serve_end split: option.splits)
  moreover have "service_end E ''statsvc'' '':8083'' [Etcd_Close] (statsvc_main E)"
    using db parts by (auto simp: statsvc_main_def or_fatal_def Let_def ServiceStats_def
        intro!: service_end_fatal register_and_serve_end split: option.splits sum.splits)
  moreover have "\<exists>e. gateway_end E (LoadService (pe_Getenv E) ''gateway'' '':8080'') (e, snd (gateway_main E stubs)) \<and>
      fst (gateway_main E stubs) = (case e of None \<Rightarrow> Returned | Some err \<Rightarrow> Fatal err)"
    using runGateway_end [of E "LoadService (pe_Getenv E) ''gateway'' '':8080''" stubs]
    by (auto simp: gateway_main_def split: prod.splits option.splits)
  moreover have "\<exists>pre started. list_all prepares pre \<and>
     ((\<exists>err. worker_main E = (Fatal err, pre)) \<or>
      worker_main E = (Returned, pre @ started @ [Wait_done, Redis_Close]) \<and>
      started = (let cfg = LoadCleanup (pe_ParseDuration E) (pe_Getenv E)
                 in if cf_Enabled cfg then [Start_scheduler (cf_Interval cfg)] else []))"
    using db tr prepares_parts(1) [OF tr]
    by (auto simp: worker_main_def or_fatal_def Let_def split: option.splits)
  ultimately show ?thesis by blast
qed

text \<open>
  C35 (bounds). What the end of the process of \<open>statsvc\<close> loses, over MySQL. In every state, the one in which the process
  has ended included, the accepted visits are some that were handed to MySQL, each of which has its row or was in a
  batch that MySQL refused, followed by fewer than 4296 that are still held, which is a queue and a batch; if the
  goroutine has closed \<open>Done\<close>, none accepted before the signal is among these. \<open>main\<close> does not wait for that: from
  every state the process can end without another step of the goroutine, and then no step follows, so that what is held
  is lost; and there is a run without any failure in which the only visit, accepted before the signal, is lost.
\<close>

theorem statsvc_exit:
  assumes "visit_laws vt st ok V" and "ok d"
    and "(statsvc_step (statsvc_recorder now V))\<^sup>*\<^sup>* (statsvc_start (statsvc_recording now V d ids)) s"
  shows "(\<exists>handed missing. rg_early (sp_recording s) @ rg_late (sp_recording s) = handed @ missing \<and> length missing < 4296 \<and>
      (\<forall>e \<in> set handed. visit_written vt (sp_recording s) e \<or> visit_refused (sp_recording s) e) \<and>
      (Done_closed (sp_recording s) \<longrightarrow> (\<exists>rest. handed = rg_early (sp_recording s) @ rest))) \<and>
    (if sp_exited s then \<forall>s'. \<not> statsvc_step (statsvc_recorder now V) s s'
     else \<exists>s'. (statsvc_step (statsvc_recorder now V))\<^sup>*\<^sup>* s s' \<and> sp_exited s' \<and>
       sp_recording s' = (sp_recording s)\<lparr>rg_cancelled := True\<rparr>) \<and>
    (\<exists>lost. (statsvc_step (statsvc_recorder now V))\<^sup>*\<^sup>* (statsvc_start (statsvc_recording now V d ids)) lost \<and>
      sp_exited lost \<and> sp_serve lost = Served None \<and> rg_early (sp_recording lost) = [lost_visit] \<and>
      rg_flushes (sp_recording lost) = [] \<and> vt (fst (rg_world (sp_recording lost))) = vt d)"
proof (intro conjI)
  let ?r = "statsvc_recorder now V" and ?g = "statsvc_recording now V d ids" and ?s = "sp_recording s"
  have run: "(recorder_step ?r)\<^sup>*\<^sup>* ?g ?s" using statsvc_recorder_run [OF assms(3)] by (simp add: statsvc_start_def)
  note inv = recording_inv_run [OF run]
  have "rk_batchSize ?r = 200" "queue_capacity (statsvc_options now V) = 4096"
    by (simp_all add: NewRecorder_def Let_def rec_defaultBatchSize_def statsvc_options_def queue_capacity_def)
  with inv closed_flushed [OF inv] statsvc_rows(3) [OF assms(1,2) run]
  show "\<exists>handed missing. rg_early ?s @ rg_late ?s = handed @ missing \<and> length missing < 4296 \<and>
      (\<forall>e \<in> set handed. visit_written vt ?s e \<or> visit_refused ?s e) \<and>
      (Done_closed ?s \<longrightarrow> (\<exists>rest. handed = rg_early ?s @ rest))"
    unfolding recording_inv_def
    by (intro exI [of _ "map event_of (rg_flushed ?s)"] exI [of _ "map event_of (pending (rg_point ?s)) @ buffered (rg_queue ?s)"])
      auto
  show "if sp_exited s then \<forall>s'. \<not> statsvc_step ?r s s'
     else \<exists>s'. (statsvc_step ?r)\<^sup>*\<^sup>* s s' \<and> sp_exited s' \<and> sp_recording s' = ?s\<lparr>rg_cancelled := True\<rparr>"
    using statsvc_exited_stops statsvc_can_exit by auto
  have "buffered (rg_queue ?g) = []" "0 < capacity (rg_queue ?g)" "\<not> rg_cancelled ?g" "rg_early ?g = []"
    by (simp_all add: recording_start_def NewRecorder_def Let_def chan_make_def rec_defaultQueueSize_def)
  from statsvc_loses [OF this, of ?r]
  show "\<exists>lost. (statsvc_step ?r)\<^sup>*\<^sup>* (statsvc_start ?g) lost \<and> sp_exited lost \<and> sp_serve lost = Served None \<and>
      rg_early (sp_recording lost) = [lost_visit] \<and> rg_flushes (sp_recording lost) = [] \<and>
      vt (fst (rg_world (sp_recording lost))) = vt d"
    by (auto simp: after_visit_def recording_start_def)
qed

lemma statsvc_exit_witness:
  "\<exists>s. (statsvc_step (statsvc_recorder sample_clock mem_visit_db))\<^sup>*\<^sup>*
      (statsvc_start (statsvc_recording sample_clock mem_visit_db no_visits (sample_snowflake, 0))) s \<and>
    sp_exited s \<and> rg_early (sp_recording s) = [lost_visit] \<and> mv_visits (fst (rg_world (sp_recording s))) = []"
proof -
  have "mem_visits_ok no_visits" by (simp add: mem_visits_ok_def no_visits_def)
  from statsvc_exit [OF mem_visit_laws this rtranclp.rtrancl_refl, of sample_clock "(sample_snowflake, 0)"]
  show ?thesis by (auto simp: no_visits_def)
qed

end
