(* ===== verification/Loadtest.thy ===== *)
theory Loadtest
  imports Config "HOL-Library.Multiset"
begin

text \<open>
  \<open>cmd/loadtest/main.go\<close>: the load generator up to the result of a level. What the network answers, the
  random numbers, the clock and the end of a level's context are given turn by turn; the requests, the
  pool of codes, the workers and their statistics follow the code. \<open>Load_Report\<close> has the rest.
\<close>

section \<open>Flags\<close>

fun float_lt :: "float64 \<Rightarrow> float64 \<Rightarrow> bool" where
  "float_lt NaN y = False"
| "float_lt x NaN = False"
| "float_lt x y = (float_le x y \<and> x \<noteq> y)"

definition scenarioMixed :: string where "scenarioMixed = ''mixed''"
definition scenarioHotKey :: string where "scenarioHotKey = ''hot-key''"

record load_config =
  lt_baseURL :: string
  lt_levels :: "int list"
  lt_duration :: duration
  lt_writeRatio :: float64
  lt_seedCodes :: int
  lt_scenario :: string
  lt_hotKeys :: int
  lt_timeout :: duration
  lt_minSuccessRate :: float64

text \<open>The flags and their defaults; 0.30 is the nearest float.\<close>

definition default_levels :: string where "default_levels = ''50,100,200,300,500''"

definition default_flags :: load_config where
  "default_flags = \<lparr>
     lt_baseURL = ''http://127.0.0.1:8080'',
     lt_levels = [],
     lt_duration = 20 * second,
     lt_writeRatio = Finite (5404319552844595 / 2 ^ 54),
     lt_seedCodes = 200,
     lt_scenario = scenarioMixed,
     lt_hotKeys = 1,
     lt_timeout = 5 * second,
     lt_minSuccessRate = Finite 99\<rparr>"

text \<open>The loop of \<open>parseLevels\<close>; \<open>quote\<close> is the verb \<open>%q\<close>.\<close>

fun levels_loop :: "(string \<Rightarrow> string) \<Rightarrow> string list \<Rightarrow> int list \<Rightarrow> go_error + int list" where
  "levels_loop quote [] levels = Inr levels"
| "levels_loop quote (p # parts) levels =
     (let part = TrimSpace p
      in if part = [] then levels_loop quote parts levels
         else (case Atoi part of
                 None \<Rightarrow> Inl (Errorf (''invalid concurrency level '' @ quote part))
               | Some level \<Rightarrow>
                   (if level \<le> 0 then Inl (Errorf (''invalid concurrency level '' @ quote part))
                    else levels_loop quote parts (levels @ [level]))))"

definition parseLevels :: "(string \<Rightarrow> string) \<Rightarrow> string \<Rightarrow> go_error + int list" where
  "parseLevels quote value =
     (case levels_loop quote (split_on CHR '','' value) [] of
        Inl err \<Rightarrow> Inl err
      | Inr [] \<Rightarrow> Inl (Errorf ''levels must contain at least one positive integer'')
      | Inr (l # ls) \<Rightarrow> Inr (l # ls))"

text \<open>\<open>parseFlags\<close> once the flags are read: \<open>levels\<close> is the flag's text, \<open>cfg\<close> holds the others.\<close>

definition parseFlags :: "(string \<Rightarrow> string) \<Rightarrow> string \<Rightarrow> load_config \<Rightarrow> go_error + load_config" where
  "parseFlags quote levels cfg =
     (case parseLevels quote levels of
        Inl err \<Rightarrow> Inl err
      | Inr parsed \<Rightarrow>
          (if lt_duration cfg \<le> 0 then Inl (Errorf ''duration must be positive'')
           else if float_lt (lt_writeRatio cfg) (Finite 0) \<or> float_lt (Finite 1) (lt_writeRatio cfg)
           then Inl (Errorf ''write-ratio must be between 0 and 1'')
           else if lt_seedCodes cfg < 0 then Inl (Errorf ''seed-codes must be zero or positive'')
           else if lt_scenario cfg \<noteq> scenarioMixed \<and> lt_scenario cfg \<noteq> scenarioHotKey
           then Inl (Errorf (''scenario must be '' @ scenarioMixed @ '' or '' @ scenarioHotKey))
           else if lt_hotKeys cfg \<le> 0 then Inl (Errorf ''hot-keys must be positive'')
           else if lt_timeout cfg \<le> 0 then Inl (Errorf ''timeout must be positive'')
           else if float_lt (lt_minSuccessRate cfg) (Finite 0) \<or> float_lt (Finite 100) (lt_minSuccessRate cfg)
           then Inl (Errorf ''min-success must be between 0 and 100'')
           else Inr (cfg\<lparr>lt_baseURL := TrimRightByte CHR ''/'' (lt_baseURL cfg), lt_levels := parsed\<rparr>)))"

section \<open>The pool of codes\<close>

text \<open>\<open>intn n\<close> is \<open>rng.Intn(n)\<close>, a number below \<open>n\<close>; \<open>None\<close> stands for a false second result.\<close>

definition pool_add :: "string \<Rightarrow> string list \<Rightarrow> string list" where
  "pool_add code codes = (if code = [] then codes else codes @ [code])"

definition pool_random :: "(nat \<Rightarrow> nat) \<Rightarrow> string list \<Rightarrow> string option" where
  "pool_random intn codes = (if codes = [] then None else Some (codes ! intn (length codes)))"

definition pool_randomFirst :: "(nat \<Rightarrow> nat) \<Rightarrow> int \<Rightarrow> string list \<Rightarrow> string option" where
  "pool_randomFirst intn n codes =
     (if codes = [] \<or> n \<le> 0 then None
      else Some (codes ! intn (nat (if int (length codes) < n then int (length codes) else n))))"

definition selectReadCode :: "load_config \<Rightarrow> (nat \<Rightarrow> nat) \<Rightarrow> string list \<Rightarrow> string option" where
  "selectReadCode cfg intn codes =
     (if lt_scenario cfg = scenarioHotKey then pool_randomFirst intn (lt_hotKeys cfg) codes else pool_random intn codes)"

section \<open>Statistics\<close>

record opStats =
  os_total :: int
  os_success :: int
  os_statuses :: "int \<rightharpoonup> int"
  os_latencies :: "duration list"

definition newOpStats :: opStats where
  "newOpStats = \<lparr>os_total = 0, os_success = 0, os_statuses = Map.empty, os_latencies = []\<rparr>"

text \<open>Reading a missing key of a map gives 0.\<close>

definition add_status :: "int \<Rightarrow> int \<Rightarrow> (int \<rightharpoonup> int) \<Rightarrow> (int \<rightharpoonup> int)" where
  "add_status status n m = m(status \<mapsto> (case m status of None \<Rightarrow> 0 | Some k \<Rightarrow> k) + n)"

definition record_op :: "int \<Rightarrow> duration \<Rightarrow> bool \<Rightarrow> opStats \<Rightarrow> opStats" where
  "record_op status latency good s =
     s\<lparr>os_total := os_total s + 1, os_success := (if good then os_success s + 1 else os_success s),
       os_statuses := add_status status 1 (os_statuses s), os_latencies := os_latencies s @ [latency]\<rparr>"

text \<open>\<open>keys\<close>: the order in which \<open>range\<close> visits the map of \<open>other\<close>.\<close>

definition merge_ops :: "int list \<Rightarrow> opStats \<Rightarrow> opStats \<Rightarrow> opStats" where
  "merge_ops keys other s =
     s\<lparr>os_total := os_total s + os_total other, os_success := os_success s + os_success other,
       os_statuses := fold (\<lambda>status. add_status status (the (os_statuses other status))) keys (os_statuses s),
       os_latencies := os_latencies s @ os_latencies other\<rparr>"

record levelResult =
  lr_concurrency :: int
  lr_elapsed :: duration
  lr_write :: opStats
  lr_read :: opStats

definition level_total :: "levelResult \<Rightarrow> int" where
  "level_total r = os_total (lr_write r) + os_total (lr_read r)"

definition level_success :: "levelResult \<Rightarrow> int" where
  "level_success r = os_success (lr_write r) + os_success (lr_read r)"

section \<open>Requests\<close>

record http_request =
  rq_Method :: string
  rq_URL :: string
  rq_ContentType :: string
  rq_Body :: string

text \<open>\<open>hs_Body\<close> is what reading the body gives.\<close>

record http_response =
  hs_StatusCode :: int
  hs_Body :: "go_error + string"

text \<open>
  The client and the packages it needs: \<open>http.NewRequest\<close>, which refuses what it cannot parse, \<open>Do\<close> with
  the time it took, and the decoding of the field \<open>code\<close>.
\<close>

record load_net =
  ln_NewRequest :: "string \<Rightarrow> string \<Rightarrow> go_error option"
  ln_Do :: "http_request \<Rightarrow> (go_error + http_response) \<times> duration"
  ln_Unmarshal :: "string \<Rightarrow> go_error + string"

record http_client =
  hc_Timeout :: duration
  hc_MaxIdleConns :: int
  hc_MaxIdleConnsPerHost :: int
  hc_MaxConnsPerHost :: int
  hc_IdleConnTimeout :: duration
  hc_FollowRedirects :: bool

definition newHTTPClient :: "load_config \<Rightarrow> http_client" where
  "newHTTPClient cfg = \<lparr>hc_Timeout = lt_timeout cfg, hc_MaxIdleConns = 4096, hc_MaxIdleConnsPerHost = 4096,
     hc_MaxConnsPerHost = 4096, hc_IdleConnTimeout = 30 * second, hc_FollowRedirects = False\<rparr>"

definition quoted :: "string \<Rightarrow> string" where
  "quoted s = [CHR 0x22] @ s @ [CHR 0x22]"

definition load_body :: "int64 \<Rightarrow> uint64 \<Rightarrow> string" where
  "load_body nano n =
     ''{'' @ quoted ''long_url'' @ '':'' @
     quoted (''https://example.com/mixed-load/'' @ FormatInt (sint nano) @ ''/'' @ FormatInt (uint n)) @ ''}''"

definition doCreate :: "load_net \<Rightarrow> string \<Rightarrow> int64 \<Rightarrow> uint64 \<Rightarrow> int \<times> duration \<times> string" where
  "doCreate net baseURL nano n =
     (case ln_NewRequest net ''POST'' (baseURL @ ''/api/links'') of
        Some err \<Rightarrow> (0, 0, [])
      | None \<Rightarrow>
          (case ln_Do net \<lparr>rq_Method = ''POST'', rq_URL = baseURL @ ''/api/links'', rq_ContentType = ''application/json'',
                  rq_Body = load_body nano n\<rparr> of
             (Inl err, elapsed) \<Rightarrow> (0, elapsed, [])
           | (Inr resp, elapsed) \<Rightarrow>
               (case hs_Body resp of
                  Inl err \<Rightarrow> (hs_StatusCode resp, elapsed, [])
                | Inr data \<Rightarrow>
                    (if hs_StatusCode resp \<noteq> 201 then (hs_StatusCode resp, elapsed, [])
                     else (case ln_Unmarshal net data of
                             Inl err \<Rightarrow> (hs_StatusCode resp, elapsed, [])
                           | Inr code \<Rightarrow> (hs_StatusCode resp, elapsed, code))))))"

definition doRead :: "load_net \<Rightarrow> string \<Rightarrow> string \<Rightarrow> int \<times> duration" where
  "doRead net baseURL code =
     (case ln_NewRequest net ''GET'' (baseURL @ ''/'' @ code) of
        Some err \<Rightarrow> (0, 0)
      | None \<Rightarrow>
          (case ln_Do net \<lparr>rq_Method = ''GET'', rq_URL = baseURL @ ''/'' @ code, rq_ContentType = [], rq_Body = []\<rparr> of
             (Inl err, elapsed) \<Rightarrow> (0, elapsed)
           | (Inr resp, elapsed) \<Rightarrow> (hs_StatusCode resp, elapsed)))"

section \<open>Workers\<close>

text \<open>
  One turn of a worker's loop: whether it is to write, its random numbers, the network, the clock, and
  whether the level's context has ended by the time the request returns.
\<close>

record turn =
  tn_write :: bool
  tn_intn :: "nat \<Rightarrow> nat"
  tn_net :: load_net
  tn_nano :: int64
  tn_over :: bool

definition stoppedByLevelTimeout :: "bool \<Rightarrow> int \<Rightarrow> bool" where
  "stoppedByLevelTimeout over status \<longleftrightarrow> status = 0 \<and> over"

text \<open>
  What a worker works on: its own result, and the pool and the counter \<open>seq\<close> that it shares. The first
  component of the result says whether the loop goes on.
\<close>

type_synonym worker_state = "levelResult \<times> string list \<times> uint64"

definition worker_create :: "load_config \<Rightarrow> turn \<Rightarrow> worker_state \<Rightarrow> bool \<times> worker_state" where
  "worker_create cfg t lp =
     (case lp of (local, codes, seq) \<Rightarrow>
        (case doCreate (tn_net t) (lt_baseURL cfg) (tn_nano t) (seq + 1) of (status, latency, code) \<Rightarrow>
           (if stoppedByLevelTimeout (tn_over t) status then (False, local, codes, seq + 1)
            else (let good = (status = 201 \<and> code \<noteq> [])
                  in (True, local\<lparr>lr_write := record_op status latency good (lr_write local)\<rparr>,
                      if good then pool_add code codes else codes, seq + 1)))))"

definition worker_turn :: "load_config \<Rightarrow> turn \<Rightarrow> worker_state \<Rightarrow> bool \<times> worker_state" where
  "worker_turn cfg t lp =
     (if tn_write t then worker_create cfg t lp
      else (case selectReadCode cfg (tn_intn t) (fst (snd lp)) of
              None \<Rightarrow> worker_create cfg t lp
            | Some code \<Rightarrow>
                (case doRead (tn_net t) (lt_baseURL cfg) code of (status, latency) \<Rightarrow>
                   (if stoppedByLevelTimeout (tn_over t) status then (False, lp)
                    else (True, (fst lp)\<lparr>lr_read := record_op status latency (status = 302) (lr_read (fst lp))\<rparr>, snd lp)))))"

text \<open>The results of the workers, in the order in which they arrive; each with the orders of its maps.\<close>

fun merge_levels :: "(levelResult \<times> int list \<times> int list) list \<Rightarrow> levelResult \<Rightarrow> levelResult" where
  "merge_levels [] merged = merged"
| "merge_levels ((r, ws, rs) # results) merged =
     merge_levels results (merged\<lparr>lr_write := merge_ops ws (lr_write r) (lr_write merged),
       lr_read := merge_ops rs (lr_read r) (lr_read merged)\<rparr>)"

definition new_level :: "int \<Rightarrow> duration \<Rightarrow> levelResult" where
  "new_level concurrency elapsed =
     \<lparr>lr_concurrency = concurrency, lr_elapsed = elapsed, lr_write = newOpStats, lr_read = newOpStats\<rparr>"

text \<open>
  A level: the workers' turns in the order in which they touch the pool; \<open>Leaves i\<close>: worker \<open>i\<close> finds
  the context ended at the head of its loop. (A turn that finds the pool empty and creates a link does
  to the pool what a turn that writes does, so that nothing is lost by taking each as one step.)
\<close>

datatype level_event = Turn nat turn | Leaves nat

record level_run =
  lv_locals :: "(levelResult \<times> bool) list"
  lv_codes :: "string list"
  lv_seq :: uint64

fun level_step :: "load_config \<Rightarrow> level_event \<Rightarrow> level_run \<Rightarrow> level_run" where
  "level_step cfg (Turn i t) s =
     (if i < length (lv_locals s) \<and> snd (lv_locals s ! i)
      then (case worker_turn cfg t (fst (lv_locals s ! i), lv_codes s, lv_seq s) of (goes_on, local, codes, seq) \<Rightarrow>
              \<lparr>lv_locals = (lv_locals s)[i := (local, goes_on)], lv_codes = codes, lv_seq = seq\<rparr>)
      else s)"
| "level_step cfg (Leaves i) s =
     (if i < length (lv_locals s) then s\<lparr>lv_locals := (lv_locals s)[i := (fst (lv_locals s ! i), False)]\<rparr> else s)"

text \<open>
  \<open>arrivals\<close>: the order in which the results are received, with the orders of their maps. \<open>None\<close>: a worker has not
  come to its end, so that \<open>wg.Wait\<close> does not return.
\<close>

record level_env =
  le_events :: "level_event list"
  le_arrivals :: "(nat \<times> int list \<times> int list) list"
  le_elapsed :: duration
  le_cancelled :: bool

definition start_level :: "int \<Rightarrow> string list \<Rightarrow> level_run" where
  "start_level concurrency codes =
     \<lparr>lv_locals = replicate (nat concurrency) (new_level concurrency 0, True), lv_codes = codes, lv_seq = 0\<rparr>"

definition runLevel :: "load_config \<Rightarrow> level_env \<Rightarrow> int \<Rightarrow> string list \<Rightarrow> (levelResult \<times> string list) option" where
  "runLevel cfg env concurrency codes =
     (let s = fold (level_step cfg) (le_events env) (start_level concurrency codes)
      in if list_ex snd (lv_locals s) then None
         else Some (merge_levels (map (\<lambda>(i, ws, rs). (fst (lv_locals s ! i), ws, rs)) (le_arrivals env))
                      (new_level concurrency (le_elapsed env)), lv_codes s))"

text \<open>\<open>seed\<close>: \<open>net i\<close> and \<open>nano i\<close> are what the \<open>i\<close>-th creation finds. The second component is what is printed.\<close>

fun seed_loop :: "(nat \<Rightarrow> load_net) \<Rightarrow> (nat \<Rightarrow> int64) \<Rightarrow> string \<Rightarrow> nat \<Rightarrow> nat \<Rightarrow> int \<times> string list \<Rightarrow> int \<times> string list" where
  "seed_loop net nano baseURL i 0 okp = okp"
| "seed_loop net nano baseURL i (Suc n) okp =
     (case doCreate (net i) baseURL (nano i) (of_nat (i + 1)) of (status, latency, code) \<Rightarrow>
        seed_loop net nano baseURL (Suc i) n
          (if status = 201 \<and> code \<noteq> [] then (fst okp + 1, pool_add code (snd okp)) else okp))"

definition newline :: string where "newline = [CHR 0x0A]"

definition seed ::
  "(nat \<Rightarrow> load_net) \<Rightarrow> (nat \<Rightarrow> int64) \<Rightarrow> load_config \<Rightarrow> int \<Rightarrow> string list \<Rightarrow> go_error option \<times> string \<times> string list" where
  "seed net nano cfg n codes =
     (let out = ''seeding_codes='' @ FormatInt n @ '' base='' @ lt_baseURL cfg @ newline
      in case seed_loop net nano (lt_baseURL cfg) 0 (nat n) (0, codes) of
           (good, codes1) \<Rightarrow>
             (if good = 0 then (Some (Errorf ''could not create any seed short links''), out, codes1)
              else (None, out @ ''seeded_codes='' @ FormatInt good @ newline, codes1)))"

definition seed_count :: "load_config \<Rightarrow> int" where
  "seed_count cfg =
     (if lt_scenario cfg = scenarioHotKey \<and> lt_seedCodes cfg < lt_hotKeys cfg then lt_hotKeys cfg else lt_seedCodes cfg)"

section \<open>What a level is to report\<close>

text \<open>
  The requests of a level, without statistics: \<open>request_sent\<close> is the request of a turn with what came
  back, \<open>level_requests\<close> lists those of a sequence of events with the worker and whether the end of the
  level cut the request off (which ends the worker). \<open>running\<close> says which workers have not ended; the
  pool holds the codes of the creations that were answered before.
\<close>

datatype load_request = Create_sent int duration string | Read_sent string int duration

definition request_sent :: "load_config \<Rightarrow> turn \<Rightarrow> string list \<Rightarrow> uint64 \<Rightarrow> load_request" where
  "request_sent cfg t codes seq =
     (case (if tn_write t then None else selectReadCode cfg (tn_intn t) codes) of
        None \<Rightarrow> (case doCreate (tn_net t) (lt_baseURL cfg) (tn_nano t) (seq + 1) of
                   (status, latency, code) \<Rightarrow> Create_sent status latency code)
      | Some code \<Rightarrow> (case doRead (tn_net t) (lt_baseURL cfg) code of (status, latency) \<Rightarrow> Read_sent code status latency))"

fun cut_off :: "bool \<Rightarrow> load_request \<Rightarrow> bool" where
  "cut_off over (Create_sent status latency code) \<longleftrightarrow> over \<and> status = 0"
| "cut_off over (Read_sent code status latency) \<longleftrightarrow> over \<and> status = 0"

text \<open>Status, latency and success of a creation or of a read, and the code a creation has made.\<close>

fun write_ops :: "load_request \<Rightarrow> (int \<times> duration \<times> bool) list" where
  "write_ops (Create_sent status latency code) = [(status, latency, status = 201 \<and> code \<noteq> [])]"
| "write_ops (Read_sent code status latency) = []"

fun read_ops :: "load_request \<Rightarrow> (int \<times> duration \<times> bool) list" where
  "read_ops (Create_sent status latency code) = []"
| "read_ops (Read_sent code status latency) = [(status, latency, status = 302)]"

fun created_codes :: "load_request \<Rightarrow> string list" where
  "created_codes (Create_sent status latency code) = (if status = 201 \<and> code \<noteq> [] then [code] else [])"
| "created_codes (Read_sent code status latency) = []"

fun next_seq :: "load_request \<Rightarrow> uint64 \<Rightarrow> uint64" where
  "next_seq (Create_sent status latency code) seq = seq + 1"
| "next_seq (Read_sent code status latency) seq = seq"

fun level_requests ::
  "load_config \<Rightarrow> level_event list \<Rightarrow> bool list \<Rightarrow> string list \<Rightarrow> uint64 \<Rightarrow> (nat \<times> load_request \<times> bool) list" where
  "level_requests cfg [] running codes seq = []"
| "level_requests cfg (Leaves i # es) running codes seq = level_requests cfg es (running[i := False]) codes seq"
| "level_requests cfg (Turn i t # es) running codes seq =
     (if i < length running \<and> running ! i
      then (let q = request_sent cfg t codes seq; lost = cut_off (tn_over t) q
            in (i, q, lost) # level_requests cfg es (running[i := \<not> lost])
                 (if lost then codes else codes @ created_codes q) (next_seq q seq))
      else level_requests cfg es running codes seq)"

text \<open>The requests that were not cut off: of all workers, and of the worker \<open>i\<close>.\<close>

definition served :: "(nat \<times> load_request \<times> bool) list \<Rightarrow> load_request list" where
  "served qs = map (\<lambda>x. fst (snd x)) (filter (\<lambda>x. \<not> snd (snd x)) qs)"

definition served_by :: "nat \<Rightarrow> (nat \<times> load_request \<times> bool) list \<Rightarrow> load_request list" where
  "served_by i qs = served (filter (\<lambda>x. fst x = i) qs)"

text \<open>\<open>tallies\<close>: the statistics hold exactly these requests.\<close>

definition status_count :: "(int \<rightharpoonup> int) \<Rightarrow> int \<Rightarrow> int" where
  "status_count m c = (case m c of None \<Rightarrow> 0 | Some k \<Rightarrow> k)"

definition tallies :: "opStats \<Rightarrow> (int \<times> duration \<times> bool) multiset \<Rightarrow> bool" where
  "tallies s M \<longleftrightarrow>
     os_total s = int (size M) \<and>
     os_success s = int (size (filter_mset (\<lambda>(status, latency, good). good) M)) \<and>
     (\<forall>c. status_count (os_statuses s) c = int (size (filter_mset (\<lambda>(status, latency, good). status = c) M))) \<and>
     mset (os_latencies s) = image_mset (\<lambda>(status, latency, good). latency) M"

definition ops_of :: "(load_request \<Rightarrow> 'a list) \<Rightarrow> load_request list \<Rightarrow> 'a multiset" where
  "ops_of f qs = mset (concat (map f qs))"

lemma ops_of_simps [simp]: "ops_of f [] = {#}" "ops_of f (q # qs) = mset (f q) + ops_of f qs"
  by (simp_all add: ops_of_def)

lemma served_simps [simp]:
  "served [] = []" "served ((i, q, lost) # qs) = (if lost then served qs else q # served qs)"
  "served_by j [] = []"
  "served_by j ((i, q, lost) # qs) = (if i = j \<and> \<not> lost then q # served_by j qs else served_by j qs)"
  by (auto simp: served_def served_by_def)

lemma tallies_new [simp]: "tallies newOpStats {#}"
  by (simp add: tallies_def newOpStats_def status_count_def)

lemma status_count_add: "status_count (add_status c n m) d = status_count m d + (if d = c then n else 0)"
  by (simp add: status_count_def add_status_def split: option.splits)

lemma tallies_record: "tallies s M \<Longrightarrow> tallies (record_op status latency good s) (add_mset (status, latency, good) M)"
  by (auto simp: tallies_def record_op_def status_count_add)

lemma status_count_fold:
  "distinct keys \<Longrightarrow> status_count (fold (\<lambda>c. add_status c (f c)) keys m) d = status_count m d + (if d \<in> set keys then f d else 0)"
  by (induction keys arbitrary: m) (auto simp: status_count_add)

lemma tallies_merge:
  assumes "tallies other N" and "tallies s M" and "distinct keys" and "set keys = dom (os_statuses other)"
  shows "tallies (merge_ops keys other s) (M + N)"
proof -
  have "status_count (os_statuses (merge_ops keys other s)) c =
      status_count (os_statuses s) c + status_count (os_statuses other) c" for c
  proof -
    have "status_count (os_statuses (merge_ops keys other s)) c =
        status_count (os_statuses s) c + (if c \<in> dom (os_statuses other) then the (os_statuses other c) else 0)"
      using status_count_fold [OF assms(3), of "\<lambda>c. the (os_statuses other c)"] assms(4) by (simp add: merge_ops_def)
    then show ?thesis by (cases "os_statuses other c") (auto simp: status_count_def [of "os_statuses other"] domIff)
  qed
  with assms(1,2) show ?thesis by (simp add: tallies_def merge_ops_def)
qed

text \<open>A turn sends the request, and records and publishes what it brought unless it was cut off.\<close>

lemma worker_turn_result:
  assumes "worker_turn cfg t (local, codes, seq) = (goes_on, local', codes', seq')" and "request_sent cfg t codes seq = q"
  shows "goes_on = (\<not> cut_off (tn_over t) q) \<and> seq' = next_seq q seq \<and>
    (cut_off (tn_over t) q \<longrightarrow> local' = local \<and> codes' = codes) \<and>
    (\<not> cut_off (tn_over t) q \<longrightarrow> codes' = codes @ created_codes q \<and>
      (tallies (lr_write local) W \<longrightarrow> tallies (lr_write local') (W + mset (write_ops q))) \<and>
      (tallies (lr_read local) R \<longrightarrow> tallies (lr_read local') (R + mset (read_ops q))))"
proof (cases "if tn_write t then None else selectReadCode cfg (tn_intn t) codes")
  case None
  then have "worker_create cfg t (local, codes, seq) = (goes_on, local', codes', seq')"
    using assms(1) by (auto simp: worker_turn_def split: if_splits)
  moreover obtain status latency code where
    "doCreate (tn_net t) (lt_baseURL cfg) (tn_nano t) (seq + 1) = (status, latency, code)" by (metis prod.collapse)
  ultimately show ?thesis
    using None assms(2)
    by (auto simp: worker_create_def request_sent_def stoppedByLevelTimeout_def pool_add_def Let_def tallies_record split: if_splits)
next
  case (Some code)
  then have read: "\<not> tn_write t" "selectReadCode cfg (tn_intn t) codes = Some code" by (auto split: if_splits)
  obtain status latency where "doRead (tn_net t) (lt_baseURL cfg) code = (status, latency)" by (metis prod.collapse)
  with read assms show ?thesis
    by (auto simp: worker_turn_def request_sent_def stoppedByLevelTimeout_def tallies_record split: if_splits)
qed

text \<open>What the events of a level add to each worker's statistics and to the pool.\<close>

lemma level_steps_result:
  assumes "s' = fold (level_step cfg) es s"
    and "qs = level_requests cfg es (map snd (lv_locals s)) (lv_codes s) (lv_seq s)"
  shows "length (lv_locals s') = length (lv_locals s)"
    and "lv_codes s' = lv_codes s @ concat (map created_codes (served qs))"
    and "i < length (lv_locals s) \<Longrightarrow> tallies (lr_write (fst (lv_locals s ! i))) W \<Longrightarrow>
      tallies (lr_write (fst (lv_locals s' ! i))) (W + ops_of write_ops (served_by i qs))"
    and "i < length (lv_locals s) \<Longrightarrow> tallies (lr_read (fst (lv_locals s ! i))) R \<Longrightarrow>
      tallies (lr_read (fst (lv_locals s' ! i))) (R + ops_of read_ops (served_by i qs))"
proof -
  have "length (lv_locals s') = length (lv_locals s) \<and>
    lv_codes s' = lv_codes s @ concat (map created_codes (served qs)) \<and>
    (\<forall>i W R. i < length (lv_locals s) \<longrightarrow>
      (tallies (lr_write (fst (lv_locals s ! i))) W \<longrightarrow>
        tallies (lr_write (fst (lv_locals s' ! i))) (W + ops_of write_ops (served_by i qs))) \<and>
      (tallies (lr_read (fst (lv_locals s ! i))) R \<longrightarrow>
        tallies (lr_read (fst (lv_locals s' ! i))) (R + ops_of read_ops (served_by i qs))))"
    using assms
  proof (induction es arbitrary: s qs)
    case Nil
    then show ?case by simp
  next
    case (Cons e es)
    let ?s1 = "level_step cfg e s"
    have "s' = fold (level_step cfg) es ?s1" using Cons.prems(1) by simp
    note IH = Cons.IH [OF this refl]
    show ?case
    proof (cases e)
      case (Leaves j)
      have "map snd (lv_locals ?s1) = (map snd (lv_locals s))[j := False]" "lv_codes ?s1 = lv_codes s" "lv_seq ?s1 = lv_seq s"
        "length (lv_locals ?s1) = length (lv_locals s)" "fst (lv_locals ?s1 ! i) = fst (lv_locals s ! i)" for i
        using Leaves by (auto simp: map_update nth_list_update list_update_beyond)
      with IH Cons.prems Leaves show ?thesis by simp
    next
      case (Turn j t)
      show ?thesis
      proof (cases "j < length (lv_locals s) \<and> snd (lv_locals s ! j)")
        case False
        then have "?s1 = s" using Turn by auto
        with IH Cons.prems Turn False show ?thesis by auto
      next
        case True
        define q where "q = request_sent cfg t (lv_codes s) (lv_seq s)"
        obtain goes_on local' codes' seq' where
          turn: "worker_turn cfg t (fst (lv_locals s ! j), lv_codes s, lv_seq s) = (goes_on, local', codes', seq')"
          by (metis prod.collapse)
        note result = worker_turn_result [OF turn q_def [symmetric]]
        have s1: "?s1 = \<lparr>lv_locals = (lv_locals s)[j := (local', goes_on)], lv_codes = codes', lv_seq = seq'\<rparr>"
          using Turn True turn by simp
        define qs1 where "qs1 = level_requests cfg es (map snd (lv_locals ?s1)) (lv_codes ?s1) (lv_seq ?s1)"
        have qs: "qs = (j, q, cut_off (tn_over t) q) # qs1"
          using Cons.prems(2) Turn True result unfolding qs1_def s1
          by (simp add: Let_def q_def [symmetric] map_update)
        note rest = IH [folded qs1_def]
        show ?thesis
        proof (cases "cut_off (tn_over t) q")
          case lost: True
          have "fst (lv_locals ?s1 ! i) = fst (lv_locals s ! i)" if "i < length (lv_locals s)" for i
            using result lost that unfolding s1 by (cases "i = j") simp_all
          with rest lost result show ?thesis unfolding qs s1 by simp
        next
          case answered: False
          have one: "tallies (lr_write (fst (lv_locals ?s1 ! i))) (W + (if i = j then mset (write_ops q) else {#}))"
            if "i < length (lv_locals s)" "tallies (lr_write (fst (lv_locals s ! i))) W" for i W
            using result answered that unfolding s1 by (auto simp: nth_list_update)
          have two: "tallies (lr_read (fst (lv_locals ?s1 ! i))) (R + (if i = j then mset (read_ops q) else {#}))"
            if "i < length (lv_locals s)" "tallies (lr_read (fst (lv_locals s ! i))) R" for i R
            using result answered that unfolding s1 by (auto simp: nth_list_update)
          have "length (lv_locals ?s1) = length (lv_locals s)" "lv_codes ?s1 = lv_codes s @ created_codes q"
            using result answered unfolding s1 by simp_all
          with rest one two answered show ?thesis unfolding qs by (fastforce simp: add.assoc)
        qed
      qed
    qed
  qed
  then show "length (lv_locals s') = length (lv_locals s)"
    and "lv_codes s' = lv_codes s @ concat (map created_codes (served qs))"
    and "i < length (lv_locals s) \<Longrightarrow> tallies (lr_write (fst (lv_locals s ! i))) W \<Longrightarrow>
      tallies (lr_write (fst (lv_locals s' ! i))) (W + ops_of write_ops (served_by i qs))"
    and "i < length (lv_locals s) \<Longrightarrow> tallies (lr_read (fst (lv_locals s ! i))) R \<Longrightarrow>
      tallies (lr_read (fst (lv_locals s' ! i))) (R + ops_of read_ops (served_by i qs))"
    by blast+
qed

text \<open>Every request belongs to one of the workers, and each worker has at most one that is cut off.\<close>

lemma level_requests_workers: "(i, q, lost) \<in> set (level_requests cfg es running codes seq) \<Longrightarrow> i < length running"
  by (induction cfg es running codes seq rule: level_requests.induct) (auto simp: Let_def split: if_splits)

lemma count_true_update: "i < length xs \<Longrightarrow> xs ! i \<Longrightarrow> length (filter (\<lambda>b. b) xs) = Suc (length (filter (\<lambda>b. b) (xs[i := False])))"
  by (induction xs arbitrary: i) (auto split: nat.splits)

lemma count_true_le: "length (filter (\<lambda>b. b) (xs[i := False])) \<le> length (filter (\<lambda>b. b) xs)"
  by (induction xs arbitrary: i) (auto split: nat.splits)

lemma level_requests_cut:
  "length (filter (\<lambda>x. snd (snd x)) (level_requests cfg es running codes seq)) \<le> length (filter (\<lambda>b. b) running)"
proof (induction cfg es running codes seq rule: level_requests.induct)
  case (2 cfg i es running codes seq)
  have "length (filter (\<lambda>x. snd (snd x)) (level_requests cfg es (running[i := False]) codes seq)) \<le>
      length (filter (\<lambda>b. b) (running[i := False]))" using 2 by simp
  also have "\<dots> \<le> length (filter (\<lambda>b. b) running)" by (rule count_true_le)
  finally show ?case by simp
next
  case (3 cfg i t es running codes seq)
  show ?case
  proof (cases "i < length running \<and> running ! i")
    case True
    then have "running[i := True] = running" by (metis list_update_id)
    with 3(1) [OF True refl refl] True count_true_update [of i running] show ?thesis
      by (cases "cut_off (tn_over t) (request_sent cfg t codes seq)") (simp_all add: Let_def)
  next
    case False
    with 3(2) [OF False] show ?thesis by (simp only: level_requests.simps if_False)
  qed
qed simp

lemma served_sum:
  assumes "\<forall>x \<in> set qs. fst x < n"
  shows "(\<Sum>i<n. ops_of f (served_by i qs)) = ops_of f (served qs)"
  using assms
proof (induction qs)
  case (Cons x qs)
  obtain i q lost where x: "x = (i, q, lost)" by (cases x) auto
  show ?case
  proof (cases lost)
    case True
    with Cons x show ?thesis by simp
  next
    case False
    have "(\<Sum>j<n. ops_of f (served_by j (x # qs))) =
        (\<Sum>j<n. (if j = i then mset (f q) else {#}) + ops_of f (served_by j qs))"
      using False by (intro sum.cong) (auto simp: x)
    also have "\<dots> = mset (f q) + (\<Sum>j<n. ops_of f (served_by j qs))" using Cons.prems x by (simp add: sum.distrib)
    finally show ?thesis using Cons x False by simp
  qed
qed simp

text \<open>The report of a level receives every worker's result once.\<close>

definition arrivals_ok :: "level_run \<Rightarrow> (nat \<times> int list \<times> int list) list \<Rightarrow> bool" where
  "arrivals_ok s arrivals \<longleftrightarrow> distinct (map fst arrivals) \<and> fst ` set arrivals = {..<length (lv_locals s)} \<and>
     (\<forall>(i, ws, rs) \<in> set arrivals. distinct ws \<and> distinct rs \<and>
        set ws = dom (os_statuses (lr_write (fst (lv_locals s ! i)))) \<and> set rs = dom (os_statuses (lr_read (fst (lv_locals s ! i)))))"

lemma merge_levels_tallies:
  assumes "\<forall>(i, ws, rs) \<in> set arrivals. distinct ws \<and> distinct rs \<and> set ws = dom (os_statuses (lr_write (g i))) \<and>
      set rs = dom (os_statuses (lr_read (g i))) \<and> tallies (lr_write (g i)) (W i) \<and> tallies (lr_read (g i)) (R i)"
    and "tallies (lr_write merged) M" and "tallies (lr_read merged) N"
  shows "tallies (lr_write (merge_levels (map (\<lambda>(i, ws, rs). (g i, ws, rs)) arrivals) merged)) (M + (\<Sum>x \<leftarrow> arrivals. W (fst x))) \<and>
    tallies (lr_read (merge_levels (map (\<lambda>(i, ws, rs). (g i, ws, rs)) arrivals) merged)) (N + (\<Sum>x \<leftarrow> arrivals. R (fst x)))"
  using assms
proof (induction arrivals arbitrary: merged M N)
  case (Cons x arrivals)
  obtain i ws rs where x: "x = (i, ws, rs)" by (cases x) auto
  let ?m = "merged\<lparr>lr_write := merge_ops ws (lr_write (g i)) (lr_write merged),
    lr_read := merge_ops rs (lr_read (g i)) (lr_read merged)\<rparr>"
  have "tallies (lr_write ?m) (M + W i)" "tallies (lr_read ?m) (N + R i)"
    using Cons.prems x by (auto intro: tallies_merge)
  from Cons.IH [OF _ this] Cons.prems(1) show ?case by (simp add: x add.assoc)
qed simp

lemma arrivals_sum:
  fixes f :: "nat \<Rightarrow> 'a multiset"
  assumes "distinct (map fst arrivals)" and "fst ` set arrivals = {..<n}"
  shows "(\<Sum>x \<leftarrow> arrivals. f (fst x)) = (\<Sum>i<n. f i)"
proof -
  have "(\<Sum>x \<leftarrow> arrivals. f (fst x)) = (\<Sum>i \<leftarrow> map fst arrivals. f i)" by (simp add: comp_def)
  also have "\<dots> = (\<Sum>i<n. f i)" using assms sum_list_distinct_conv_sum_set [OF assms(1), of f] by (simp only: set_map)
  finally show ?thesis .
qed

text \<open>In the scenario of hot keys only the first codes are read.\<close>

lemma selectReadCode_hot:
  assumes "lt_scenario cfg = scenarioHotKey" and "\<And>n. 0 < n \<Longrightarrow> intn n < n" and "selectReadCode cfg intn codes = Some code"
  shows "code \<in> set (take (nat (lt_hotKeys cfg)) codes)"
proof -
  let ?n = "nat (if int (length codes) < lt_hotKeys cfg then int (length codes) else lt_hotKeys cfg)"
  have pos: "codes \<noteq> []" "0 < lt_hotKeys cfg" and code: "code = codes ! intn ?n"
    using assms(1,3) by (auto simp: selectReadCode_def pool_randomFirst_def split: if_splits)
  then have "intn ?n < ?n" by (intro assms(2)) simp
  then have "intn ?n < length (take (nat (lt_hotKeys cfg)) codes)" by auto
  then show ?thesis unfolding code by (metis nth_mem nth_take length_take min_less_iff_conj)
qed

lemma parseLevels_positive:
  assumes "parseLevels quote value = Inr levels"
  shows "levels \<noteq> [] \<and> (\<forall>l \<in> set levels. 0 < l)"
proof -
  have "\<forall>l \<in> set out. 0 < l" if "levels_loop quote parts acc = Inr out" "\<forall>l \<in> set acc. 0 < l" for parts acc out
    using that by (induction quote parts acc rule: levels_loop.induct) (auto simp: Let_def split: option.splits if_splits)
  then show ?thesis using assms by (auto simp: parseLevels_def split: sum.splits list.splits)
qed

end
