(* ===== verification/Binary64.thy ===== *)
theory Binary64
  imports Config "HOL-Library.Signed_Division"
begin

text \<open>
  Go's \<open>float64\<close> as far as \<open>cmd/loadtest\<close> computes with it: conversion of integers, product and quotient,
  rounded to 53 binary digits, to even when halfway; the smallest and largest exponents are not reached
  by the counts and durations it is used for. Then how \<open>fmt\<close> writes a float and a duration.
\<close>

section \<open>Rounding\<close>

definition round_even :: "real \<Rightarrow> int" where
  "round_even x =
     (let f = \<lfloor>x\<rfloor> in if x - of_int f < 1 / 2 then f else if 1 / 2 < x - of_int f then f + 1 else if even f then f else f + 1)"

definition binary64 :: "real \<Rightarrow> real" where
  "binary64 x =
     (if x = 0 then 0
      else (let e = \<lfloor>log 2 \<bar>x\<bar>\<rfloor> - 52 in of_int (round_even (x / 2 powi e)) * 2 powi e))"

fun float_div :: "float64 \<Rightarrow> float64 \<Rightarrow> float64" where
  "float_div NaN y = NaN"
| "float_div x NaN = NaN"
| "float_div (Finite x) (Finite y) =
     (if y = 0 then (if x = 0 then NaN else Infinite (0 < x)) else Finite (binary64 (x / y)))"
| "float_div (Infinite p) (Finite y) = Infinite (p \<longleftrightarrow> 0 \<le> y)"
| "float_div (Finite x) (Infinite p) = Finite 0"
| "float_div (Infinite p) (Infinite q) = NaN"

definition float_of_int :: "int \<Rightarrow> float64" where
  "float_of_int n = Finite (binary64 (of_int n))"

text \<open>\<open>time.Duration.Seconds\<close>.\<close>

definition Seconds :: "duration \<Rightarrow> float64" where
  "Seconds d = Finite (binary64 (binary64 (of_int (d sdiv second)) + binary64 (binary64 (of_int (d smod second)) / 10 ^ 9)))"

lemma floor_half: "x - of_int \<lfloor>x\<rfloor> < (1 :: real)" "0 \<le> x - of_int \<lfloor>x\<rfloor>"
  by linarith+

lemma round_even_int [simp]: "round_even (of_int n) = n"
  by (simp add: round_even_def)

lemma round_even_near: "\<lfloor>x\<rfloor> \<le> round_even x" "round_even x \<le> \<lfloor>x\<rfloor> + 1"
  by (simp_all add: round_even_def Let_def)

lemma round_even_mono: "x \<le> y \<Longrightarrow> round_even x \<le> round_even y"
proof (cases "\<lfloor>x\<rfloor> = \<lfloor>y\<rfloor>")
  case True
  assume "x \<le> y"
  with True show ?thesis by (auto simp: round_even_def Let_def)
next
  case False
  assume "x \<le> y"
  then have "\<lfloor>x\<rfloor> \<le> \<lfloor>y\<rfloor>" by (rule floor_mono)
  with False have "\<lfloor>x\<rfloor> + 1 \<le> \<lfloor>y\<rfloor>" by simp
  with round_even_near(2) [of x] round_even_near(1) [of y] show ?thesis by linarith
qed

text \<open>A positive number lies in the binade of its exponent, and so does what it is rounded to.\<close>

lemma binade:
  assumes "0 < x" and "e = \<lfloor>log 2 x\<rfloor> - 52"
  shows "(2 :: real) ^ 52 \<le> x / 2 powi e" and "x / 2 powi e < (2 :: real) ^ 53"
proof -
  have floor: "of_int \<lfloor>log 2 x\<rfloor> \<le> log 2 x" "log 2 x < of_int \<lfloor>log 2 x\<rfloor> + 1" by linarith+
  have "2 powr of_int \<lfloor>log 2 x\<rfloor> \<le> x"
    using floor(1) le_log_iff [of 2 x "of_int \<lfloor>log 2 x\<rfloor>"] assms(1) by simp
  moreover have "x < 2 powr of_int (\<lfloor>log 2 x\<rfloor> + 1)"
    using floor(2) log_less_iff [of 2 x "of_int (\<lfloor>log 2 x\<rfloor> + 1)"] assms(1) by simp
  ultimately have range: "2 powi (e + 52) \<le> x" "x < 2 powi (e + 53)"
    using powr_real_of_int' [of 2 "\<lfloor>log 2 x\<rfloor>"] powr_real_of_int' [of 2 "\<lfloor>log 2 x\<rfloor> + 1"] by (simp_all add: assms(2) add.commute)
  have "2 powi (e + 52) = (2 :: real) powi e * 2 ^ 52" "2 powi (e + 53) = (2 :: real) powi e * 2 ^ 53"
    by (simp_all add: power_int_add)
  with range show "2 ^ 52 \<le> x / 2 powi e" "x / 2 powi e < 2 ^ 53" by (simp_all add: field_simps)
qed

lemma binary64_binade:
  assumes "0 < x" and e: "e = \<lfloor>log 2 x\<rfloor> - 52"
  shows "binary64 x = of_int (round_even (x / 2 powi e)) * 2 powi e"
    and "2 ^ 52 * 2 powi e \<le> binary64 x" and "binary64 x \<le> 2 ^ 53 * 2 powi e"
proof -
  show eq: "binary64 x = of_int (round_even (x / 2 powi e)) * 2 powi e" using assms by (simp add: binary64_def Let_def)
  note range = binade [OF assms]
  have "round_even (of_int (2 ^ 52)) \<le> round_even (x / 2 powi e)" using range(1) by (intro round_even_mono) simp
  moreover have "round_even (x / 2 powi e) \<le> round_even (of_int (2 ^ 53))" using range(2) by (intro round_even_mono) simp
  ultimately have "2 ^ 52 \<le> round_even (x / 2 powi e)" "round_even (x / 2 powi e) \<le> 2 ^ 53" unfolding round_even_int by simp_all
  then have "real_of_int (2 ^ 52) \<le> of_int (round_even (x / 2 powi e))" "of_int (round_even (x / 2 powi e)) \<le> real_of_int (2 ^ 53)"
    by (simp_all only: of_int_le_iff)
  then show "2 ^ 52 * 2 powi e \<le> binary64 x" and "binary64 x \<le> 2 ^ 53 * 2 powi e"
    unfolding eq by (simp_all add: mult_right_mono)
qed

lemma binary64_nonneg: "0 \<le> x \<Longrightarrow> 0 \<le> binary64 x"
proof (cases "x = 0")
  case False
  assume "0 \<le> x"
  with False have "0 < x" by simp
  have "0 \<le> 2 ^ 52 * (2 :: real) powi (\<lfloor>log 2 x\<rfloor> - 52)" by simp
  with binary64_binade(2) [OF \<open>0 < x\<close> refl] show ?thesis by linarith
qed (simp add: binary64_def)

lemma binary64_mono:
  assumes "0 \<le> x" and "x \<le> y"
  shows "binary64 x \<le> binary64 y"
proof (cases "x = 0")
  case True
  with assms show ?thesis using binary64_nonneg [of y] by (simp add: binary64_def)
next
  case False
  with assms have pos: "0 < x" "0 < y" by simp_all
  define e where "e = \<lfloor>log 2 x\<rfloor> - 52"
  define d where "d = \<lfloor>log 2 y\<rfloor> - 52"
  have "e \<le> d" unfolding e_def d_def using assms pos by (intro diff_right_mono floor_mono) simp
  show ?thesis
  proof (cases "e = d")
    case True
    have "round_even (x / 2 powi e) \<le> round_even (y / 2 powi e)" using assms(2) by (intro round_even_mono) (simp add: divide_right_mono)
    with True show ?thesis
      unfolding binary64_binade(1) [OF pos(1) e_def] binary64_binade(1) [OF pos(2) d_def] by (simp add: mult_right_mono)
  next
    case False
    with \<open>e \<le> d\<close> have "(2 :: real) powi (e + 1) \<le> 2 powi d" by (intro power_int_increasing) simp_all
    moreover have "(2 :: real) powi (e + 1) = 2 * 2 powi e" by (simp add: power_int_add)
    ultimately have "2 ^ 53 * (2 :: real) powi e \<le> 2 ^ 52 * 2 powi d" by simp
    with binary64_binade(3) [OF pos(1) e_def] binary64_binade(2) [OF pos(2) d_def] show ?thesis by linarith
  qed
qed

text \<open>Integers of 53 digits are not rounded.\<close>

lemma binary64_int:
  assumes "0 \<le> n" and "n \<le> 2 ^ 53"
  shows "binary64 (of_int n) = of_int n"
proof (cases "n = 0")
  case True
  then show ?thesis by (simp add: binary64_def)
next
  case False
  with assms(1) have pos: "0 < (of_int n :: real)" by simp
  define e where "e = \<lfloor>log 2 (of_int n)\<rfloor> - 52"
  have "\<exists>m :: int. (of_int n :: real) / 2 powi e = of_int m"
  proof (cases "e \<le> 0")
    case True
    then have "(2 :: real) powi e = inverse (2 ^ nat (- e))" by (auto simp: power_int_def power_one_over inverse_eq_divide)
    then have "(of_int n :: real) / 2 powi e = of_int (n * 2 ^ nat (- e))" by (simp add: field_simps)
    then show ?thesis by blast
  next
    case False
    then have "(2 :: real) powi 1 \<le> 2 powi e" by (intro power_int_increasing) simp_all
    moreover from binade(1) [OF pos e_def] have "2 ^ 52 * (2 :: real) powi e \<le> of_int n" by (simp add: field_simps)
    moreover have "(of_int n :: real) \<le> 2 ^ 53" using assms(2) of_int_le_iff [of n "2 ^ 53", where 'a = real] by simp
    ultimately have n: "(of_int n :: real) = 2 ^ 53" and "(2 :: real) powi e = 2" by simp_all
    then show ?thesis by (intro exI [of _ "2 ^ 52"]) simp
  qed
  then obtain m where m: "(of_int n :: real) / 2 powi e = of_int m" ..
  have "binary64 (of_int n) = of_int m * 2 powi e"
    unfolding binary64_binade(1) [OF pos e_def] m round_even_int ..
  also have "\<dots> = of_int n" unfolding m [symmetric] by simp
  finally show ?thesis .
qed

section \<open>Text\<close>

text \<open>The verb \<open>%.2f\<close>: the number as it is, rounded to hundredths.\<close>

definition two_digits :: "int \<Rightarrow> string" where
  "two_digits n = FormatInt (n div 10) @ FormatInt (n mod 10)"

fun Format2 :: "float64 \<Rightarrow> string" where
  "Format2 NaN = ''NaN''"
| "Format2 (Infinite p) = (if p then ''+Inf'' else ''-Inf'')"
| "Format2 (Finite x) =
     (let n = round_even (\<bar>x\<bar> * 100)
      in (if x < 0 then ''-'' else []) @ FormatInt (n div 100) @ ''.'' @ two_digits (n mod 100))"

text \<open>\<open>time.Duration.String\<close>: the fraction of \<open>v\<close> in \<open>prec\<close> digits without trailing zeros, and the units.\<close>

fun frac_digits :: "nat \<Rightarrow> int \<Rightarrow> string" where
  "frac_digits 0 v = []"
| "frac_digits (Suc prec) v = frac_digits prec (v div 10) @ FormatInt (v mod 10)"

definition trim_zeros :: "string \<Rightarrow> string" where
  "trim_zeros s = rev (dropWhile (\<lambda>c. c = CHR ''0'') (rev s))"

definition fmtFrac :: "int \<Rightarrow> nat \<Rightarrow> string" where
  "fmtFrac v prec = (let s = trim_zeros (frac_digits prec v) in if s = [] then [] else ''.'' @ s)"

definition Duration_String :: "duration \<Rightarrow> string" where
  "Duration_String d =
     (let u = \<bar>d\<bar>; sign = (if d < 0 then ''-'' else [])
      in if d = 0 then ''0s''
         else if u < 1000 then sign @ FormatInt u @ ''ns''
         else if u < 1000000 then sign @ FormatInt (u div 1000) @ fmtFrac (u mod 1000) 3 @ [CHR 0xC2, CHR 0xB5] @ ''s''
         else if u < second then sign @ FormatInt (u div 1000000) @ fmtFrac (u mod 1000000) 6 @ ''ms''
         else (let secs = u div second; mins = secs div 60; hours = mins div 60;
                   s = FormatInt (secs mod 60) @ fmtFrac (u mod second) 9 @ ''s''
               in sign @ (if hours > 0 then FormatInt hours @ ''h'' @ FormatInt (mins mod 60) @ ''m'' @ s
                          else if mins > 0 then FormatInt mins @ ''m'' @ s else s)))"

end
