(* ===== verification/Load_Report.thy ===== *)
theory Load_Report
  imports Loadtest Binary64
begin

text \<open>
  \<open>cmd/loadtest/main.go\<close>: rates, latencies and the report of a level, and \<open>run\<close> with the choice of the
  best stable level. What is printed is part of the results.
\<close>

section \<open>Rates\<close>

definition totalQPS :: "levelResult \<Rightarrow> float64" where
  "totalQPS r = float_div (float_of_int (level_total r)) (Seconds (lr_elapsed r))"

definition writeQPS :: "levelResult \<Rightarrow> float64" where
  "writeQPS r = float_div (float_of_int (os_total (lr_write r))) (Seconds (lr_elapsed r))"

definition readQPS :: "levelResult \<Rightarrow> float64" where
  "readQPS r = float_div (float_of_int (os_total (lr_read r))) (Seconds (lr_elapsed r))"

definition successRate :: "levelResult \<Rightarrow> float64" where
  "successRate r =
     (if level_total r = 0 then Finite 0
      else float_div (Finite (binary64 (binary64 (of_int (level_success r)) * 100))) (float_of_int (level_total r)))"

definition stable :: "levelResult \<Rightarrow> float64 \<Rightarrow> bool" where
  "stable r minSuccessRate \<longleftrightarrow> level_total r > 0 \<and> float_le minSuccessRate (successRate r)"

section \<open>Latencies\<close>

definition avg :: "duration list \<Rightarrow> duration" where
  "avg vs = (if vs = [] then 0 else foldl (+) 0 vs sdiv int (length vs))"

text \<open>\<open>None\<close>: the index is out of range, which would end the program.\<close>

definition percentile :: "duration list \<Rightarrow> real \<Rightarrow> duration option" where
  "percentile vs p =
     (if vs = [] then Some 0
      else (let sorted = sort vs;
                index = \<lfloor>binary64 (binary64 (of_int (int (length sorted) - 1)) * p)\<rfloor>
            in if 0 \<le> index \<and> index < int (length sorted) then Some (sorted ! nat index) else None))"

text \<open>The arguments 0.50, 0.95 and 0.99 of the code, as the floats nearest to them.\<close>

definition p50 :: real where "p50 = 1 / 2"
definition p95 :: real where "p95 = 8556839292003942 / 2 ^ 53"
definition p99 :: real where "p99 = 8917127262193582 / 2 ^ 53"

definition maxLatency :: "duration list \<Rightarrow> duration" where
  "maxLatency vs = (case vs of [] \<Rightarrow> 0 | v # rest \<Rightarrow> foldl (\<lambda>m x. if m < x then x else m) v rest)"

section \<open>The report\<close>

text \<open>\<open>strings.Join\<close>; \<open>keys\<close> is the order in which \<open>range\<close> visits the map.\<close>

fun strings_Join :: "string list \<Rightarrow> string \<Rightarrow> string" where
  "strings_Join [] sep = []"
| "strings_Join [s] sep = s"
| "strings_Join (s # t # ss) sep = s @ sep @ strings_Join (t # ss) sep"

definition formatStatuses :: "int list \<Rightarrow> (int \<rightharpoonup> int) \<Rightarrow> string" where
  "formatStatuses keys statuses =
     (if keys = [] then ''{}''
      else ''{'' @ strings_Join (map (\<lambda>c. FormatInt c @ '':'' @ FormatInt (the (statuses c))) (sort keys)) '','' @ ''}'')"

definition latency_line :: "string \<Rightarrow> int list \<Rightarrow> opStats \<Rightarrow> string option" where
  "latency_line name keys s =
     (case (percentile (os_latencies s) p50, percentile (os_latencies s) p95, percentile (os_latencies s) p99) of
        (Some a, Some b, Some c) \<Rightarrow>
          Some (''  '' @ name @ '' avg='' @ Duration_String (avg (os_latencies s)) @ '' p50='' @ Duration_String a @
            '' p95='' @ Duration_String b @ '' p99='' @ Duration_String c @ '' max='' @ Duration_String (maxLatency (os_latencies s)) @
            '' statuses='' @ formatStatuses keys (os_statuses s) @ newline)
      | _ \<Rightarrow> None)"

definition printLevel :: "load_config \<Rightarrow> int list \<Rightarrow> int list \<Rightarrow> levelResult \<Rightarrow> int \<Rightarrow> string option" where
  "printLevel cfg wkeys rkeys r codeCount =
     (case (latency_line ''write_latency'' wkeys (lr_write r), latency_line ''read_latency '' rkeys (lr_read r)) of
        (Some w, Some d) \<Rightarrow>
          Some (''level scenario='' @ lt_scenario cfg @ '' hot_keys='' @ FormatInt (lt_hotKeys cfg) @
            '' concurrency='' @ FormatInt (lr_concurrency r) @ '' duration='' @ Format2 (Seconds (lr_elapsed r)) @
            ''s codes='' @ FormatInt codeCount @ '' total_qps='' @ Format2 (totalQPS r) @ '' write_qps='' @ Format2 (writeQPS r) @
            '' read_qps='' @ Format2 (readQPS r) @ '' success_rate='' @ Format2 (successRate r) @ ''% writes='' @
            FormatInt (os_success (lr_write r)) @ ''/'' @ FormatInt (os_total (lr_write r)) @ '' reads='' @
            FormatInt (os_success (lr_read r)) @ ''/'' @ FormatInt (os_total (lr_read r)) @ newline @ w @ d)
      | _ \<Rightarrow> None)"

section \<open>The run\<close>

text \<open>
  The loop over the levels: \<open>env i\<close> is what the \<open>i\<close>-th level meets, \<open>wkeys i\<close> and \<open>rkeys i\<close> the orders of the
  maps of its result. \<open>None\<close>: a level does not come to its end.
\<close>

record load_run =
  ru_best :: "levelResult option"
  ru_codes :: "string list"
  ru_out :: string
  ru_results :: "levelResult list"

definition better :: "load_config \<Rightarrow> levelResult option \<Rightarrow> levelResult \<Rightarrow> levelResult option" where
  "better cfg best r =
     (if stable r (lt_minSuccessRate cfg) \<and> (case best of None \<Rightarrow> True | Some b \<Rightarrow> float_lt (totalQPS b) (totalQPS r))
      then Some r else best)"

fun run_levels ::
  "load_config \<Rightarrow> (nat \<Rightarrow> level_env) \<Rightarrow> (nat \<Rightarrow> int list) \<Rightarrow> (nat \<Rightarrow> int list) \<Rightarrow> nat \<Rightarrow> int list \<Rightarrow> load_run \<Rightarrow> load_run option" where
  "run_levels cfg env wkeys rkeys i [] s = Some s"
| "run_levels cfg env wkeys rkeys i (level # levels) s =
     (case runLevel cfg (env i) level (ru_codes s) of
        None \<Rightarrow> None
      | Some (r, codes) \<Rightarrow>
          (case printLevel cfg (wkeys i) (rkeys i) r (int (length codes)) of
             None \<Rightarrow> None
           | Some report \<Rightarrow>
               (let s1 = \<lparr>ru_best = better cfg (ru_best s) r, ru_codes = codes, ru_out = ru_out s @ report, ru_results = ru_results s @ [r]\<rparr>
                in if le_cancelled (env i) then Some s1 else run_levels cfg env wkeys rkeys (Suc i) levels s1)))"

definition best_line :: "load_config \<Rightarrow> levelResult option \<Rightarrow> string" where
  "best_line cfg best =
     (case best of
        None \<Rightarrow> ''best_stable=none min_success_rate='' @ Format2 (lt_minSuccessRate cfg) @ ''%'' @ newline
      | Some b \<Rightarrow> ''best_stable scenario='' @ lt_scenario cfg @ '' concurrency='' @ FormatInt (lr_concurrency b) @
          '' total_qps='' @ Format2 (totalQPS b) @ '' write_qps='' @ Format2 (writeQPS b) @ '' read_qps='' @ Format2 (readQPS b) @
          '' success_rate='' @ Format2 (successRate b) @ ''%'' @ newline)"

text \<open>\<open>run\<close> with the flags read; its result is the error and what went to the standard output.\<close>

record load_env =
  ld_seed_net :: "nat \<Rightarrow> load_net"
  ld_seed_nano :: "nat \<Rightarrow> int64"
  ld_level :: "nat \<Rightarrow> level_env"
  ld_wkeys :: "nat \<Rightarrow> int list"
  ld_rkeys :: "nat \<Rightarrow> int list"

definition load_run_from :: "load_config \<Rightarrow> load_env \<Rightarrow> (go_error option \<times> load_run) option" where
  "load_run_from cfg E =
     (let seedCodes = seed_count cfg;
          seeded = (if seedCodes > 0 then seed (ld_seed_net E) (ld_seed_nano E) cfg seedCodes [] else (None, [], []))
      in case seeded of
           (Some err, out, codes) \<Rightarrow> Some (Some err, \<lparr>ru_best = None, ru_codes = codes, ru_out = out, ru_results = []\<rparr>)
         | (None, out, codes) \<Rightarrow>
             (case run_levels cfg (ld_level E) (ld_wkeys E) (ld_rkeys E) 0 (lt_levels cfg)
                    \<lparr>ru_best = None, ru_codes = codes, ru_out = out, ru_results = []\<rparr> of
                None \<Rightarrow> None
              | Some s \<Rightarrow> Some (None, s\<lparr>ru_out := ru_out s @ best_line cfg (ru_best s)\<rparr>)))"

definition load_run :: "(string \<Rightarrow> string) \<Rightarrow> string \<Rightarrow> load_config \<Rightarrow> load_env \<Rightarrow> (go_error option \<times> string) option" where
  "load_run quote levels flags E =
     (case parseFlags quote levels flags of
        Inl err \<Rightarrow> Some (Some err, [])
      | Inr cfg \<Rightarrow> map_option (\<lambda>(err, s). (err, ru_out s)) (load_run_from cfg E))"

text \<open>The exit status of \<open>main\<close>, with what it writes to the standard error and to the standard output.\<close>

definition loadtest_main :: "(string \<Rightarrow> string) \<Rightarrow> string \<Rightarrow> load_config \<Rightarrow> load_env \<Rightarrow> (int \<times> string \<times> string) option" where
  "loadtest_main quote levels flags E =
     (case load_run quote levels flags E of
        None \<Rightarrow> None
      | Some (Some err, out) \<Rightarrow> Some (1, ''loadtest: '' @ error_text err @ newline, out)
      | Some (None, out) \<Rightarrow> Some (0, [], out))"

section \<open>Lemmas\<close>

lemma avg_bounds:
  assumes "vs \<noteq> []" and "\<forall>v \<in> set vs. a \<le> v \<and> v \<le> b" and "0 \<le> a"
  shows "a \<le> avg vs \<and> avg vs \<le> b"
proof -
  have "foldl (+) c xs = c + sum_list xs" for c :: int and xs by (induction xs arbitrary: c) simp_all
  then have avg: "avg vs = sum_list vs sdiv int (length vs)" using assms(1) by (simp add: avg_def)
  have "int (length xs) * a \<le> sum_list xs \<and> sum_list xs \<le> int (length xs) * b" if "\<forall>v \<in> set xs. a \<le> v \<and> v \<le> b" for xs
    using that by (induction xs) (auto simp: algebra_simps)
  from this [OF assms(2)] have sum: "int (length vs) * a \<le> sum_list vs" "sum_list vs \<le> int (length vs) * b" by blast+
  have pos: "0 < int (length vs)" using assms(1) by simp
  have "0 \<le> sum_list vs" using sum(1) assms(3) pos by (meson mult_nonneg_nonneg of_nat_0_le_iff order_trans)
  then have "avg vs = sum_list vs div int (length vs)" using avg assms(1) by (auto simp: signed_divide_int_def sgn_if)
  moreover have "a \<le> sum_list vs div int (length vs)"
    using zdiv_mono1 [OF sum(1) pos] pos by simp
  moreover have "sum_list vs div int (length vs) \<le> b" using zdiv_mono1 [OF sum(2) pos] pos by simp
  ultimately show ?thesis by simp
qed

lemma maxLatency_max: "vs \<noteq> [] \<Longrightarrow> maxLatency vs = Max (set vs)"
proof (cases vs)
  case (Cons v rest)
  have "foldl (\<lambda>m x. if m < x then x else m) a xs = fold max xs a" for a :: int and xs
    by (induction xs arbitrary: a) (auto simp: max_def)
  with Cons show ?thesis by (simp add: maxLatency_def Max.set_eq_fold del: list.set)
qed simp

text \<open>The index of a percentile stays in range, and grows with the percentile.\<close>

definition percentile_index :: "nat \<Rightarrow> real \<Rightarrow> int" where
  "percentile_index n p = \<lfloor>binary64 (binary64 (of_int (int n - 1)) * p)\<rfloor>"

lemma percentile_index_range:
  assumes "0 < n" and "n \<le> 2 ^ 53" and "0 \<le> p" and "p \<le> 1"
  shows "0 \<le> percentile_index n p \<and> percentile_index n p < int n"
proof -
  have "int n \<le> 2 ^ 53" using assms(2) by (metis of_nat_le_iff of_nat_numeral of_nat_power)
  with assms(1) have exact: "binary64 (of_int (int n - 1)) = of_int (int n - 1)" by (intro binary64_int) simp_all
  have "0 \<le> (of_int (int n - 1) :: real)" using assms(1) by simp
  then have "0 \<le> of_int (int n - 1) * p" "of_int (int n - 1) * p \<le> of_int (int n - 1)"
    using assms(3,4) by (simp_all add: mult_left_le)
  from binary64_nonneg [OF this(1)] binary64_mono [OF this] exact
  have "0 \<le> binary64 (of_int (int n - 1) * p)" "binary64 (of_int (int n - 1) * p) \<le> of_int (int n - 1)" by simp_all
  then show ?thesis unfolding percentile_index_def exact by linarith
qed

lemma percentile_index_mono:
  assumes "0 < n" and "n \<le> 2 ^ 53" and "0 \<le> p" and "p \<le> q"
  shows "percentile_index n p \<le> percentile_index n q"
proof -
  have "int n \<le> 2 ^ 53" using assms(2) by (metis of_nat_le_iff of_nat_numeral of_nat_power)
  with assms(1) have exact: "binary64 (of_int (int n - 1)) = of_int (int n - 1)" by (intro binary64_int) simp_all
  show ?thesis
    unfolding percentile_index_def exact
    using assms by (intro floor_mono binary64_mono mult_left_mono mult_nonneg_nonneg) simp_all
qed

lemma percentile_at:
  assumes "vs \<noteq> []" and "length vs \<le> 2 ^ 53" and "0 \<le> p" and "p \<le> 1"
  shows "percentile vs p = Some (sort vs ! nat (percentile_index (length vs) p))"
  using percentile_index_range [of "length vs" p] assms by (simp add: percentile_def Let_def percentile_index_def)

text \<open>The best level among those that were measured.\<close>

definition best_of :: "load_config \<Rightarrow> levelResult list \<Rightarrow> levelResult option \<Rightarrow> bool" where
  "best_of cfg results best \<longleftrightarrow>
     (case best of
        None \<Rightarrow> \<forall>r \<in> set results. \<not> stable r (lt_minSuccessRate cfg)
      | Some b \<Rightarrow> b \<in> set results \<and> stable b (lt_minSuccessRate cfg) \<and>
          (\<forall>r \<in> set results. stable r (lt_minSuccessRate cfg) \<longrightarrow> \<not> float_lt (totalQPS b) (totalQPS r)))"

lemma float_lt_trans: "float_lt x y \<Longrightarrow> \<not> float_lt x z \<Longrightarrow> z \<noteq> NaN \<Longrightarrow> \<not> float_lt y z"
  by (cases x; cases y; cases z) auto

lemma totalQPS_number: "0 < level_total r \<Longrightarrow> level_total r \<le> 2 ^ 53 \<Longrightarrow> totalQPS r \<noteq> NaN"
  using binary64_int [of "level_total r"] by (simp add: totalQPS_def float_of_int_def Seconds_def)

lemma float_lt_irrefl: "\<not> float_lt x x"
  by (cases x) auto

lemma better_best:
  assumes "best_of cfg results best" and "\<forall>x \<in> set (results @ [r]). level_total x \<le> 2 ^ 53"
  shows "best_of cfg (results @ [r]) (better cfg best r)"
proof (cases "stable r (lt_minSuccessRate cfg) \<and> (case best of None \<Rightarrow> True | Some b \<Rightarrow> float_lt (totalQPS b) (totalQPS r))")
  case False
  then show ?thesis using assms(1) by (auto simp: better_def best_of_def split: option.splits)
next
  case True
  have "\<not> float_lt (totalQPS r) (totalQPS x)" if x: "x \<in> set results" "stable x (lt_minSuccessRate cfg)" for x
  proof (cases best)
    case None
    with assms(1) x show ?thesis by (simp add: best_of_def)
  next
    case (Some b)
    with assms(1) x have "\<not> float_lt (totalQPS b) (totalQPS x)" by (simp add: best_of_def)
    moreover have "totalQPS x \<noteq> NaN" using x assms(2) by (intro totalQPS_number) (auto simp: stable_def)
    moreover have "float_lt (totalQPS b) (totalQPS r)" using True Some by simp
    ultimately show ?thesis using float_lt_trans by blast
  qed
  with True show ?thesis by (auto simp: better_def best_of_def float_lt_irrefl split: option.splits)
qed

lemma run_levels_cons:
  assumes "run_levels cfg env wkeys rkeys i (level # levels) s = Some s'"
  obtains r s1 where "ru_results s1 = ru_results s @ [r]" "ru_best s1 = better cfg (ru_best s) r"
    "s' = s1 \<or> run_levels cfg env wkeys rkeys (Suc i) levels s1 = Some s'"
proof -
  obtain r codes line where level: "runLevel cfg (env i) level (ru_codes s) = Some (r, codes)"
    and line: "printLevel cfg (wkeys i) (rkeys i) r (int (length codes)) = Some line"
    using assms by (auto split: option.splits)
  let ?s1 = "\<lparr>ru_best = better cfg (ru_best s) r, ru_codes = codes, ru_out = ru_out s @ line, ru_results = ru_results s @ [r]\<rparr>"
  have "s' = ?s1 \<or> run_levels cfg env wkeys rkeys (Suc i) levels ?s1 = Some s'"
    using assms level line by (auto simp: Let_def split: if_splits)
  then show thesis by (intro that [of ?s1 r]) simp_all
qed

lemma run_levels_grows:
  "run_levels cfg env wkeys rkeys i levels s = Some s' \<Longrightarrow> set (ru_results s) \<subseteq> set (ru_results s')"
proof (induction levels arbitrary: i s)
  case (Cons level levels)
  from run_levels_cons [OF Cons.prems] obtain r s1 where "ru_results s1 = ru_results s @ [r]"
    "s' = s1 \<or> run_levels cfg env wkeys rkeys (Suc i) levels s1 = Some s'" by metis
  with Cons.IH show ?case by fastforce
qed simp

lemma run_levels_best:
  assumes "run_levels cfg env wkeys rkeys i levels s = Some s'" and "best_of cfg (ru_results s) (ru_best s)"
    and "\<forall>x \<in> set (ru_results s'). level_total x \<le> 2 ^ 53"
  shows "best_of cfg (ru_results s') (ru_best s')"
  using assms
proof (induction levels arbitrary: i s)
  case (Cons level levels)
  from run_levels_cons [OF Cons.prems(1)] obtain r s1 where
    s1: "ru_results s1 = ru_results s @ [r]" "ru_best s1 = better cfg (ru_best s) r"
    and rest: "s' = s1 \<or> run_levels cfg env wkeys rkeys (Suc i) levels s1 = Some s'" by metis
  then have "set (ru_results s @ [r]) \<subseteq> set (ru_results s')" using run_levels_grows by fastforce
  with Cons.prems(3) have "\<forall>x \<in> set (ru_results s @ [r]). level_total x \<le> 2 ^ 53" by blast
  from better_best [OF Cons.prems(2) this] have "best_of cfg (ru_results s1) (ru_best s1)" by (simp add: s1)
  with rest Cons.IH Cons.prems(3) show ?case by blast
qed simp

text \<open>In a sorted list the elements up to an index are those not above the one at it.\<close>

lemma sorted_rank:
  assumes "sorted xs" and "i < length xs"
  shows "i < length (filter (\<lambda>v. v \<le> xs ! i) xs)" and "length (filter (\<lambda>v. v < xs ! i) xs) \<le> i"
proof -
  have "{..i} \<subseteq> {j. j < length xs \<and> xs ! j \<le> xs ! i}" using assms by (auto intro: sorted_nth_mono)
  then have "card {..i} \<le> card {j. j < length xs \<and> xs ! j \<le> xs ! i}" by (intro card_mono) auto
  then show "i < length (filter (\<lambda>v. v \<le> xs ! i) xs)" by (simp add: length_filter_conv_card)
  have "{j. j < length xs \<and> xs ! j < xs ! i} \<subseteq> {..<i}"
    using assms sorted_nth_mono [OF assms(1)] by (auto simp: not_less [symmetric])
  then have "card {j. j < length xs \<and> xs ! j < xs ! i} \<le> card {..<i}" by (intro card_mono) auto
  then show "length (filter (\<lambda>v. v < xs ! i) xs) \<le> i" by (simp add: length_filter_conv_card)
qed

lemma length_filter_sort: "length (filter P (sort xs)) = length (filter P xs)" for xs :: "int list"
  by (metis filter_sort length_sort)

section \<open>Properties\<close>

text \<open>
  The best level of a run is stable and no stable level of the run had a higher rate; there is none
  exactly when no level was stable.
\<close>

theorem load_run_best:
  assumes "load_run_from cfg E = Some (None, s)" and "\<forall>r \<in> set (ru_results s). level_total r \<le> 2 ^ 53"
  shows "best_of cfg (ru_results s) (ru_best s)"
proof -
  obtain out codes s0 where run: "run_levels cfg (ld_level E) (ld_wkeys E) (ld_rkeys E) 0 (lt_levels cfg)
      \<lparr>ru_best = None, ru_codes = codes, ru_out = out, ru_results = []\<rparr> = Some s0"
    and s: "s = s0\<lparr>ru_out := ru_out s0 @ best_line cfg (ru_best s0)\<rparr>"
    using assms(1) by (auto simp: load_run_from_def Let_def split: prod.splits option.splits)
  from run_levels_best [OF run] assms(2) show ?thesis by (simp add: s best_of_def)
qed

text \<open>
  C40 (bounds). The report of the latencies never indexes outside the measured ones: with up to \<open>2 ^ 53\<close>
  of them, in the arithmetic of 64-bit floats, the percentile of any share is a measured latency, at
  least as many as its index says are not above it and no more are below it, a larger share gives no
  smaller value, and none exceeds the maximum that is printed beside it.
\<close>

theorem latency_percentiles:
  assumes "vs \<noteq> []" and "length vs \<le> 2 ^ 53" and "0 \<le> p" and "p \<le> q" and "q \<le> 1"
  shows "\<exists>a b. percentile vs p = Some a \<and> percentile vs q = Some b \<and> a \<in> set vs \<and> b \<in> set vs \<and>
    a \<le> b \<and> b \<le> maxLatency vs \<and>
    percentile_index (length vs) p < int (length (filter (\<lambda>v. v \<le> a) vs)) \<and>
    int (length (filter (\<lambda>v. v < a) vs)) \<le> percentile_index (length vs) p"
proof -
  let ?s = "sort vs" and ?i = "nat (percentile_index (length vs) p)" and ?j = "nat (percentile_index (length vs) q)"
  have pos: "0 < length vs" using assms(1) by simp
  note i = percentile_index_range [OF pos assms(2,3) order_trans [OF assms(4,5)]]
  note j = percentile_index_range [OF pos assms(2) order_trans [OF assms(3,4)] assms(5)]
  have ij: "?i \<le> ?j" "?j < length ?s" "?i < length ?s"
    using percentile_index_mono [OF pos assms(2-4)] i j by (simp_all add: nat_le_eq_zle nat_less_iff)
  have mem: "?s ! ?i \<in> set vs" "?s ! ?j \<in> set vs" using nth_mem [OF ij(3)] nth_mem [OF ij(2)] by simp_all
  have "percentile vs p = Some (?s ! ?i)" "percentile vs q = Some (?s ! ?j)"
    using assms by (auto intro: percentile_at)
  moreover have "?s ! ?i \<le> ?s ! ?j" by (rule sorted_nth_mono [OF sorted_sort ij(1,2)])
  moreover have "?s ! ?j \<le> maxLatency vs" using mem(2) by (simp add: maxLatency_max [OF assms(1)])
  moreover have "percentile_index (length vs) p < int (length (filter (\<lambda>v. v \<le> ?s ! ?i) vs)) \<and>
      int (length (filter (\<lambda>v. v < ?s ! ?i) vs)) \<le> percentile_index (length vs) p"
    using sorted_rank [OF sorted_sort ij(3)] i unfolding length_filter_sort by linarith
  ultimately show ?thesis using mem by blast
qed

lemma latency_percentiles_witness:
  "\<exists>a b. percentile [5, 3, 9] p50 = Some a \<and> percentile [5, 3, 9] p99 = Some b \<and> a \<le> b \<and> b \<le> 9"
proof -
  have "(0 :: real) \<le> p50" "p50 \<le> p99" "p99 \<le> 1" by (simp_all add: p50_def p99_def)
  from latency_percentiles [OF _ _ this, of "[5, 3, 9]"] show ?thesis by (auto simp: maxLatency_def)
qed





end
