(* ===== verification/Spec2Isabelle.thy ===== *)
theory Spec2Isabelle
  imports Deployment Bloom_Race Async_Writer Process Load_Report
begin

text \<open>
  FlashLink, a URL shortener: verification library.

  The program. \<open>cmd/gateway\<close> answers HTTP and calls three gRPC services: \<open>linksvc\<close> creates short
  links, \<open>redirectsvc\<close> resolves codes, \<open>statsvc\<close> records visits and counts them; \<open>cmd/worker\<close> cleans
  up. Links live in sixteen MySQL tables chosen by their code; an LRU cache in the process, a cache in
  Redis and a Bloom filter in RedisBloom stand before them. Services find each other through etcd.

  Theories and the code they model (paths under \<open>src/\<close>).
  \<^item> \<open>Go_Runtime\<close>: the prelude. Byte strings and \<open>strings\<close>, instants and durations, 64-bit words,
    decimal numbers, buffered channels with the locale \<open>bounded_queue\<close>, generic lemmas and the
    collections of rules the other theories fill.
  \<^item> \<open>Domain\<close>: \<open>internal/domain/link\<close> errors.go, model.go. \<open>Base62\<close>: base62.go, code.go. \<open>Shard\<close>:
    shard.go. \<open>Snowflake\<close>: snowflake.go.
  \<^item> \<open>Local_Cache\<close>: \<open>internal/infrastructure/cache/local.go\<close>, a map and a linked list with element
    pointers. \<open>Redis_Client\<close>: what is used of go-redis, with its laws. \<open>Redis_Cache\<close>: redis.go, keys.go.
    \<open>Filters\<close>, \<open>Bloom_Race\<close>: \<open>internal/infrastructure/filter\<close>, the second with creations and rebuilds
    interleaved command by command.
  \<^item> \<open>Short_Link_Repo\<close>, \<open>Short_Link_Mem\<close>: \<open>internal/infrastructure/mysql\<close> short_link_repository.go; the
    first over any database with the laws of the statements used, the second with one in memory that
    satisfies them. \<open>Visit_Repo\<close>: visit_repository.go in the same way.
  \<^item> \<open>Ports\<close>, \<open>Link_Service\<close>, \<open>Lazy_Cleaner\<close>, \<open>Async_Writer\<close>: \<open>internal/app/linkapp\<close>. \<open>Link_World\<close>: the
    link service wired to all its parts as \<open>cmd/linksvc\<close> and \<open>cmd/redirectsvc\<close> do it.
  \<^item> \<open>Stat_Service\<close>, \<open>Recorder\<close>: \<open>internal/app/statapp\<close>. \<open>Cleanup\<close>: \<open>internal/app/cleanupapp\<close> and its wiring
    in \<open>cmd/worker\<close>.
  \<^item> \<open>Grpc_Api\<close>: \<open>internal/interfaces/grpcapi/api.go\<close>. \<open>Http_Api\<close>: \<open>internal/interfaces/httpapi/router.go\<close>
    and \<open>internal/app/health\<close>. \<open>Etcd\<close>: \<open>internal/infrastructure/etcd\<close>. \<open>Config\<close>: \<open>internal/config\<close> and what
    the commands make of it.
  \<^item> \<open>Binary64\<close>: numbers of type \<open>float64\<close> and how they and durations are printed. \<open>Loadtest\<close>: \<open>cmd/loadtest\<close>,
    its flags, requests, pool of codes, seeding and interleaved workers. \<open>Load_Report\<close>: its rates, percentiles,
    report and choice of the best level.
  \<^item> \<open>Process\<close>: the \<open>main\<close> functions of \<open>cmd\<close> as sequences of calls, \<open>mysql/db.go\<close>, \<open>redis/client.go\<close>, the
    dialling and \<open>Serve\<close> of \<open>grpcapi\<close>, \<open>health.Run\<close>, and how the processes of \<open>statsvc\<close> and the gateway end.
  \<^item> \<open>End_To_End\<close>: \<open>linksvc\<close> and \<open>redirectsvc\<close> as two processes over one database and one Redis, behind
    the gateway. \<open>Held_Links\<close>: what every operation of a process leaves of a link that does not expire.
    \<open>Deployment\<close>: the two, their lazy cleaners and the runs of \<open>cmd/worker\<close> over one
    database and one Redis, as a step relation.

  Correspondence. A struct is a record whose fields carry a prefix of the record before the Go name; an
  interface is a record of functions; a nil pointer or interface is \<open>None\<close>. Integers that wrap are
  words (\<open>uint64\<close>, \<open>int64\<close>, \<open>uint8\<close>), \<open>int\<close> values used as sizes, limits and durations are integers.
  A function that changes something takes its state and returns it changed; errors are values of
  \<open>go_error\<close>, alone as an option or in a sum with the result. An option around a whole result means
  that a call may not return. Goroutines, the cases of a \<open>select\<close> and callers that run at the same time are
  inductive step relations; what a run may do is the reflexive and transitive closure.

  Code that is not in the repository is a parameter with named laws: \<open>db_laws\<close> and \<open>visit_laws\<close> (the
  statements sent through gorm to MySQL; what a row keeps of the values sent is part of them: times are
  rounded to the precision of their column, and texts that are not UTF-8 are refused), \<open>redis_laws\<close> (the
  commands of Redis and RedisBloom, the effect of the Lua script included), \<open>json_faithful\<close>
  (\<open>encoding/json\<close> gives back a link whose texts are UTF-8; it changes others), \<open>flight_law\<close> (singleflight),
  \<open>remote\<close> (a gRPC call), \<open>etcd_reads\<close> (a read of etcd). Every law has an instance in the development, on
  which the witnesses run.

  Histories. The step relations of the queues carry lists that the code does not have: what was accepted,
  as the callers gave it, what was taken from the queue, and the calls made of the repository. They only
  serve to state the properties, and the properties tie them to the code's own state: the state of the
  repository is shown to be that after exactly these calls (\<open>write_calls\<close> in \<open>Async_Writer\<close>, \<open>flushed_calls\<close>
  in \<open>Recorder\<close>), for any repository. In the same way the statistics of a level of the load generator are
  compared with the list of its requests (\<open>level_requests\<close>), which keeps no statistics.

  What is one step. \<open>Bloom_Race\<close> takes creations and rebuilds apart into single Redis commands,
  \<open>Local_Cache\<close> the computation of an expiry and the update under the lock, \<open>Stat_Service\<close> lets other
  processes write between its queries, and the queues interleave every receive, flush and call. In
  \<open>Link_World\<close>, \<open>End_To_End\<close> and \<open>Deployment\<close> a creation, a resolution, an item of a cleaner and a run of the
  worker are one step each; what happens when a creation overlaps a rebuild is seen in \<open>Bloom_Race\<close>
  only, where a code can be lost.

  The requested code. Databases compare codes with \<open>db_text_eq\<close>, the collation of the column. Where a
  property says that a link's code equals the requested one for the database, this is equality under a
  case-sensitive collation and equality up to case under that of the migrations.

  Interfaces are locales, interpreted on the model: \<open>bounded_queue\<close> (buffered channels), \<open>batch_deleter\<close>
  (limited deletions), \<open>visit_sink\<close> and \<open>link_sink\<close> (where batches go), \<open>id_generator\<close>, \<open>link_cache\<close>,
  \<open>existence_filter\<close> and \<open>code_source\<close> (the ports), \<open>link_service\<close> (the service and its ports), \<open>node_parts\<close> and \<open>held_parts\<close> (its parts in one process),
  \<open>shared_parts\<close> (the processes that share the database and Redis), \<open>remote\<close> (stub and server).

  What the lemmas show.
  \<^item> Codes, ids and shards: round trips, injectivity, bounds of the encoder's buffer, the decoder modulo
    \<open>2 ^ 64\<close>; ids increase strictly whatever the clock does.
  \<^item> Caches and filters: refinement of the pointer structure to a recency list, what is kept and for how
    long; no false negatives of the filter through additions and rebuilds that do not overlap, and the
    interleaving that produces one.
  \<^item> Repositories: what each operation does to the tables on every branch, termination of the loops over
    batches for every batch size, and the effect of the collation of the migrations.
  \<^item> Services: what a link that is served guarantees about the database through all caches, that a created link
    resolves, and conservation, order and bounds of the three queues with their shutdown, down to the calls of
    the repository and the rows of the tables.
  \<^item> Interfaces: transparency of the gRPC client, form and cause of every HTTP answer, and the redirect from
    the request down to the row of the database; a link created through one process redirects through the other; with every process at work a created link
    without an end stays reachable, and a redirect leads only where the database says.
  \<^item> Operation: a cleanup run ends and removes what it should and nothing else; the resolver agrees with the registry
    in ordered runs, and an unordered run that loses an instance;
    the order of calls in every start-up, and what is lost when a process ends.
  \<^item> Load generator: the statistics of a level are those of its answered requests, codes of a level come from
    requests that succeeded, requests that its end cuts off are not counted, percentiles are measured latencies in order, and the best level is one that met the limits.

  Bounds and fuel. No definition uses fuel. Loops whose end depends on other code are partial functions
  in the option monad (\<open>waitNextMillis\<close>, \<open>list_shard\<close>, \<open>delete_shard\<close>, \<open>deleteAll\<close>) and are shown to return under
  the laws; the scheduler runs for a number of ticks that is given, and a level of the load generator for a given list
  of events of its workers.

  Not modelled.
  \<^item> What the libraries do when connections are opened, addresses listened on and requests served: a start-up is
    the list of its calls, each answered by the environment. The profiling handlers beyond their routes.
  \<^item> Generated code (\<open>grpcapi/pb\<close>), and the matching of routes, decoding of bodies and recovery from panics
    by gin.
  \<^item> Contexts, except where the code tests one: a call under a context that ends is an error of the parameter it
    reaches.
  \<^item> The network answers, random numbers, clock and scheduling that the load generator meets are given from
    outside.
  \<^item> Locations of times: an instant has none, and days are those of a zone with a fixed offset.
\<close>

end
